theory Spec2Isabelle
  imports Complex_Main "HOL-Library.Word" "HOL-Library.Monad_Syntax"
begin

unbundle bit_operations_syntax

section \<open>The pool of MPFR variables and its free list (gmp\_mpfr\_interface.h)\<close>

text \<open>
  \<^verbatim>\<open>size_t\<close> is a 64-bit unsigned integer: arithmetic on it wraps around.
  A loop counter that runs below a \<^verbatim>\<open>size_t\<close> bound and indexes an array is a
  \<open>nat\<close>: it never wraps, since it stays below the bound.
\<close>

type_synonym size_t = "64 word"

definition DATA_CHUNK_SIZE :: size_t where
  "DATA_CHUNK_SIZE = 1000"

text \<open>\<^verbatim>\<open>typedef struct { size_t start; size_t end; } idx_t;\<close>\<close>

record idx_t =
  idx_start :: size_t
  idx_end :: size_t

text \<open>
  The six static variables. A pointer is \<open>None\<close> when it is \<^verbatim>\<open>NULL\<close> and
  \<open>Some xs\<close> when it points to a block holding the elements \<open>xs\<close>.
\<close>

record 'v pool =
  data :: "'v list option"
  data_capacity :: size_t
  data_size :: size_t
  free_list :: "idx_t list option"
  free_list_capacity :: size_t
  free_list_size :: size_t

text \<open>
  What the code takes from outside \<^verbatim>\<open>src/\<close>, as the fields of an environment \<open>E\<close>:
  \<^item> whether the requests to \<^verbatim>\<open>mxMalloc\<close> and \<^verbatim>\<open>mxRealloc\<close> of the call are served, and
    what fresh memory holds;
  \<^item> the functions of the MPFR library that the code calls, on values of an arbitrary
    type \<open>'v\<close>. A function that stores into a destination gets the old value of the
    destination first (it fixes the precision of the result) and returns the new value
    of the destination with the ternary value: \<open>mpfr_set E rnd rop op\<close>,
    \<open>mpfr_fma E rnd rop op1 op2 op3\<close>. \<open>mpfr_init E\<close> is the value \<^verbatim>\<open>mpfr_init\<close> leaves
    (not a number, at the default precision);
  \<^item> \<^verbatim>\<open>mpfr_apa_dot\<close> and \<^verbatim>\<open>mplapack_Rgemm\<close>, which strategies 7 and 8 of the matrix
    product call (\<open>mplapack_Rgemm E = None\<close> when the macro \<^verbatim>\<open>MPLAPACK\<close> is not
    defined): \<open>mpfr_apa_dot E rnd prec rop a b\<close> gets the old value of the destination
    and the \<open>K\<close> values of each vector; \<open>mplapack_Rgemm\<close> gets \<open>M\<close>, \<open>N\<close>, \<open>K\<close>, the
    value of \<^verbatim>\<open>one\<close>, the offsets of \<open>A\<close>, \<open>B\<close> and \<open>C\<close> in \<^verbatim>\<open>mpfr_data\<close> and its elements;
  \<^item> the macros \<^verbatim>\<open>MPFR_PREC_MIN\<close> and \<^verbatim>\<open>MPFR_PREC_MAX\<close> of \<^verbatim>\<open>mpfr.h\<close>, as the
    \<^verbatim>\<open>uint64_t\<close> values their comparisons with a \<^verbatim>\<open>uint64_t\<close> convert them to;
  \<^item> the variable \<^verbatim>\<open>VERBOSE\<close>.
\<close>

datatype mpfr_rnd_t = MPFR_RNDN | MPFR_RNDZ | MPFR_RNDU | MPFR_RNDD | MPFR_RNDA

type_synonym mpfr_prec_t = "64 word"

record 'v mex_env =
  alloc_ok :: bool
  uninit_idx :: idx_t
  uninit_mpfr :: 'v
  mpfr_init :: 'v
  mpfr_init2 :: "mpfr_prec_t \<Rightarrow> 'v"
  mpfr_set :: "mpfr_rnd_t \<Rightarrow> 'v \<Rightarrow> 'v \<Rightarrow> 'v \<times> int"
  mpfr_set_ui :: "mpfr_rnd_t \<Rightarrow> 'v \<Rightarrow> 64 word \<Rightarrow> 'v \<times> int"
  mpfr_fma :: "mpfr_rnd_t \<Rightarrow> 'v \<Rightarrow> 'v \<Rightarrow> 'v \<Rightarrow> 'v \<Rightarrow> 'v \<times> int"
  mpfr_apa_dot :: "mpfr_rnd_t \<Rightarrow> mpfr_prec_t \<Rightarrow> 'v \<Rightarrow> 'v list \<Rightarrow> 'v list \<Rightarrow> 'v \<times> int"
  mplapack_Rgemm ::
    "(64 word \<Rightarrow> 64 word \<Rightarrow> 64 word \<Rightarrow> 'v \<Rightarrow> nat \<Rightarrow> nat \<Rightarrow> nat \<Rightarrow> 'v list \<Rightarrow> 'v list option) option"
  MPFR_PREC_MIN :: "64 word"
  MPFR_PREC_MAX :: "64 word"
  VERBOSE :: int

text \<open>
  The result of a function is an \<open>option\<close>: \<open>None\<close> when the call has no defined
  result, because it dereferences \<^verbatim>\<open>NULL\<close>, reads or writes outside the block a
  pointer points to, divides by zero, converts a \<^verbatim>\<open>double\<close> to an integer type that
  cannot hold its value, or loops forever.
\<close>

definition arr_read :: "'a list option \<Rightarrow> nat \<Rightarrow> 'a option" where
  "arr_read a i =
     (case a of None \<Rightarrow> None
      | Some xs \<Rightarrow> if i < length xs then Some (xs ! i) else None)"

definition arr_write :: "'a list option \<Rightarrow> nat \<Rightarrow> 'a \<Rightarrow> 'a list option option" where
  "arr_write a i v =
     (case a of None \<Rightarrow> None
      | Some xs \<Rightarrow> if i < length xs then Some (Some (xs[i := v])) else None)"

text \<open>\<^verbatim>\<open>mxMalloc\<close> and \<^verbatim>\<open>mxRealloc\<close> for \<open>n\<close> elements; \<open>None\<close> is \<^verbatim>\<open>NULL\<close>.\<close>

definition mxMalloc :: "bool \<Rightarrow> 'a \<Rightarrow> size_t \<Rightarrow> 'a list option" where
  "mxMalloc ok fresh n = (if ok then Some (replicate (unat n) fresh) else None)"

definition mxRealloc :: "bool \<Rightarrow> 'a \<Rightarrow> 'a list \<Rightarrow> size_t \<Rightarrow> 'a list option" where
  "mxRealloc ok fresh xs n =
     (if ok then Some (take (unat n) xs @ replicate (unat n - length xs) fresh) else None)"

definition is_valid :: "idx_t \<Rightarrow> 'v pool \<Rightarrow> bool" where
  "is_valid idx s \<longleftrightarrow>
     1 \<le> idx_start idx \<and> idx_start idx \<le> idx_end idx \<and> idx_end idx \<le> data_size s"

text \<open>The source's \<^verbatim>\<open>length\<close>.\<close>

definition length_idx :: "idx_t \<Rightarrow> size_t" where
  "length_idx idx = idx_end idx - idx_start idx + 1"

text \<open>
  \<^verbatim>\<open>free_list_remove\<close>: the loop copies entry \<open>i + 1\<close> over entry \<open>i\<close> (both fields)
  for every \<open>i\<close> below \<^verbatim>\<open>free_list_size\<close>.
\<close>

function free_list_remove_loop ::
  "nat \<Rightarrow> nat \<Rightarrow> idx_t list option \<Rightarrow> idx_t list option option" where
  "free_list_remove_loop i n fl =
     (if i < n then do {
        e \<leftarrow> arr_read fl (i + 1);
        fl' \<leftarrow> arr_write fl i e;
        free_list_remove_loop (i + 1) n fl'
      } else Some fl)"
  by pat_completeness auto
termination
  by (relation "measure (\<lambda>(i, n, fl). n - i)") auto

declare free_list_remove_loop.simps [simp del]

definition free_list_remove :: "nat \<Rightarrow> 'v pool \<Rightarrow> 'v pool option" where
  "free_list_remove i s = do {
     fl \<leftarrow> free_list_remove_loop i (unat (free_list_size s)) (free_list s);
     Some (s\<lparr>free_list := fl, free_list_size := free_list_size s - 1\<rparr>)
   }"

text \<open>
  \<^verbatim>\<open>free_list_compress\<close>. The inner loop over \<open>j\<close> (rule 2) returns \<^verbatim>\<open>do_break\<close>
  with the state; the loop over \<open>i\<close> returns \<^verbatim>\<open>have_merge\<close> with the state.
\<close>

function rule2_loop :: "nat \<Rightarrow> nat \<Rightarrow> 'v pool \<Rightarrow> (bool \<times> 'v pool) option" where
  "rule2_loop i j s =
     (if j < unat (free_list_size s) then do {
        ei \<leftarrow> arr_read (free_list s) i;
        ej \<leftarrow> arr_read (free_list s) j;
        if idx_end ei + 1 = idx_start ej \<or> idx_end ej + 1 = idx_start ei then do {
          fl' \<leftarrow> arr_write (free_list s) i
            \<lparr>idx_start = (if idx_start ei \<le> idx_start ej then idx_start ei else idx_start ej),
             idx_end = (if idx_end ei \<ge> idx_end ej then idx_end ei else idx_end ej)\<rparr>;
          s' \<leftarrow> free_list_remove j (s\<lparr>free_list := fl'\<rparr>);
          Some (True, s')
        } else rule2_loop i (j + 1) s
      } else Some (False, s))"
  by pat_completeness auto
termination
  by (relation "measure (\<lambda>(i, j, s). unat (free_list_size s) - j)") auto

declare rule2_loop.simps [simp del]

lemma rule2_loop_no_break:
  "rule2_loop i j s = Some (False, s') \<Longrightarrow> s' = s"
proof (induction i j s rule: rule2_loop.induct)
  case (1 i j s)
  show ?case
  proof (cases "j < unat (free_list_size s)")
    case False
    with "1.prems" show ?thesis by (simp add: rule2_loop.simps [of i j s])
  next
    case True
    with "1.prems" "1.IH" show ?thesis
      by (auto simp: rule2_loop.simps [of i j s] split: Option.bind_splits if_splits)
  qed
qed

function compress_pass :: "nat \<Rightarrow> 'v pool \<Rightarrow> (bool \<times> 'v pool) option" where
  "compress_pass i s =
     (if i < unat (free_list_size s) then do {
        ei \<leftarrow> arr_read (free_list s) i;
        if idx_end ei = data_size s then do {
          s' \<leftarrow> free_list_remove i (s\<lparr>data_size := idx_start ei - 1\<rparr>);
          Some (True, s')
        } else do {
          (do_break, s') \<leftarrow> rule2_loop i (i + 1) s;
          if do_break then Some (True, s') else compress_pass (i + 1) s'
        }
      } else Some (False, s))"
  by pat_completeness auto
termination
  by (relation "measure (\<lambda>(i, s). unat (free_list_size s) - i)")
    (auto dest: rule2_loop_no_break)

declare compress_pass.simps [simp del]

lemma free_list_remove_size:
  "free_list_remove i s = Some s' \<Longrightarrow> free_list_size s' = free_list_size s - 1"
  by (auto simp: free_list_remove_def split: Option.bind_splits)

lemma rule2_loop_break_size:
  "rule2_loop i j s = Some (True, s') \<Longrightarrow>
     free_list_size s' = free_list_size s - 1 \<and> free_list_size s \<noteq> 0"
proof (induction i j s rule: rule2_loop.induct)
  case (1 i j s)
  show ?case
  proof (cases "j < unat (free_list_size s)")
    case False
    with "1.prems" show ?thesis by (simp add: rule2_loop.simps [of i j s])
  next
    case True
    then have "free_list_size s \<noteq> 0" by auto
    with True "1.prems" "1.IH" show ?thesis
      by (auto simp: rule2_loop.simps [of i j s] dest!: free_list_remove_size
          split: Option.bind_splits if_splits)
  qed
qed

lemma compress_pass_merge_size:
  "compress_pass i s = Some (True, s') \<Longrightarrow>
     free_list_size s' = free_list_size s - 1 \<and> free_list_size s \<noteq> 0"
proof (induction i s rule: compress_pass.induct)
  case (1 i s)
  show ?case
  proof (cases "i < unat (free_list_size s)")
    case False
    with "1.prems" show ?thesis by (simp add: compress_pass.simps [of i s])
  next
    case True
    then have nz: "free_list_size s \<noteq> 0" by auto
    from True "1.prems" obtain ei where
      ei: "arr_read (free_list s) i = Some ei"
      by (auto simp: compress_pass.simps [of i s] split: Option.bind_splits)
    show ?thesis
    proof (cases "idx_end ei = data_size s")
      case True
      with \<open>i < unat (free_list_size s)\<close> ei "1.prems" nz show ?thesis
        by (auto simp: compress_pass.simps [of i s] dest!: free_list_remove_size
            split: Option.bind_splits)
    next
      case False
      with \<open>i < unat (free_list_size s)\<close> ei "1.prems" obtain b s1 where
        r2: "rule2_loop i (i + 1) s = Some (b, s1)" and
        rest: "(if b then Some (True, s1) else compress_pass (i + 1) s1) = Some (True, s')"
        by (auto simp: compress_pass.simps [of i s] split: Option.bind_splits)
      show ?thesis
      proof (cases b)
        case True
        with r2 rest show ?thesis by (auto dest: rule2_loop_break_size)
      next
        case b: False
        with r2 have "s1 = s" by (auto dest: rule2_loop_no_break)
        with b rest r2 "1.IH" [OF \<open>i < unat (free_list_size s)\<close> ei False, of "(b, s1)" b s1]
        show ?thesis by simp
      qed
    qed
  qed
qed

text \<open>The \<^verbatim>\<open>do ... while (have_merge)\<close> loop of \<^verbatim>\<open>free_list_compress\<close>.\<close>

function free_list_compress :: "'v pool \<Rightarrow> 'v pool option" where
  "free_list_compress s = do {
     (have_merge, s') \<leftarrow> compress_pass 0 s;
     if have_merge then free_list_compress s' else Some s'
   }"
  by pat_completeness auto
termination
proof (relation "measure (\<lambda>s. unat (free_list_size s))")
  show "wf (measure (\<lambda>s::'a pool. unat (free_list_size s)))" by simp
next
  fix s :: "'a pool" and x have_merge s'
  assume "compress_pass 0 s = Some x" "(have_merge, s') = x" "have_merge"
  then have "compress_pass 0 s = Some (True, s')" by auto
  then have "free_list_size s' = free_list_size s - 1" "free_list_size s \<noteq> 0"
    by (auto dest: compress_pass_merge_size)
  then have "unat (free_list_size s') < unat (free_list_size s)"
    by (simp add: unat_minus_one unat_gt_0)
  then show "(s', s) \<in> measure (\<lambda>s. unat (free_list_size s))" by simp
qed

declare free_list_compress.simps [simp del]

text \<open>
  The loops that initialise MPFR variables: \<^verbatim>\<open>mpfr_init (data + i)\<close> in
  \<^verbatim>\<open>mex_mpfr_allocate\<close>, and \<^verbatim>\<open>mpfr_clear (data + i); mpfr_init (data + i)\<close> in
  \<^verbatim>\<open>mex_mpfr_mark_free\<close>, for \<open>i\<close> from the first index up to the bound.
\<close>

function mpfr_init_loop :: "'v \<Rightarrow> nat \<Rightarrow> nat \<Rightarrow> 'v list option \<Rightarrow> 'v list option option" where
  "mpfr_init_loop v i n a =
     (if i < n then do {
        a' \<leftarrow> arr_write a i v;
        mpfr_init_loop v (i + 1) n a'
      } else Some a)"
  by pat_completeness auto
termination
  by (relation "measure (\<lambda>(v, i, n, a). n - i)") auto

declare mpfr_init_loop.simps [simp del]

text \<open>
  \<^verbatim>\<open>mex_mpfr_mark_free\<close>. \<open>mark_free_append\<close> is the part of the function after the
  free list has room: reinitialise the variables, append the range, compress.
\<close>

definition mark_free_append :: "'v mex_env \<Rightarrow> idx_t \<Rightarrow> 'v pool \<Rightarrow> 'v pool option" where
  "mark_free_append E idx s = do {
     d \<leftarrow> mpfr_init_loop (mpfr_init E) (unat (idx_start idx - 1)) (unat (idx_end idx)) (data s);
     fl \<leftarrow> arr_write (free_list s) (unat (free_list_size s))
       \<lparr>idx_start = idx_start idx, idx_end = idx_end idx\<rparr>;
     free_list_compress (s\<lparr>data := d, free_list := fl, free_list_size := free_list_size s + 1\<rparr>)
   }"

definition mex_mpfr_mark_free :: "'v mex_env \<Rightarrow> idx_t \<Rightarrow> 'v pool \<Rightarrow> 'v pool option" where
  "mex_mpfr_mark_free E idx s =
     (if \<not> is_valid idx s then Some s
      else if free_list_size s = free_list_capacity s then
        (let new_capacity = free_list_capacity s + DATA_CHUNK_SIZE;
             p = (case free_list s of
                    None \<Rightarrow> mxMalloc (alloc_ok E) (uninit_idx E) new_capacity
                  | Some xs \<Rightarrow> mxRealloc (alloc_ok E) (uninit_idx E) xs new_capacity)
         in case p of
              None \<Rightarrow> Some (s\<lparr>free_list := None\<rparr>)
            | Some xs \<Rightarrow>
                mark_free_append E idx
                  (s\<lparr>free_list := Some xs, free_list_capacity := new_capacity\<rparr>))
      else mark_free_append E idx s)"

text \<open>
  \<^verbatim>\<open>mex_mpfr_allocate\<close>. The loop over the free list either returns from the function
  (\<open>Returns\<close>, with the return value, \<^verbatim>\<open>*idx\<close> and the state) or ends (\<open>Loop_done\<close>).
\<close>

datatype 'a loop_exit = Loop_done | Returns 'a

function reuse_loop ::
  "nat \<Rightarrow> size_t \<Rightarrow> 'v pool \<Rightarrow> (bool \<times> idx_t \<times> 'v pool) loop_exit option" where
  "reuse_loop i count s =
     (if i < unat (free_list_size s) then do {
        e \<leftarrow> arr_read (free_list s) i;
        if count \<le> length_idx e then do {
          let idx = \<lparr>idx_start = idx_start e, idx_end = idx_start e + count - 1\<rparr>;
          s' \<leftarrow> (if count < length_idx e then do {
                   fl' \<leftarrow> arr_write (free_list s) i (e\<lparr>idx_start := idx_start e + count\<rparr>);
                   Some (s\<lparr>free_list := fl'\<rparr>)
                 } else free_list_remove i s);
          Some (Returns (is_valid idx s', idx, s'))
        } else reuse_loop (i + 1) count s
      } else Some Loop_done)"
  by pat_completeness auto
termination
  by (relation "measure (\<lambda>(i, count, s). unat (free_list_size s) - i)") auto

declare reuse_loop.simps [simp del]

text \<open>
  \<^verbatim>\<open>while ((data_size + count) > new_capacity) new_capacity += DATA_CHUNK_SIZE;\<close>
  The sum \<open>need\<close> is computed in \<^verbatim>\<open>size_t\<close>, and so is the new capacity: the loop
  need not end.
\<close>

partial_function (option) new_capacity_loop :: "size_t \<Rightarrow> size_t \<Rightarrow> size_t option" where
  "new_capacity_loop need new_capacity =
     (if need > new_capacity then new_capacity_loop need (new_capacity + DATA_CHUNK_SIZE)
      else Some new_capacity)"

declare new_capacity_loop.simps [code]

text \<open>The end of \<^verbatim>\<open>mex_mpfr_allocate\<close>: the new variables are the next \<open>count\<close> ones.\<close>

definition allocate_new :: "size_t \<Rightarrow> 'v pool \<Rightarrow> bool \<times> idx_t \<times> 'v pool" where
  "allocate_new count s =
     (let s' = s\<lparr>data_size := data_size s + count\<rparr>;
          idx = \<lparr>idx_start = data_size s + 1, idx_end = data_size s'\<rparr>
      in (is_valid idx s', idx, s'))"

text \<open>
  The result is the return value (\<open>True\<close> for a value other than 0), \<^verbatim>\<open>*idx\<close> after
  the call and the state after the call.
\<close>

definition mex_mpfr_allocate ::
  "'v mex_env \<Rightarrow> size_t \<Rightarrow> idx_t \<Rightarrow> 'v pool \<Rightarrow> (bool \<times> idx_t \<times> 'v pool) option" where
  "mex_mpfr_allocate E count idx s =
     (if count = 0 then Some (False, idx, s)
      else do {
        r \<leftarrow> reuse_loop 0 count s;
        case r of
          Returns x \<Rightarrow> Some x
        | Loop_done \<Rightarrow>
            if data_size s + count > data_capacity s then do {
              new_capacity \<leftarrow> new_capacity_loop (data_size s + count) (data_capacity s);
              case (case data s of
                      None \<Rightarrow> mxMalloc (alloc_ok E) (uninit_mpfr E) new_capacity
                    | Some xs \<Rightarrow> mxRealloc (alloc_ok E) (uninit_mpfr E) xs new_capacity) of
                None \<Rightarrow> Some (False, idx, s\<lparr>data := None\<rparr>)
              | Some xs \<Rightarrow> do {
                  d \<leftarrow> mpfr_init_loop (mpfr_init E) (unat (data_capacity s)) (unat new_capacity)
                    (Some xs);
                  Some (allocate_new count (s\<lparr>data := d, data_capacity := new_capacity\<rparr>))
                }
            } else Some (allocate_new count s)
      })"

section \<open>Reading the arguments of a call (gmp\_mpfr\_interface.h)\<close>

text \<open>
  A \<^verbatim>\<open>double\<close> is a real number, an infinity or not a number (every finite
  \<^verbatim>\<open>double\<close> is a real number; the functions below only test a finite value for being
  a whole number and convert it). An \<^verbatim>\<open>mxArray\<close> is what the functions of the MEX
  interface return for it; \<^verbatim>\<open>prhs\<close> is the list of the arguments.
\<close>

datatype double = D_fin real | D_inf_pos | D_inf_neg | D_nan

record mxArray =
  mxIsNumeric :: bool
  mxGetM :: nat
  mxGetN :: nat
  mxGetPr :: "double list"

definition mxIsScalar :: "mxArray \<Rightarrow> bool" where
  "mxIsScalar a \<longleftrightarrow> mxGetM a = 1 \<and> mxGetN a = 1"

definition mxGetScalar :: "mxArray \<Rightarrow> double option" where
  "mxGetScalar a = (case mxGetPr a of [] \<Rightarrow> None | x # xs \<Rightarrow> Some x)"

definition mxIsFinite :: "double \<Rightarrow> bool" where
  "mxIsFinite d = (case d of D_fin x \<Rightarrow> True | _ \<Rightarrow> False)"

text \<open>\<^verbatim>\<open>floor (d) == d\<close> and \<^verbatim>\<open>d >= 0.0\<close>.\<close>

definition is_whole :: "double \<Rightarrow> bool" where
  "is_whole d = (case d of D_fin x \<Rightarrow> of_int \<lfloor>x\<rfloor> = x | D_nan \<Rightarrow> False | _ \<Rightarrow> True)"

definition is_nonneg :: "double \<Rightarrow> bool" where
  "is_nonneg d = (case d of D_fin x \<Rightarrow> x \<ge> 0 | D_inf_pos \<Rightarrow> True | _ \<Rightarrow> False)"

text \<open>
  The conversions \<^verbatim>\<open>(int64_t) d\<close> and \<^verbatim>\<open>(uint64_t) d\<close> drop the fractional part; they
  are defined when the type can hold the result.
\<close>

definition c_truncate :: "real \<Rightarrow> int" where
  "c_truncate x = (if x \<ge> 0 then \<lfloor>x\<rfloor> else \<lceil>x\<rceil>)"

definition double_to_int64 :: "double \<Rightarrow> 64 word option" where
  "double_to_int64 d =
     (case d of
        D_fin x \<Rightarrow>
          if - (2 ^ 63) \<le> c_truncate x \<and> c_truncate x < 2 ^ 63 then Some (word_of_int (c_truncate x))
          else None
      | _ \<Rightarrow> None)"

definition double_to_uint64 :: "double \<Rightarrow> 64 word option" where
  "double_to_uint64 d =
     (case d of
        D_fin x \<Rightarrow>
          if 0 \<le> c_truncate x \<and> c_truncate x < 2 ^ 64 then Some (word_of_int (c_truncate x))
          else None
      | _ \<Rightarrow> None)"

text \<open>
  The functions \<^verbatim>\<open>extract_...\<close> return 0 or 1 and store through a pointer when they
  return 1: the result is \<open>Some None\<close> for 0 and \<open>Some (Some x)\<close> for 1 with \<open>x\<close> stored.
\<close>

definition extract_d :: "nat \<Rightarrow> int \<Rightarrow> mxArray list \<Rightarrow> double option option" where
  "extract_d idx nrhs prhs =
     (if nrhs > int idx then do {
        a \<leftarrow> arr_read (Some prhs) idx;
        if mxIsScalar a \<and> mxIsNumeric a then do {
          d \<leftarrow> mxGetScalar a;
          Some (Some d)
        } else Some None
      } else Some None)"

definition extract_si :: "nat \<Rightarrow> int \<Rightarrow> mxArray list \<Rightarrow> 64 word option option" where
  "extract_si idx nrhs prhs = do {
     r \<leftarrow> extract_d idx nrhs prhs;
     case r of
       None \<Rightarrow> Some None
     | Some d \<Rightarrow>
         if mxIsFinite d \<and> is_whole d then do {
           si \<leftarrow> double_to_int64 d;
           Some (Some si)
         } else Some None
   }"

definition extract_ui :: "nat \<Rightarrow> int \<Rightarrow> mxArray list \<Rightarrow> 64 word option option" where
  "extract_ui idx nrhs prhs = do {
     r \<leftarrow> extract_si idx nrhs prhs;
     case r of
       None \<Rightarrow> Some None
     | Some si \<Rightarrow> if 0 \<le> sint si then Some (Some si) else Some None
   }"

text \<open>
  The loop of \<^verbatim>\<open>extract_ui_vector\<close> over the indices below \<open>len\<close>, with the elements
  stored so far; \<open>Some None\<close> when it ends with \<^verbatim>\<open>good = 0\<close>.
\<close>

fun ui_vector_loop :: "double list \<Rightarrow> nat list \<Rightarrow> 64 word list \<Rightarrow> 64 word list option option" where
  "ui_vector_loop vec [] ui = Some (Some ui)"
| "ui_vector_loop vec (i # is) ui = do {
     v \<leftarrow> arr_read (Some vec) i;
     if is_nonneg v \<and> mxIsFinite v \<and> is_whole v then do {
       u \<leftarrow> double_to_uint64 v;
       ui_vector_loop vec is (ui @ [u])
     } else Some None
   }"

definition extract_ui_vector ::
  "'v mex_env \<Rightarrow> nat \<Rightarrow> int \<Rightarrow> mxArray list \<Rightarrow> nat \<Rightarrow> 64 word list option option" where
  "extract_ui_vector E idx nrhs prhs len =
     (if nrhs > int idx then do {
        a \<leftarrow> arr_read (Some prhs) idx;
        if mxIsNumeric a \<and> mxGetM a * mxGetN a \<ge> len then
          (if alloc_ok E \<or> len = 0 then ui_vector_loop (mxGetPr a) [0..<len] [] else None)
        else Some None
      } else Some None)"

definition extract_idx ::
  "'v mex_env \<Rightarrow> nat \<Rightarrow> int \<Rightarrow> mxArray list \<Rightarrow> 'v pool \<Rightarrow> idx_t option option" where
  "extract_idx E idx nrhs prhs s = do {
     r \<leftarrow> extract_ui_vector E idx nrhs prhs 2;
     case r of
       None \<Rightarrow> Some None
     | Some ui \<Rightarrow>
         (let idx_vec = \<lparr>idx_start = ui ! 0, idx_end = ui ! 1\<rparr>
          in if is_valid idx_vec s then Some (Some idx_vec) else Some None)
   }"

definition extract_rounding_mode :: "nat \<Rightarrow> int \<Rightarrow> mxArray list \<Rightarrow> mpfr_rnd_t option option" where
  "extract_rounding_mode idx nrhs prhs = do {
     r \<leftarrow> extract_si idx nrhs prhs;
     case r of
       None \<Rightarrow> Some None
     | Some si \<Rightarrow>
         Some (if si = - 1 then Some MPFR_RNDD
               else if si = 0 then Some MPFR_RNDN
               else if si = 1 then Some MPFR_RNDU
               else if si = 2 then Some MPFR_RNDZ
               else if si = 3 then Some MPFR_RNDA
               else None)
   }"

definition extract_prec ::
  "'v mex_env \<Rightarrow> nat \<Rightarrow> int \<Rightarrow> mxArray list \<Rightarrow> mpfr_prec_t option option" where
  "extract_prec E idx nrhs prhs = do {
     r \<leftarrow> extract_ui idx nrhs prhs;
     case r of
       None \<Rightarrow> Some None
     | Some ui \<Rightarrow>
         if MPFR_PREC_MIN E < ui \<and> ui < MPFR_PREC_MAX E then Some (Some ui) else Some None
   }"

text \<open>
  The state of a call of the MEX function: the pool, \<^verbatim>\<open>plhs[0]\<close> (a column of
  numbers, all of them integers here) once the call has created it, the variable
  \<^verbatim>\<open>throw_error\<close> and what \<^verbatim>\<open>mexPrintf\<close> has printed. A message is its format with its
  arguments.
\<close>

datatype mex_msg =
    Invalid_number_of_arguments "64 word"
  | Invalid_MPFR_variable_indices "64 word" string
  | Rounding_must_be_between_m1_and_3 "64 word" string
  | Precision_must_be_between "64 word" string "64 word" "64 word"
  | Transpose_op_invalid_size
  | Transpose_ropM_must_be_positive
  | Mtimes_M_must_be_positive
  | Mtimes_strategy_must_be_positive
  | Mtimes_M_is_not_rows_of_C
  | Mtimes_incompatible_A "64 word" "64 word"
  | Mtimes_incompatible_B "64 word" "64 word"
  | Mmm_invalid_strategy "64 word"
  | Unknown_command_code "64 word"

record 'v mex_state =
  pool :: "'v pool"
  plhs0 :: "int list option"
  throw_error :: bool
  printed :: "mex_msg list"

definition MEX_FCN_ERR :: "'v mex_env \<Rightarrow> mex_msg \<Rightarrow> 'v mex_state \<Rightarrow> 'v mex_state" where
  "MEX_FCN_ERR E msg st =
     st\<lparr>printed := (if VERBOSE E > 0 then printed st @ [msg] else printed st),
        throw_error := True\<rparr>"

text \<open>
  The macros \<^verbatim>\<open>MEX_MPFR_T\<close>, \<^verbatim>\<open>MEX_MPFR_RND_T\<close> and \<^verbatim>\<open>MEX_MPFR_PREC_T\<close>: read an
  argument; when reading fails, \<^verbatim>\<open>MEX_FCN_ERR\<close> and \<^verbatim>\<open>break\<close>, which leaves the
  \<^verbatim>\<open>switch\<close> and ends the call in the state \<open>err\<close>; otherwise go on with the value.
\<close>

definition MEX_ARG ::
  "'a option option \<Rightarrow> 'v mex_state \<Rightarrow> ('a \<Rightarrow> 'v mex_state option) \<Rightarrow> 'v mex_state option" where
  "MEX_ARG r err k = (case r of None \<Rightarrow> None | Some None \<Rightarrow> Some err | Some (Some x) \<Rightarrow> k x)"

definition MEX_MPFR_T ::
  "'v mex_env \<Rightarrow> 64 word \<Rightarrow> int \<Rightarrow> mxArray list \<Rightarrow> nat \<Rightarrow> string \<Rightarrow> 'v mex_state \<Rightarrow>
   (idx_t \<Rightarrow> 'v mex_state option) \<Rightarrow> 'v mex_state option" where
  "MEX_MPFR_T E cmd_code nrhs prhs mex_rhs name st k =
     MEX_ARG (extract_idx E mex_rhs nrhs prhs (pool st))
       (MEX_FCN_ERR E (Invalid_MPFR_variable_indices cmd_code name) st) k"

definition MEX_MPFR_RND_T ::
  "'v mex_env \<Rightarrow> 64 word \<Rightarrow> int \<Rightarrow> mxArray list \<Rightarrow> nat \<Rightarrow> string \<Rightarrow> 'v mex_state \<Rightarrow>
   (mpfr_rnd_t \<Rightarrow> 'v mex_state option) \<Rightarrow> 'v mex_state option" where
  "MEX_MPFR_RND_T E cmd_code nrhs prhs mex_rhs name st k =
     MEX_ARG (extract_rounding_mode mex_rhs nrhs prhs)
       (MEX_FCN_ERR E (Rounding_must_be_between_m1_and_3 cmd_code name) st) k"

definition MEX_MPFR_PREC_T ::
  "'v mex_env \<Rightarrow> 64 word \<Rightarrow> int \<Rightarrow> mxArray list \<Rightarrow> nat \<Rightarrow> string \<Rightarrow> 'v mex_state \<Rightarrow>
   (mpfr_prec_t \<Rightarrow> 'v mex_state option) \<Rightarrow> 'v mex_state option" where
  "MEX_MPFR_PREC_T E cmd_code nrhs prhs mex_rhs name st k =
     MEX_ARG (extract_prec E mex_rhs nrhs prhs)
       (MEX_FCN_ERR E
          (Precision_must_be_between cmd_code name (MPFR_PREC_MIN E) (MPFR_PREC_MAX E)) st) k"

section \<open>The matrix kernels (mex\_mpfr\_algorithms.c, mex\_mpfr\_algorithms\_mmm.c)\<close>

text \<open>
  A \<^verbatim>\<open>for\<close> loop whose counter takes the given values in turn and whose body neither
  changes the counter nor leaves the loop; \<open>counter_values n\<close> are the values \<open>0, ..., n - 1\<close> of a
  \<^verbatim>\<open>uint64_t\<close> counter.
\<close>

fun for_loop :: "'i list \<Rightarrow> ('i \<Rightarrow> 'a \<Rightarrow> 'a option) \<Rightarrow> 'a \<Rightarrow> 'a option" where
  "for_loop [] body st = Some st"
| "for_loop (i # is) body st = do { st' \<leftarrow> body i st; for_loop is body st' }"

definition counter_values :: "64 word \<Rightarrow> 64 word list" where
  "counter_values n = map of_nat [0..<unat n]"

text \<open>
  The memory of a kernel is the block of \<^verbatim>\<open>mpfr_data\<close> and the block of \<^verbatim>\<open>ret_ptr\<close>; a
  pointer into \<^verbatim>\<open>mpfr_data\<close> is the offset of its element. An offset is a sum of
  \<^verbatim>\<open>uint64_t\<close> terms added to the pointer one after the other.

  \<^verbatim>\<open>mpfr_set (rop_ptr + j * ropM + i, op_ptr + i * ropN + j, rnd)\<close> with its result
  stored in \<^verbatim>\<open>ret_ptr[i * ret_stride]\<close>:
\<close>

definition transpose_elem ::
  "'v mex_env \<Rightarrow> mpfr_rnd_t \<Rightarrow> nat \<Rightarrow> nat \<Rightarrow> 64 word \<Rightarrow> 64 word \<Rightarrow> 64 word \<Rightarrow> 64 word \<Rightarrow> 64 word \<Rightarrow>
   'v list option \<times> int list option \<Rightarrow> ('v list option \<times> int list option) option" where
  "transpose_elem E rnd rop_ptr op_ptr ropM ropN ret_stride i j = (\<lambda>(d, ret_ptr). do {
     op \<leftarrow> arr_read d (op_ptr + unat (i * ropN) + unat j);
     rop \<leftarrow> arr_read d (rop_ptr + unat (j * ropM) + unat i);
     d' \<leftarrow> arr_write d (rop_ptr + unat (j * ropM) + unat i) (fst (mpfr_set E rnd rop op));
     ret_ptr' \<leftarrow> arr_write ret_ptr (unat (i * ret_stride)) (snd (mpfr_set E rnd rop op));
     Some (d', ret_ptr')
   })"

definition transpose_loops ::
  "'v mex_env \<Rightarrow> mpfr_rnd_t \<Rightarrow> nat \<Rightarrow> nat \<Rightarrow> 64 word \<Rightarrow> 64 word \<Rightarrow> 64 word \<Rightarrow>
   'v list option \<times> int list option \<Rightarrow> ('v list option \<times> int list option) option" where
  "transpose_loops E rnd rop_ptr op_ptr ropM ropN ret_stride =
     for_loop (counter_values ropM) (\<lambda>i.
       for_loop (counter_values ropN) (\<lambda>j.
         transpose_elem E rnd rop_ptr op_ptr ropM ropN ret_stride i j))"

text \<open>
  \<^verbatim>\<open>mpfr_fma (C + (M * j) + i, B + k + (K * j), A + i + (M * k), C + (M * j) + i, rnd)\<close>
  on the memory: the new block and the ternary value.
\<close>

definition mmm_fma ::
  "'v mex_env \<Rightarrow> mpfr_rnd_t \<Rightarrow> nat \<Rightarrow> nat \<Rightarrow> nat \<Rightarrow> 64 word \<Rightarrow> 64 word \<Rightarrow> 64 word \<Rightarrow> 64 word \<Rightarrow> 64 word \<Rightarrow>
   'v list option \<Rightarrow> ('v list option \<times> int) option" where
  "mmm_fma E rnd C A B M K i j k d = do {
     op1 \<leftarrow> arr_read d (B + unat k + unat (K * j));
     op2 \<leftarrow> arr_read d (A + unat i + unat (M * k));
     op3 \<leftarrow> arr_read d (C + unat (M * j) + unat i);
     d' \<leftarrow> arr_write d (C + unat (M * j) + unat i) (fst (mpfr_fma E rnd op3 op1 op2 op3));
     Some (d', snd (mpfr_fma E rnd op3 op1 op2 op3))
   }"

text \<open>
  The body of the two outer loops of strategies 1 to 6:
  \<^verbatim>\<open>int ret = 0; for (k ...) ret |= mpfr_fma (...); ret_ptr[((M * j) + i) * ret_stride] = (double) ret;\<close>
\<close>

definition mmm_elem ::
  "'v mex_env \<Rightarrow> mpfr_rnd_t \<Rightarrow> nat \<Rightarrow> nat \<Rightarrow> nat \<Rightarrow> 64 word \<Rightarrow> 64 word \<Rightarrow> 64 word \<Rightarrow> 64 word \<Rightarrow> 64 word \<Rightarrow>
   'v list option \<times> int list option \<Rightarrow> ('v list option \<times> int list option) option" where
  "mmm_elem E rnd C A B M K ret_stride i j = (\<lambda>(d, ret_ptr). do {
     (d', ret) \<leftarrow> for_loop (counter_values K) (\<lambda>k (d, ret). do {
         (d', t) \<leftarrow> mmm_fma E rnd C A B M K i j k d;
         Some (d', ret OR t)
       }) (d, 0);
     ret_ptr' \<leftarrow> arr_write ret_ptr (unat ((M * j + i) * ret_stride)) ret;
     Some (d', ret_ptr')
   })"

text \<open>Reading \<open>n\<close> elements from an offset on, as \<^verbatim>\<open>mpfr_apa_dot\<close> does for a vector.\<close>

definition arr_slice :: "'a list option \<Rightarrow> nat \<Rightarrow> nat \<Rightarrow> 'a list option" where
  "arr_slice a off n =
     (if n = 0 then Some []
      else case a of
        None \<Rightarrow> None
      | Some xs \<Rightarrow> if off + n \<le> length xs then Some (take n (drop off xs)) else None)"

text \<open>
  \<^verbatim>\<open>ret_ptr[r] = (double) mpfr_apa_dot (C + c, a, B + b, K, prec, rnd)\<close>, where the
  vector \<open>a\<close> has been read already.
\<close>

definition mmm_dot ::
  "'v mex_env \<Rightarrow> mpfr_prec_t \<Rightarrow> mpfr_rnd_t \<Rightarrow> 64 word \<Rightarrow> nat \<Rightarrow> 'v list \<Rightarrow> nat \<Rightarrow> nat \<Rightarrow>
   'v list option \<times> int list option \<Rightarrow> ('v list option \<times> int list option) option" where
  "mmm_dot E prec rnd K c a b r = (\<lambda>(d, ret_ptr). do {
     bs \<leftarrow> arr_slice d b (unat K);
     rop \<leftarrow> arr_read d c;
     d' \<leftarrow> arr_write d c (fst (mpfr_apa_dot E rnd prec rop a bs));
     ret_ptr' \<leftarrow> arr_write ret_ptr r (snd (mpfr_apa_dot E rnd prec rop a bs));
     Some (d', ret_ptr')
   })"

text \<open>
  Strategy 7. The memory while the row \<^verbatim>\<open>Ai\<close> exists is the block of \<^verbatim>\<open>Ai\<close> with the
  memory of the kernel.
\<close>

definition mmm_copy_row ::
  "'v mex_env \<Rightarrow> mpfr_rnd_t \<Rightarrow> nat \<Rightarrow> 64 word \<Rightarrow> 64 word \<Rightarrow> 64 word \<Rightarrow>
   'v list option \<Rightarrow> 'v list option \<Rightarrow> 'v list option option" where
  "mmm_copy_row E rnd A M K i d =
     for_loop (counter_values K) (\<lambda>k Ai. do {
       op \<leftarrow> arr_read d (A + unat i + unat (M * k));
       rop \<leftarrow> arr_read Ai (unat k);
       arr_write Ai (unat k) (fst (mpfr_set E rnd rop op))
     })"

definition mmm_strategy7 ::
  "'v mex_env \<Rightarrow> nat \<Rightarrow> nat \<Rightarrow> nat \<Rightarrow> mpfr_prec_t \<Rightarrow> mpfr_rnd_t \<Rightarrow> 64 word \<Rightarrow> 64 word \<Rightarrow> 64 word \<Rightarrow>
   64 word \<Rightarrow> 'v list option \<times> int list option \<Rightarrow> ('v list option \<times> int list option) option" where
  "mmm_strategy7 E C A B prec rnd M N K ret_stride mem =
     (if M = 1 then
        for_loop (counter_values N) (\<lambda>j (d, ret_ptr). do {
          a \<leftarrow> arr_slice d A (unat K);
          mmm_dot E prec rnd K (C + unat j) a (B + unat (K * j)) (unat (j * ret_stride))
            (d, ret_ptr)
        }) mem
      else do {
        Ai \<leftarrow> for_loop (counter_values K) (\<lambda>k Ai. arr_write Ai (unat k) (mpfr_init2 E prec))
          (mxMalloc (alloc_ok E) (uninit_mpfr E) K);
        (Ai', mem') \<leftarrow> for_loop (counter_values M) (\<lambda>i (Ai, (d, ret_ptr)). do {
            Ai' \<leftarrow> mmm_copy_row E rnd A M K i d Ai;
            mem' \<leftarrow> for_loop (counter_values N) (\<lambda>j mem. do {
                a \<leftarrow> arr_slice Ai' 0 (unat K);
                mmm_dot E prec rnd K (C + unat (M * j) + unat i) a (B + unat (K * j))
                  (unat ((M * j + i) * ret_stride)) mem
              }) (d, ret_ptr);
            Some (Ai', mem')
          }) (Ai, mem);
        Some mem'
      })"

text \<open>
  \<^verbatim>\<open>mpfr_apa_mmm\<close>. The loops of strategies 3 to 7 carry \<^verbatim>\<open>#pragma omp parallel for\<close>;
  they are run here by one thread, in the order of the counter, as without OpenMP.
\<close>

definition mpfr_apa_mmm ::
  "'v mex_env \<Rightarrow> nat \<Rightarrow> nat \<Rightarrow> nat \<Rightarrow> mpfr_prec_t \<Rightarrow> mpfr_rnd_t \<Rightarrow> 64 word \<Rightarrow> 64 word \<Rightarrow> 64 word \<Rightarrow>
   64 word \<Rightarrow> 64 word \<Rightarrow> 'v mex_state \<Rightarrow> 'v mex_state option" where
  "mpfr_apa_mmm E C A B prec rnd M N K ret_stride strategy st =
     (let mem = (data (pool st), plhs0 st);
          store = (\<lambda>(d, ret_ptr). st\<lparr>pool := (pool st)\<lparr>data := d\<rparr>, plhs0 := ret_ptr\<rparr>)
      in
      if strategy = 1 \<or> strategy = 3 \<or> strategy = 5 then
        map_option store
          (for_loop (counter_values M) (\<lambda>i.
             for_loop (counter_values N) (\<lambda>j. mmm_elem E rnd C A B M K ret_stride i j)) mem)
      else if strategy = 2 \<or> strategy = 4 \<or> strategy = 6 then
        map_option store
          (for_loop (counter_values N) (\<lambda>j.
             for_loop (counter_values M) (\<lambda>i. mmm_elem E rnd C A B M K ret_stride i j)) mem)
      else if strategy = 7 then
        map_option store (mmm_strategy7 E C A B prec rnd M N K ret_stride mem)
      else if strategy = 8 \<and> mplapack_Rgemm E \<noteq> None then
        (case data (pool st) of
           None \<Rightarrow> None
         | Some xs \<Rightarrow>
             map_option (\<lambda>xs'. st\<lparr>pool := (pool st)\<lparr>data := Some xs'\<rparr>\<rparr>)
               (the (mplapack_Rgemm E) M N K (fst (mpfr_set_ui E rnd (mpfr_init2 E prec) 1))
                  A B C xs))
      else Some (MEX_FCN_ERR E (Mmm_invalid_strategy strategy) st))"

text \<open>
  \<^verbatim>\<open>mex_mpfr_algorithms\<close>, case 2000 (\<^verbatim>\<open>mpfr_t.transpose\<close>). A \<^verbatim>\<open>MEX_FCN_ERR\<close> that no
  \<^verbatim>\<open>break\<close> follows only changes the state, and the call goes on.
\<close>

definition transpose_cmd ::
  "'v mex_env \<Rightarrow> int \<Rightarrow> int \<Rightarrow> mxArray list \<Rightarrow> 'v mex_state \<Rightarrow> 'v mex_state option" where
  "transpose_cmd E nlhs nrhs prhs st =
     (if nrhs \<noteq> 5 then Some (MEX_FCN_ERR E (Invalid_number_of_arguments 2000) st)
      else
        MEX_MPFR_T E 2000 nrhs prhs 1 ''rop'' st (\<lambda>rop.
        MEX_MPFR_T E 2000 nrhs prhs 2 ''op'' st (\<lambda>op.
        let st1 = (if length_idx rop \<noteq> length_idx op
                   then MEX_FCN_ERR E Transpose_op_invalid_size st else st)
        in
        MEX_MPFR_RND_T E 2000 nrhs prhs 3 ''rnd'' st1 (\<lambda>rnd. do {
          r \<leftarrow> extract_ui 4 nrhs prhs;
          let ropM = (case r of None \<Rightarrow> 0 | Some ui \<Rightarrow> ui);
          let st2 = (if r = None \<or> ropM = 0
                     then MEX_FCN_ERR E Transpose_ropM_must_be_positive st1 else st1);
          if ropM = 0 then None
          else do {
            let ropN = length_idx rop div ropM;
            let ret_ptr = Some (replicate (unat (if nlhs \<noteq> 0 then length_idx rop else 1)) 0);
            let ret_stride = (if nlhs \<noteq> 0 then 1 else 0);
            (d, ret_ptr') \<leftarrow> transpose_loops E rnd (unat (idx_start rop - 1))
              (unat (idx_start op - 1)) ropM ropN ret_stride (data (pool st2), ret_ptr);
            Some (st2\<lparr>pool := (pool st2)\<lparr>data := d\<rparr>, plhs0 := ret_ptr'\<rparr>)
          }
        }))))"

text \<open>Case 2001 (\<^verbatim>\<open>mpfr_t.mtimes\<close>).\<close>

definition mtimes_cmd ::
  "'v mex_env \<Rightarrow> int \<Rightarrow> int \<Rightarrow> mxArray list \<Rightarrow> 'v mex_state \<Rightarrow> 'v mex_state option" where
  "mtimes_cmd E nlhs nrhs prhs st =
     (if nrhs \<noteq> 8 then Some (MEX_FCN_ERR E (Invalid_number_of_arguments 2001) st)
      else
        MEX_MPFR_T E 2001 nrhs prhs 1 ''C'' st (\<lambda>C.
        MEX_MPFR_T E 2001 nrhs prhs 2 ''A'' st (\<lambda>A.
        MEX_MPFR_T E 2001 nrhs prhs 3 ''B'' st (\<lambda>B.
        MEX_MPFR_PREC_T E 2001 nrhs prhs 4 ''prec'' st (\<lambda>prec.
        MEX_MPFR_RND_T E 2001 nrhs prhs 5 ''rnd'' st (\<lambda>rnd. do {
          r \<leftarrow> extract_ui 6 nrhs prhs;
          let M = (case r of None \<Rightarrow> 0 | Some ui \<Rightarrow> ui);
          let st1 = (if r = None \<or> M = 0 then MEX_FCN_ERR E Mtimes_M_must_be_positive st else st);
          r' \<leftarrow> extract_ui 7 nrhs prhs;
          let strategy = (case r' of None \<Rightarrow> 0 | Some ui \<Rightarrow> ui);
          let st2 = (if r' = None then MEX_FCN_ERR E Mtimes_strategy_must_be_positive st1 else st1);
          if M = 0 then None
          else do {
            let N = length_idx C div M;
            let st3 = (if length_idx C \<noteq> M * N
                       then MEX_FCN_ERR E Mtimes_M_is_not_rows_of_C st2 else st2);
            let K = length_idx A div M;
            let st4 = (if length_idx A \<noteq> M * K
                       then MEX_FCN_ERR E (Mtimes_incompatible_A M K) st3 else st3);
            let st5 = (if length_idx B \<noteq> K * N
                       then MEX_FCN_ERR E (Mtimes_incompatible_B K N) st4 else st4);
            let ret_ptr = Some (replicate (unat (if nlhs \<noteq> 0 then length_idx C else 1)) 0);
            let ret_stride = (if nlhs \<noteq> 0 then 1 else 0);
            mpfr_apa_mmm E (unat (idx_start C - 1)) (unat (idx_start A - 1))
              (unat (idx_start B - 1)) prec rnd M N K ret_stride strategy
              (st5\<lparr>plhs0 := ret_ptr\<rparr>)
          }
        }))))))"

definition mex_mpfr_algorithms ::
  "'v mex_env \<Rightarrow> int \<Rightarrow> int \<Rightarrow> mxArray list \<Rightarrow> 64 word \<Rightarrow> 'v mex_state \<Rightarrow> 'v mex_state option" where
  "mex_mpfr_algorithms E nlhs nrhs prhs cmd_code st =
     (if cmd_code = 2000 then transpose_cmd E nlhs nrhs prhs st
      else if cmd_code = 2001 then mtimes_cmd E nlhs nrhs prhs st
      else Some (MEX_FCN_ERR E (Unknown_command_code cmd_code) st))"

section \<open>Concrete inputs\<close>

text \<open>
  An instance of the environment, for evaluating the functions on concrete inputs. The
  values are \<open>None\<close> (not a number) and the integers; the numbers are small enough
  for the precision of every destination, so that \<^verbatim>\<open>mpfr_set\<close> and \<^verbatim>\<open>mpfr_fma\<close>
  return the exact result and the ternary value 0. Every request for memory is served.
\<close>

definition int_env :: "int option mex_env" where
  "int_env =
     \<lparr>alloc_ok = True,
      uninit_idx = \<lparr>idx_start = 0, idx_end = 0\<rparr>,
      uninit_mpfr = None,
      mpfr_init = None,
      mpfr_init2 = (\<lambda>prec. None),
      mpfr_set = (\<lambda>rnd rop op. (op, 0)),
      mpfr_set_ui = (\<lambda>rnd rop n. (Some (uint n), 0)),
      mpfr_fma = (\<lambda>rnd rop op1 op2 op3.
        (case (op1, op2, op3) of
           (Some x, Some y, Some z) \<Rightarrow> Some (x * y + z)
         | _ \<Rightarrow> None, 0)),
      mpfr_apa_dot = (\<lambda>rnd prec rop a b.
        (fold (\<lambda>(x, y) acc.
           case (x, y, acc) of (Some x', Some y', Some z) \<Rightarrow> Some (x' * y' + z) | _ \<Rightarrow> None)
           (zip a b) (Some 0), 0)),
      mplapack_Rgemm = None,
      MPFR_PREC_MIN = 1,
      MPFR_PREC_MAX = 9223372036854775551,
      VERBOSE = 2\<rparr>"

text \<open>A pool with room for 1000 variables, none of them in use, and no free list yet.\<close>

definition pool_1000 :: "int option pool" where
  "pool_1000 =
     \<lparr>data = Some (replicate 1000 None), data_capacity = 1000, data_size = 0,
      free_list = None, free_list_capacity = 0, free_list_size = 0\<rparr>"

text \<open>
  A pool of 2000 variables whose free list is full: it holds the 1000 ranges
  \<open>[1:1], [3:3], ..., [1999:1999]\<close>, as after allocating 2000 variables and marking
  every other one free.
\<close>

definition full_free_list :: "idx_t list" where
  "full_free_list =
     map (\<lambda>k. \<lparr>idx_start = of_nat (2 * k + 1), idx_end = of_nat (2 * k + 1)\<rparr>) [0..<1000]"

definition pool_full_free_list :: "int option pool" where
  "pool_full_free_list =
     \<lparr>data = Some (replicate 2000 None), data_capacity = 2000, data_size = 2000,
      free_list = Some full_free_list, free_list_capacity = 1000, free_list_size = 1000\<rparr>"

text \<open>
  A pool whose variables are all in use and hold \<open>xs\<close>, with an empty free list, and
  the state of a call on it; a numeric scalar and a numeric column of two numbers, as
  the arguments of a call are passed.
\<close>

definition pool_of :: "'v list \<Rightarrow> 'v pool" where
  "pool_of xs =
     \<lparr>data = Some xs, data_capacity = of_nat (length xs), data_size = of_nat (length xs),
      free_list = None, free_list_capacity = 0, free_list_size = 0\<rparr>"

definition state_of :: "'v list \<Rightarrow> int list option \<Rightarrow> 'v mex_state" where
  "state_of xs ret = \<lparr>pool = pool_of xs, plhs0 = ret, throw_error = False, printed = []\<rparr>"

definition mx_scalar :: "real \<Rightarrow> mxArray" where
  "mx_scalar x = \<lparr>mxIsNumeric = True, mxGetM = 1, mxGetN = 1, mxGetPr = [D_fin x]\<rparr>"

definition mx_range :: "real \<Rightarrow> real \<Rightarrow> mxArray" where
  "mx_range a b = \<lparr>mxIsNumeric = True, mxGetM = 2, mxGetN = 1, mxGetPr = [D_fin a, D_fin b]\<rparr>"

text \<open>
  A pool of 18 variables and the arguments of two calls of \<^verbatim>\<open>mpfr_t.transpose\<close>: the
  first transposes the 2 x 3 matrix in \<open>[1:6]\<close> into \<open>[7:12]\<close> (3 rows), the second
  transposes \<open>[7:12]\<close> into \<open>[13:18]\<close> (2 rows).
\<close>

definition transpose_data :: "int option list" where
  "transpose_data = map Some [1, 2, 3, 4, 5, 6, 0, 0, 0, 0, 0, 0, 0, 0, 0, 0, 0, 0]"

definition transpose_args1 :: "mxArray list" where
  "transpose_args1 = [mx_scalar 2000, mx_range 7 12, mx_range 1 6, mx_scalar 0, mx_scalar 3]"

definition transpose_args2 :: "mxArray list" where
  "transpose_args2 = [mx_scalar 2000, mx_range 13 18, mx_range 7 12, mx_scalar 0, mx_scalar 2]"

text \<open>
  Three ranges of a pool for a product of 2 x 2 matrices: \<open>C = [1:4]\<close> holding
  \<open>10, 0, 0, 0\<close>, \<open>A = [5:8]\<close> and \<open>B = [9:12]\<close>; as offsets, 0, 4 and 8.
\<close>

definition mmm_data :: "int option list" where
  "mmm_data = map Some [10, 0, 0, 0, 1, 2, 3, 4, 5, 6, 7, 8]"

text \<open>
  A pool of nine variables, for a product whose ranges \<open>C = [1:4]\<close> and \<open>A = [2:5]\<close>
  overlap (\<open>B = [6:9]\<close>); as offsets, 0, 1 and 5.
\<close>

definition overlap_data :: "int option list" where
  "overlap_data = map Some [1, 2, 3, 4, 5, 6, 7, 8, 9]"

text \<open>
  The arguments of \<^verbatim>\<open>mpfr_t.mtimes\<close> for \<open>C = [1:4]\<close>, \<open>A = [5:7]\<close>, \<open>B = [8:9]\<close>,
  precision 53, rounding to nearest, \<open>M = 2\<close> and strategy 1, on a pool of nine
  variables: \<open>A\<close> has three elements, which are not two rows.
\<close>

definition mtimes_bad_data :: "int option list" where
  "mtimes_bad_data = map Some [0, 0, 0, 0, 1, 2, 3, 4, 5]"

definition mtimes_bad_args :: "mxArray list" where
  "mtimes_bad_args =
     [mx_scalar 2001, mx_range 1 4, mx_range 5 7, mx_range 8 9, mx_scalar 53, mx_scalar 0,
      mx_scalar 2, mx_scalar 1]"

text \<open>A pool whose 1000 variables are all in use: the next allocation has to grow it.\<close>

definition pool_all_used :: "int option pool" where
  "pool_all_used = pool_of (replicate 1000 (Some 7))"

text \<open>
  A pool of 21 variables, as after allocating 5, 4, 11 and 1 variables and marking
  the first and the third range free: the free list holds \<open>[1:5]\<close> and \<open>[10:20]\<close>.
\<close>

definition pool_two_free :: "int option pool" where
  "pool_two_free =
     \<lparr>data = Some (replicate 1000 None), data_capacity = 1000, data_size = 21,
      free_list = Some (\<lparr>idx_start = 1, idx_end = 5\<rparr> # \<lparr>idx_start = 10, idx_end = 20\<rparr> #
        replicate 998 \<lparr>idx_start = 0, idx_end = 0\<rparr>),
      free_list_capacity = 1000, free_list_size = 2\<rparr>"

section \<open>Definitions for stating the results\<close>

text \<open>
  \<open>shift_down i n xs\<close> is the array \<open>xs\<close> after the loop of \<^verbatim>\<open>free_list_remove\<close>:
  the entries \<open>i, ..., n - 1\<close> hold what the entries \<open>i + 1, ..., n\<close> held.
\<close>

definition shift_down :: "nat \<Rightarrow> nat \<Rightarrow> 'a list \<Rightarrow> 'a list" where
  "shift_down i n xs = map (\<lambda>k. if i \<le> k \<and> k < n then xs ! (k + 1) else xs ! k) [0..<length xs]"

text \<open>
  One fused multiply-add of the accumulation: the accumulator \<open>acc\<close> becomes
  \<open>b * a + acc\<close>, rounded once into the accumulator, and the ternary value is or-ed to
  \<open>ret\<close>. \<open>fma_acc E rnd d C A B m kk i j\<close> is the result of the \<open>kk\<close> steps for the
  element \<open>(i, j)\<close>, over the values of the block \<open>d\<close>: started from the value of
  \<open>C[i,j]\<close> in \<open>d\<close>, with \<open>B[k,j]\<close> and \<open>A[i,k]\<close> for \<open>k = 0, ..., kk - 1\<close> in turn (the
  matrices are stored by columns from the offsets \<open>C\<close>, \<open>A\<close>, \<open>B\<close>; \<open>A\<close> and \<open>C\<close> have
  \<open>m\<close> rows, \<open>B\<close> has \<open>kk\<close>). \<open>product_entry\<close> is the same accumulation started from a
  value \<open>zero\<close>: the entry \<open>(i, j)\<close> of the product of \<open>A\<close> and \<open>B\<close>.
\<close>

definition fma_step :: "'v mex_env \<Rightarrow> mpfr_rnd_t \<Rightarrow> 'v \<Rightarrow> 'v \<Rightarrow> 'v \<times> int \<Rightarrow> 'v \<times> int" where
  "fma_step E rnd b a = (\<lambda>(acc, ret).
     (fst (mpfr_fma E rnd acc b a acc), ret OR snd (mpfr_fma E rnd acc b a acc)))"

definition fma_acc ::
  "'v mex_env \<Rightarrow> mpfr_rnd_t \<Rightarrow> 'v list \<Rightarrow> nat \<Rightarrow> nat \<Rightarrow> nat \<Rightarrow> nat \<Rightarrow> nat \<Rightarrow> nat \<Rightarrow> nat \<Rightarrow> 'v \<times> int" where
  "fma_acc E rnd d C A B m kk i j =
     fold (\<lambda>k. fma_step E rnd (d ! (B + k + kk * j)) (d ! (A + i + m * k))) [0..<kk]
       (d ! (C + m * j + i), 0)"

definition product_entry ::
  "'v mex_env \<Rightarrow> mpfr_rnd_t \<Rightarrow> 'v \<Rightarrow> 'v list \<Rightarrow> nat \<Rightarrow> nat \<Rightarrow> nat \<Rightarrow> nat \<Rightarrow> nat \<Rightarrow> nat \<Rightarrow> 'v" where
  "product_entry E rnd zero d A B m kk i j =
     fst (fold (\<lambda>k. fma_step E rnd (d ! (B + k + kk * j)) (d ! (A + i + m * k))) [0..<kk] (zero, 0))"

text \<open>
  The layout of a conforming call of the product on a block \<open>d\<close>: the three matrices,
  of \<open>m * n\<close>, \<open>m * kk\<close> and \<open>kk * n\<close> elements (numbers a \<^verbatim>\<open>uint64_t\<close> holds), lie inside
  the block, and the elements of \<open>C\<close> are none of \<open>A\<close> and none of \<open>B\<close>.
\<close>

definition mmm_layout :: "'v list \<Rightarrow> nat \<Rightarrow> nat \<Rightarrow> nat \<Rightarrow> nat \<Rightarrow> nat \<Rightarrow> nat \<Rightarrow> bool" where
  "mmm_layout d C A B m n kk \<longleftrightarrow>
     m * n < 2 ^ 64 \<and> m * kk < 2 ^ 64 \<and> kk * n < 2 ^ 64 \<and>
     C + m * n \<le> length d \<and> A + m * kk \<le> length d \<and> B + kk * n \<le> length d \<and>
     (C + m * n \<le> A \<or> A + m * kk \<le> C) \<and> (C + m * n \<le> B \<or> B + kk * n \<le> C)"

text \<open>
  The pairs \<open>(i, j)\<close> in the order in which the loops \<open>i, j\<close> and the loops \<open>j, i\<close> visit
  them, and the two blocks after the loops have visited the pairs \<open>ps\<close>.
\<close>

definition ijk_order :: "nat \<Rightarrow> nat \<Rightarrow> (nat \<times> nat) list" where
  "ijk_order m n = List.product [0..<m] [0..<n]"

definition jik_order :: "nat \<Rightarrow> nat \<Rightarrow> (nat \<times> nat) list" where
  "jik_order m n = map prod.swap (List.product [0..<n] [0..<m])"

definition mmm_data_after ::
  "'v mex_env \<Rightarrow> mpfr_rnd_t \<Rightarrow> 'v list \<Rightarrow> nat \<Rightarrow> nat \<Rightarrow> nat \<Rightarrow> nat \<Rightarrow> nat \<Rightarrow> (nat \<times> nat) list \<Rightarrow> 'v list" where
  "mmm_data_after E rnd d C A B m kk ps =
     fold (\<lambda>p d'. d'[C + m * snd p + fst p := fst (fma_acc E rnd d C A B m kk (fst p) (snd p))]) ps d"

definition mmm_ret_after ::
  "'v mex_env \<Rightarrow> mpfr_rnd_t \<Rightarrow> 'v list \<Rightarrow> nat \<Rightarrow> nat \<Rightarrow> nat \<Rightarrow> nat \<Rightarrow> nat \<Rightarrow> nat \<Rightarrow> int list \<Rightarrow>
   (nat \<times> nat) list \<Rightarrow> int list" where
  "mmm_ret_after E rnd d C A B m kk stride ret ps =
     fold (\<lambda>p r. r[stride * (m * snd p + fst p) := snd (fma_acc E rnd d C A B m kk (fst p) (snd p))])
       ps ret"

text \<open>
  The block after the loops of the transposition have visited the pairs \<open>ps\<close>: the
  element \<open>(i, j)\<close> of the output of \<open>m\<close> rows is set from the element \<open>(j, i)\<close> of the
  input of \<open>n\<close> rows. The layout of a conforming call: both ranges, of \<open>m * n\<close> elements,
  lie inside the block and share no element.
\<close>

definition transposed ::
  "'v mex_env \<Rightarrow> mpfr_rnd_t \<Rightarrow> 'v list \<Rightarrow> nat \<Rightarrow> nat \<Rightarrow> nat \<Rightarrow> nat \<Rightarrow> (nat \<times> nat) list \<Rightarrow> 'v list" where
  "transposed E rnd d rop op m n ps =
     fold (\<lambda>p d'. d'[rop + m * snd p + fst p :=
       fst (mpfr_set E rnd (d ! (rop + m * snd p + fst p)) (d ! (op + n * fst p + snd p)))]) ps d"

definition transpose_layout :: "'v list \<Rightarrow> nat \<Rightarrow> nat \<Rightarrow> nat \<Rightarrow> nat \<Rightarrow> bool" where
  "transpose_layout d rop op m n \<longleftrightarrow>
     m * n < 2 ^ 64 \<and> rop + m * n \<le> length d \<and> op + m * n \<le> length d \<and>
     (rop + m * n \<le> op \<or> op + m * n \<le> rop)"

text \<open>
  The free list, as a list: \<open>entries s\<close> are the first \<^verbatim>\<open>free_list_size\<close> elements of
  the block \<^verbatim>\<open>free_list\<close> points to (none when it is \<^verbatim>\<open>NULL\<close>); \<open>free_list_block s\<close>
  says that the block holds that many elements. Two ranges are disjoint when one ends
  before the other starts.
\<close>

definition entries :: "'v pool \<Rightarrow> idx_t list" where
  "entries s =
     (case free_list s of None \<Rightarrow> [] | Some fl \<Rightarrow> take (unat (free_list_size s)) fl)"

definition free_list_block :: "'v pool \<Rightarrow> bool" where
  "free_list_block s \<longleftrightarrow>
     (case free_list s of
        None \<Rightarrow> free_list_size s = 0
      | Some fl \<Rightarrow> unat (free_list_size s) \<le> length fl)"

definition disjoint_idx :: "idx_t \<Rightarrow> idx_t \<Rightarrow> bool" where
  "disjoint_idx a b \<longleftrightarrow> idx_end a < idx_start b \<or> idx_end b < idx_start a"

text \<open>
  The invariant of the free list: its entries lie in the block, each of them is a
  sub-range of \<open>[1, data_size]\<close> (\<^verbatim>\<open>is_valid\<close>), and no two of them overlap
  (\<open>sorted_wrt\<close> relates every entry to every later one). The list is compacted when
  no entry ends right before the start of an entry and none ends at \<^verbatim>\<open>data_size\<close>.
\<close>

definition free_list_inv :: "'v pool \<Rightarrow> bool" where
  "free_list_inv s \<longleftrightarrow>
     free_list_block s \<and> list_all (\<lambda>e. is_valid e s) (entries s) \<and>
     sorted_wrt disjoint_idx (entries s)"

definition compacted :: "'v pool \<Rightarrow> bool" where
  "compacted s \<longleftrightarrow>
     list_all (\<lambda>a. list_all (\<lambda>b. idx_end a + 1 \<noteq> idx_start b) (entries s)) (entries s) \<and>
     list_all (\<lambda>e. idx_end e \<noteq> data_size s) (entries s)"

text \<open>
  A list without its element \<open>k\<close>, and the range that rule 2 of
  \<^verbatim>\<open>free_list_compress\<close> stores for two adjacent ranges.
\<close>

definition remove_nth :: "nat \<Rightarrow> 'a list \<Rightarrow> 'a list" where
  "remove_nth k xs = take k xs @ drop (Suc k) xs"

definition merged :: "idx_t \<Rightarrow> idx_t \<Rightarrow> idx_t" where
  "merged a b =
     \<lparr>idx_start = (if idx_start a \<le> idx_start b then idx_start a else idx_start b),
      idx_end = (if idx_end a \<ge> idx_end b then idx_end a else idx_end b)\<rparr>"

text \<open>
  The number of elements of the block that \<^verbatim>\<open>free_list\<close> and \<^verbatim>\<open>data\<close> point to
  (0 for \<^verbatim>\<open>NULL\<close>). \<open>frame s s'\<close>: the blocks have as many elements, and the
  capacities are the same, in \<open>s'\<close> as in \<open>s\<close>.
\<close>

definition fl_len :: "'v pool \<Rightarrow> nat" where
  "fl_len s = (case free_list s of None \<Rightarrow> 0 | Some fl \<Rightarrow> length fl)"

definition data_len :: "'v pool \<Rightarrow> nat" where
  "data_len s = (case data s of None \<Rightarrow> 0 | Some d \<Rightarrow> length d)"

definition frame :: "'v pool \<Rightarrow> 'v pool \<Rightarrow> bool" where
  "frame s s' \<longleftrightarrow>
     data_len s' = data_len s \<and> data_capacity s' = data_capacity s \<and>
     free_list_capacity s' = free_list_capacity s \<and> fl_len s' = fl_len s"

text \<open>
  Two ranges are adjacent when one ends right before the other starts: the test of
  rule 2 of \<^verbatim>\<open>free_list_compress\<close>.
\<close>

definition adjacent_idx :: "idx_t \<Rightarrow> idx_t \<Rightarrow> bool" where
  "adjacent_idx a b \<longleftrightarrow> idx_end a + 1 = idx_start b \<or> idx_end b + 1 = idx_start a"

text \<open>
  The index of the first entry of the free list with at least \<open>count\<close> variables (the
  length of the list when there is none); \<open>exact_fit\<close>: that entry has exactly \<open>count\<close>
  variables, so that the allocation removes it from the list; \<open>later_fit\<close>: an entry after
  it has at least \<open>count\<close> variables too.
\<close>

definition first_fit :: "size_t \<Rightarrow> idx_t list \<Rightarrow> nat" where
  "first_fit count xs = length (takeWhile (\<lambda>e. \<not> count \<le> length_idx e) xs)"

definition exact_fit :: "size_t \<Rightarrow> idx_t list \<Rightarrow> bool" where
  "exact_fit count xs \<longleftrightarrow>
     first_fit count xs < length xs \<and> length_idx (xs ! first_fit count xs) = count"

definition later_fit :: "size_t \<Rightarrow> idx_t list \<Rightarrow> bool" where
  "later_fit count xs \<longleftrightarrow>
     list_ex (\<lambda>e. count \<le> length_idx e) (drop (Suc (first_fit count xs)) xs)"

text \<open>
  The invariant of the pool: the block of the variables holds \<^verbatim>\<open>data_capacity\<close>
  elements at least and \<^verbatim>\<open>data_size\<close> is at most \<^verbatim>\<open>data_capacity\<close>; the same for the
  free list; the invariant of the free list holds and the free list is compacted.
\<close>

definition pool_inv :: "'v pool \<Rightarrow> bool" where
  "pool_inv s \<longleftrightarrow>
     unat (data_capacity s) \<le> data_len s \<and> data_size s \<le> data_capacity s \<and>
     unat (free_list_capacity s) \<le> fl_len s \<and> free_list_size s \<le> free_list_capacity s \<and>
     free_list_inv s \<and> compacted s"

text \<open>
  The layout of a conforming call of the product on a block \<open>d\<close> whose output may be
  one of its inputs: the three matrices lie inside the block, and the range of \<open>C\<close>
  either shares no element with the range of \<open>A\<close> or is the range of \<open>A\<close> itself
  (it starts where \<open>A\<close> starts and has as many elements); likewise for \<open>B\<close>. What the
  layout excludes is a range of \<open>C\<close> that overlaps an input in part.
\<close>

definition mmm_alias_layout :: "'v list \<Rightarrow> nat \<Rightarrow> nat \<Rightarrow> nat \<Rightarrow> nat \<Rightarrow> nat \<Rightarrow> nat \<Rightarrow> bool" where
  "mmm_alias_layout d C A B m n kk \<longleftrightarrow>
     m * n < 2 ^ 64 \<and> m * kk < 2 ^ 64 \<and> kk * n < 2 ^ 64 \<and>
     C + m * n \<le> length d \<and> A + m * kk \<le> length d \<and> B + kk * n \<le> length d \<and>
     (C + m * n \<le> A \<or> A + m * kk \<le> C \<or> A = C \<and> m * kk = m * n) \<and>
     (C + m * n \<le> B \<or> B + kk * n \<le> C \<or> B = C \<and> kk * n = m * n)"

text \<open>
  The loops as functions on the elements of the block, whatever the offsets are:
  \<open>fma_cell\<close> is one \<^verbatim>\<open>mpfr_fma\<close> of the loop over \<open>k\<close>, which reads its three operands
  in the block as it is then, stores into the element \<open>c\<close> and ors the ternary value
  to \<open>ret\<close>; \<open>mmm_cell\<close> is the loop over \<open>k\<close> for the element \<open>p = (i, j)\<close>, started
  with \<open>ret = 0\<close>; \<open>mmm_store\<close> is the body of the two outer loops, which also stores
  \<open>ret\<close> in the block of return values.
\<close>

definition fma_cell ::
  "'v mex_env \<Rightarrow> mpfr_rnd_t \<Rightarrow> nat \<Rightarrow> nat \<Rightarrow> nat \<Rightarrow> 'v list \<times> int \<Rightarrow> 'v list \<times> int" where
  "fma_cell E rnd c b a = (\<lambda>(d, ret).
     (d[c := fst (mpfr_fma E rnd (d ! c) (d ! b) (d ! a) (d ! c))],
      ret OR snd (mpfr_fma E rnd (d ! c) (d ! b) (d ! a) (d ! c))))"

definition mmm_cell ::
  "'v mex_env \<Rightarrow> mpfr_rnd_t \<Rightarrow> nat \<Rightarrow> nat \<Rightarrow> nat \<Rightarrow> nat \<Rightarrow> nat \<Rightarrow> nat \<times> nat \<Rightarrow> 'v list \<Rightarrow>
   'v list \<times> int" where
  "mmm_cell E rnd C A B m kk p d =
     fold (\<lambda>k. fma_cell E rnd (C + m * snd p + fst p) (B + k + kk * snd p) (A + fst p + m * k))
       [0..<kk] (d, 0)"

definition mmm_store ::
  "'v mex_env \<Rightarrow> mpfr_rnd_t \<Rightarrow> nat \<Rightarrow> nat \<Rightarrow> nat \<Rightarrow> nat \<Rightarrow> nat \<Rightarrow> nat \<Rightarrow> nat \<times> nat \<Rightarrow>
   'v list \<times> int list \<Rightarrow> 'v list \<times> int list" where
  "mmm_store E rnd C A B m kk stride p = (\<lambda>(d, ret).
     (fst (mmm_cell E rnd C A B m kk p d),
      ret[stride * (m * snd p + fst p) := snd (mmm_cell E rnd C A B m kk p d)]))"

text \<open>
  The same body, with the ternary value of each element kept under the element
  instead of its place in the block of return values.
\<close>

definition mmm_visit ::
  "'v mex_env \<Rightarrow> mpfr_rnd_t \<Rightarrow> nat \<Rightarrow> nat \<Rightarrow> nat \<Rightarrow> nat \<Rightarrow> nat \<Rightarrow> nat \<times> nat \<Rightarrow>
   'v list \<times> (nat \<times> nat \<Rightarrow> int) \<Rightarrow> 'v list \<times> (nat \<times> nat \<Rightarrow> int)" where
  "mmm_visit E rnd C A B m kk p = (\<lambda>(d, t).
     (fst (mmm_cell E rnd C A B m kk p d), t(p := snd (mmm_cell E rnd C A B m kk p d))))"

text \<open>
  The order in which the loops \<open>i, j\<close> and the loops \<open>j, i\<close> visit two elements.
\<close>

definition ij_before :: "nat \<times> nat \<Rightarrow> nat \<times> nat \<Rightarrow> bool" where
  "ij_before p q \<longleftrightarrow> fst p < fst q \<or> fst p = fst q \<and> snd p < snd q"

definition ji_before :: "nat \<times> nat \<Rightarrow> nat \<times> nat \<Rightarrow> bool" where
  "ji_before p q \<longleftrightarrow> snd p < snd q \<or> snd p = snd q \<and> fst p < fst q"

section \<open>Results of the loops\<close>

lemma arr_read_Some [simp]:
  "arr_read (Some xs) i = (if i < length xs then Some (xs ! i) else None)"
  by (simp add: arr_read_def)

lemma arr_write_Some [simp]:
  "arr_write (Some xs) i v = (if i < length xs then Some (Some (xs[i := v])) else None)"
  by (simp add: arr_write_def)

lemma arr_read_None [simp]: "arr_read None i = None"
  by (simp add: arr_read_def)

lemma arr_write_None [simp]: "arr_write None i v = None"
  by (simp add: arr_write_def)

lemma free_list_remove_loop_Some:
  "i \<le> n \<Longrightarrow> n < length fl \<Longrightarrow>
   free_list_remove_loop i n (Some fl) = Some (Some (shift_down i n fl))"
proof (induction "n - i" arbitrary: i fl)
  case 0
  then have "i = n" by simp
  have "shift_down n n fl = fl"
    by (rule nth_equalityI) (auto simp: shift_down_def)
  with \<open>i = n\<close> show ?case
    by (simp add: free_list_remove_loop.simps [of n n])
next
  case (Suc d)
  then have lt: "i < n" and d: "d = n - (i + 1)" by auto
  let ?fl = "fl[i := fl ! (i + 1)]"
  have "free_list_remove_loop (i + 1) n (Some ?fl) = Some (Some (shift_down (i + 1) n ?fl))"
    using Suc.hyps(1) [OF d, of ?fl] lt Suc.prems by simp
  moreover have "shift_down (i + 1) n ?fl = shift_down i n fl"
    using lt Suc.prems by (intro nth_equalityI) (auto simp: shift_down_def nth_list_update)
  ultimately show ?case
    using lt Suc.prems by (simp add: free_list_remove_loop.simps [of i n])
qed

lemma free_list_remove_loop_full:
  "i < n \<Longrightarrow> n = length fl \<Longrightarrow> free_list_remove_loop i n (Some fl) = None"
proof (induction "n - i" arbitrary: i fl)
  case 0
  then show ?case by simp
next
  case (Suc d)
  show ?case
  proof (cases "i + 1 < n")
    case False
    with Suc.prems show ?thesis by (subst free_list_remove_loop.simps) simp
  next
    case True
    with Suc have "free_list_remove_loop (i + 1) n (Some (fl[i := fl ! (i + 1)])) = None"
      by (intro Suc.hyps(1)) auto
    with True Suc.prems show ?thesis by (subst free_list_remove_loop.simps) simp
  qed
qed

lemma take_shift_down:
  "i < n \<Longrightarrow> n \<le> length xs \<Longrightarrow> take (n - 1) (shift_down i n xs) = take i xs @ drop (i + 1) (take n xs)"
  by (rule nth_equalityI) (auto simp: shift_down_def nth_append)

lemma shift_down_last:
  assumes "i < n" "n < length xs"
  shows "shift_down i n xs ! (n - 1) = xs ! n"
proof -
  from assms have "n - 1 < length xs" "i \<le> n - 1" "n - 1 < n" "n - 1 + 1 = n" by auto
  then show ?thesis unfolding shift_down_def by simp
qed

lemma reuse_loop_Returns:
  "reuse_loop i count s = Some (Returns (b, r, s')) \<Longrightarrow>
     (b \<longleftrightarrow> is_valid r s') \<and> idx_end r = idx_start r + count - 1"
proof (induction i count s rule: reuse_loop.induct)
  case (1 i count s)
  show ?case
  proof (cases "i < unat (free_list_size s)")
    case False
    with "1.prems" show ?thesis by (simp add: reuse_loop.simps [of i count s])
  next
    case True
    with "1.prems" "1.IH" show ?thesis
      by (auto simp: reuse_loop.simps [of i count s] Let_def
          split: Option.bind_splits if_splits)
  qed
qed

lemma allocate_new_range:
  "allocate_new count s = (b, r, s') \<Longrightarrow>
     (b \<longleftrightarrow> is_valid r s') \<and> idx_end r = idx_start r + count - 1"
  by (auto simp: allocate_new_def Let_def)

lemma mex_mpfr_allocate_range:
  assumes "mex_mpfr_allocate E count idx s = Some (True, r, s')"
  shows "is_valid r s' \<and> idx_end r = idx_start r + count - 1 \<and> count \<noteq> 0"
proof -
  from assms have nz: "count \<noteq> 0"
    by (auto simp: mex_mpfr_allocate_def)
  with assms obtain x where x: "reuse_loop 0 count s = Some x"
    by (auto simp: mex_mpfr_allocate_def split: Option.bind_splits)
  show ?thesis
  proof (cases x)
    case (Returns y)
    with x assms nz have "reuse_loop 0 count s = Some (Returns (True, r, s'))"
      by (simp add: mex_mpfr_allocate_def)
    from reuse_loop_Returns [OF this] nz show ?thesis by simp
  next
    case Loop_done
    with x assms nz obtain s1 where "allocate_new count s1 = (True, r, s')"
      by (auto simp: mex_mpfr_allocate_def split: Option.bind_splits if_splits option.splits)
    from allocate_new_range [OF this] nz show ?thesis by simp
  qed
qed

lemma for_loop_append:
  "for_loop (xs @ ys) body st = Option.bind (for_loop xs body st) (for_loop ys body)"
  by (induction xs arbitrary: st) (auto split: Option.bind_split)

lemma for_loop_map:
  "for_loop (map g xs) body st = for_loop xs (\<lambda>x. body (g x)) st"
  by (induction xs arbitrary: st) (auto split: Option.bind_split)

lemma for_loop_product:
  "for_loop xs (\<lambda>i. for_loop ys (\<lambda>j. f i j)) st =
   for_loop (List.product xs ys) (\<lambda>(i, j). f i j) st"
  by (induction xs arbitrary: st) (auto simp: for_loop_append for_loop_map split: Option.bind_split)

lemma for_loop_product_swap:
  "for_loop ys (\<lambda>j. for_loop xs (\<lambda>i. f i j)) st =
   for_loop (map prod.swap (List.product ys xs)) (\<lambda>(i, j). f i j) st"
  by (simp add: for_loop_product for_loop_map case_prod_unfold)

lemma mult_add_less:
  fixes m :: nat
  assumes "i < m" "j < n"
  shows "m * j + i < m * n"
proof -
  have "m * j + i < m * j + m" using assms by simp
  also have "\<dots> = m * Suc j" by simp
  also have "\<dots> \<le> m * n" using assms by (intro mult_le_mono2) simp
  finally show ?thesis .
qed

lemma mult_add_inj:
  fixes m :: nat
  assumes "i < m" "i' < m" "m * j + i = m * j' + i'"
  shows "i = i' \<and> j = j'"
proof -
  from assms have "(i + j * m) div m = (i' + j' * m) div m" by (simp add: ac_simps)
  with assms have j: "j = j'" by simp
  with assms show ?thesis by simp
qed

lemma unat_less_2p64: "unat (n :: 64 word) < 2 ^ 64"
  using unsigned_less [of n] by simp

lemma unat_of_nat_less:
  "i < unat (n :: 64 word) \<Longrightarrow> unat (of_nat i :: 64 word) = i"
proof -
  assume "i < unat n"
  also have "unat n < 2 ^ 64" using unsigned_less [of n] by simp
  finally show ?thesis by (simp add: unat_of_nat)
qed

lemma unat_mult_of_nat:
  assumes "unat (m :: 64 word) * j < 2 ^ 64" and "j < 2 ^ 64"
  shows "unat (m * of_nat j) = unat m * j"
proof -
  from assms(2) have j: "unat (of_nat j :: 64 word) = j" by (simp add: unat_of_nat)
  with assms(1) have "unat m * unat (of_nat j :: 64 word) < 2 ^ LENGTH(64)" by simp
  then have "unat (m * of_nat j) = unat m * unat (of_nat j :: 64 word)"
    by (simp only: unat_mult_lem)
  with j show ?thesis by simp
qed

lemma unat_add_nowrap:
  assumes "unat (x :: 64 word) + unat y < 2 ^ 64"
  shows "unat (x + y) = unat x + unat y"
proof -
  from assms have "unat x + unat y < 2 ^ LENGTH(64)" by simp
  then show ?thesis by (simp only: unat_add_lem)
qed

lemma for_loop_cong:
  "(\<And>x st. x \<in> set xs \<Longrightarrow> f x st = g x st) \<Longrightarrow> for_loop xs f st = for_loop xs g st"
  by (induction xs arbitrary: st) (auto split: Option.bind_split)

lemma for_loop_upto:
  "for_loop (counter_values n) body = for_loop [0..<unat n] (\<lambda>i. body (of_nat i))"
  by (rule ext) (simp add: counter_values_def for_loop_map)

lemma mmm_fma_Some:
  assumes "B + unat k + unat (K * j) = b" "A + unat i + unat (M * k) = a"
    "C + unat (M * j) + unat i = c" "a < length d" "b < length d" "c < length d"
  shows "mmm_fma E rnd C A B M K i j k (Some d) =
    Some (Some (d[c := fst (mpfr_fma E rnd (d ! c) (d ! b) (d ! a) (d ! c))]),
          snd (mpfr_fma E rnd (d ! c) (d ! b) (d ! a) (d ! c)))"
  using assms by (simp add: mmm_fma_def arr_read_def arr_write_def)

lemma k_loop_Some:
  assumes "c < length d"
    and "\<And>k. k \<in> set ks \<Longrightarrow> bi k < length d \<and> ai k < length d \<and> bi k \<noteq> c \<and> ai k \<noteq> c"
    and "\<And>k d'. k \<in> set ks \<Longrightarrow> length d' = length d \<Longrightarrow> step k (Some d') =
       Some (Some (d'[c := fst (mpfr_fma E rnd (d' ! c) (d' ! bi k) (d' ! ai k) (d' ! c))]),
             snd (mpfr_fma E rnd (d' ! c) (d' ! bi k) (d' ! ai k) (d' ! c)))"
  shows "for_loop ks (\<lambda>k (d, ret). do { (d', t) \<leftarrow> step k d; Some (d', ret OR t) }) (Some d, r0) =
    Some (Some (d[c := fst (fold (\<lambda>k. fma_step E rnd (d ! bi k) (d ! ai k)) ks (d ! c, r0))]),
          snd (fold (\<lambda>k. fma_step E rnd (d ! bi k) (d ! ai k)) ks (d ! c, r0)))"
  using assms
proof (induction ks arbitrary: d r0)
  case Nil
  then show ?case by simp
next
  case (Cons k ks)
  let ?v = "fst (mpfr_fma E rnd (d ! c) (d ! bi k) (d ! ai k) (d ! c))"
  let ?t = "snd (mpfr_fma E rnd (d ! c) (d ! bi k) (d ! ai k) (d ! c))"
  let ?d = "d[c := ?v]"
  have k: "bi k < length d" "ai k < length d" "bi k \<noteq> c" "ai k \<noteq> c"
    using Cons.prems(2) [of k] by auto
  have step: "step k (Some d) = Some (Some ?d, ?t)"
    using Cons.prems(3) [of k d] by simp
  have IH: "for_loop ks (\<lambda>k (d, ret). do { (d', t) \<leftarrow> step k d; Some (d', ret OR t) })
      (Some ?d, r0 OR ?t) =
    Some (Some (?d[c := fst (fold (\<lambda>k. fma_step E rnd (?d ! bi k) (?d ! ai k)) ks (?d ! c, r0 OR ?t))]),
          snd (fold (\<lambda>k. fma_step E rnd (?d ! bi k) (?d ! ai k)) ks (?d ! c, r0 OR ?t)))"
    using Cons.prems by (intro Cons.IH) auto
  have same: "fold (\<lambda>k. fma_step E rnd (?d ! bi k) (?d ! ai k)) ks acc =
      fold (\<lambda>k. fma_step E rnd (d ! bi k) (d ! ai k)) ks acc" for acc
  proof (rule fold_cong [OF refl refl])
    fix x assume "x \<in> set ks"
    with Cons.prems(2) [of x] show "fma_step E rnd (?d ! bi x) (?d ! ai x) =
      fma_step E rnd (d ! bi x) (d ! ai x)"
      by (simp add: nth_list_update)
  qed
  have first: "fma_step E rnd (d ! bi k) (d ! ai k) (d ! c, r0) = (?v, r0 OR ?t)"
    by (simp add: fma_step_def)
  show ?case
    using step IH Cons.prems(1) by (simp add: same first)
qed

lemma mmm_elem_Some:
  fixes M N K :: "64 word"
  assumes layout: "mmm_layout d C A B (unat M) (unat N) (unat K)"
    and i: "i < unat M" and j: "j < unat N"
    and len: "length d' = length d"
    and agree: "\<And>x. x < C \<or> C + unat M * unat N \<le> x \<Longrightarrow> d' ! x = d ! x"
    and own: "d' ! (C + unat M * j + i) = d ! (C + unat M * j + i)"
    and r: "unat ((M * of_nat j + of_nat i) * ret_stride) = r" "r < length ret"
  shows "mmm_elem E rnd C A B M K ret_stride (of_nat i) (of_nat j) (Some d', Some ret) =
    Some (Some (d'[C + unat M * j + i := fst (fma_acc E rnd d C A B (unat M) (unat K) i j)]),
          Some (ret[r := snd (fma_acc E rnd d C A B (unat M) (unat K) i j)]))"
proof -
  let ?m = "unat M" and ?n = "unat N" and ?k = "unat K"
  let ?c = "C + ?m * j + i"
  let ?bi = "\<lambda>k. B + k + ?k * j" and ?ai = "\<lambda>k. A + i + ?m * k"
  from layout have L: "?m * ?n < 2 ^ 64" "C + ?m * ?n \<le> length d" "A + ?m * ?k \<le> length d"
    "B + ?k * ?n \<le> length d" "C + ?m * ?n \<le> A \<or> A + ?m * ?k \<le> C"
    "C + ?m * ?n \<le> B \<or> B + ?k * ?n \<le> C" "?m * ?k < 2 ^ 64" "?k * ?n < 2 ^ 64"
    by (auto simp: mmm_layout_def)
  have cin: "?m * j + i < ?m * ?n" using i j by (rule mult_add_less)
  with L have c: "?c < length d'" by (simp add: len)
  have ui: "unat (of_nat i :: 64 word) = i" using i by (rule unat_of_nat_less)
  have uj: "unat (of_nat j :: 64 word) = j" using j by (rule unat_of_nat_less)
  have mj: "unat (M * of_nat j) = ?m * j"
  proof (rule unat_mult_of_nat)
    have "?m * j \<le> ?m * j + i" by simp
    also have "\<dots> < ?m * ?n" by (rule cin)
    also have "\<dots> < 2 ^ 64" using L by simp
    finally show "?m * j < 2 ^ 64" .
    show "j < 2 ^ 64" using j unat_less_2p64 [of N] by simp
  qed
  have kfacts: "?bi k < length d' \<and> ?ai k < length d' \<and> ?bi k \<noteq> ?c \<and> ?ai k \<noteq> ?c \<and>
      unat (of_nat k :: 64 word) = k \<and> unat (K * of_nat j) = ?k * j \<and>
      unat (M * of_nat k) = ?m * k \<and> d' ! ?bi k = d ! ?bi k \<and> d' ! ?ai k = d ! ?ai k"
    if k: "k < ?k" for k
  proof -
    have b: "?k * j + k < ?k * ?n" using k j by (rule mult_add_less)
    have a: "?m * k + i < ?m * ?k" using i k by (rule mult_add_less)
    have uk: "unat (of_nat k :: 64 word) = k" using k by (rule unat_of_nat_less)
    have kj: "unat (K * of_nat j) = ?k * j"
    proof (rule unat_mult_of_nat)
      have "?k * j \<le> ?k * j + k" by simp
      also have "\<dots> < ?k * ?n" by (rule b)
      also have "\<dots> < 2 ^ 64" using L by simp
      finally show "?k * j < 2 ^ 64" .
      show "j < 2 ^ 64" using j unat_less_2p64 [of N] by simp
    qed
    have mk: "unat (M * of_nat k) = ?m * k"
    proof (rule unat_mult_of_nat)
      have "?m * k \<le> ?m * k + i" by simp
      also have "\<dots> < ?m * ?k" by (rule a)
      also have "\<dots> < 2 ^ 64" using L by simp
      finally show "?m * k < 2 ^ 64" .
      show "k < 2 ^ 64" using k unat_less_2p64 [of K] by simp
    qed
    have out_b: "?bi k < C \<or> C + ?m * ?n \<le> ?bi k" using L(6) b by auto
    have out_a: "?ai k < C \<or> C + ?m * ?n \<le> ?ai k" using L(5) a by auto
    from out_b out_a cin b a L uk kj mk agree [of "?bi k"] agree [of "?ai k"]
    show ?thesis by (auto simp: len)
  qed
  have loop: "for_loop [0..<?k]
      (\<lambda>k (d, ret). do {
         (d', t) \<leftarrow> mmm_fma E rnd C A B M K (of_nat i) (of_nat j) (of_nat k) d;
         Some (d', ret OR t) }) (Some d', 0) =
    Some (Some (d'[?c := fst (fold (\<lambda>k. fma_step E rnd (d' ! ?bi k) (d' ! ?ai k)) [0..<?k] (d' ! ?c, 0))]),
          snd (fold (\<lambda>k. fma_step E rnd (d' ! ?bi k) (d' ! ?ai k)) [0..<?k] (d' ! ?c, 0)))"
  proof (rule k_loop_Some [where bi = ?bi and ai = ?ai])
    show "?c < length d'" by (rule c)
    show "?bi k < length d' \<and> ?ai k < length d' \<and> ?bi k \<noteq> ?c \<and> ?ai k \<noteq> ?c"
      if "k \<in> set [0..<?k]" for k using kfacts [of k] that by simp
    show "mmm_fma E rnd C A B M K (of_nat i) (of_nat j) (of_nat k) (Some d'') =
       Some (Some (d''[?c := fst (mpfr_fma E rnd (d'' ! ?c) (d'' ! ?bi k) (d'' ! ?ai k) (d'' ! ?c))]),
             snd (mpfr_fma E rnd (d'' ! ?c) (d'' ! ?bi k) (d'' ! ?ai k) (d'' ! ?c)))"
      if "k \<in> set [0..<?k]" "length d'' = length d'" for k d''
      using kfacts [of k] that c by (intro mmm_fma_Some) (simp_all add: ui uj mj)
  qed
  have acc: "fold (\<lambda>k. fma_step E rnd (d' ! ?bi k) (d' ! ?ai k)) [0..<?k] (d' ! ?c, 0) =
      fma_acc E rnd d C A B ?m ?k i j"
    unfolding fma_acc_def own
  proof (rule fold_cong [OF refl refl])
    fix k assume "k \<in> set [0..<?k]"
    with kfacts [of k] show "fma_step E rnd (d' ! ?bi k) (d' ! ?ai k) =
      fma_step E rnd (d ! ?bi k) (d ! ?ai k)" by simp
  qed
  show ?thesis
    using r by (simp add: mmm_elem_def for_loop_upto loop acc)
qed

lemma fold_upd_length [simp]:
  "length (fold (\<lambda>p d. d[c p := v p]) ps d) = length d"
  by (induction ps arbitrary: d) auto

lemma fold_upd_nth_other:
  "x \<notin> c ` set ps \<Longrightarrow> fold (\<lambda>p d. d[c p := v p]) ps d ! x = d ! x"
  by (induction ps arbitrary: d) auto

lemma fold_upd_nth:
  "p \<in> set ps \<Longrightarrow> inj_on c (set ps) \<Longrightarrow> c p < length d \<Longrightarrow>
   fold (\<lambda>p d. d[c p := v p]) ps d ! c p = v p"
proof (induction ps arbitrary: d)
  case Nil
  then show ?case by simp
next
  case (Cons q ps)
  have inj: "inj_on c (set ps)" using Cons.prems(2) by (auto simp: inj_on_def)
  show ?case
  proof (cases "p \<in> set ps")
    case True
    with Cons.IH [OF True inj, of "d[c q := v q]"] Cons.prems show ?thesis by simp
  next
    case False
    with Cons.prems have pq: "p = q" by simp
    from False Cons.prems(2) pq have "c p \<notin> c ` set ps" by (auto simp: inj_on_def)
    with pq Cons.prems(3) show ?thesis by (simp add: fold_upd_nth_other)
  qed
qed

lemma fold_upd_eq:
  assumes "set ps = set qs" and "inj_on c (set ps)" and "\<And>p. p \<in> set ps \<Longrightarrow> c p < length d"
  shows "fold (\<lambda>p d. d[c p := v p]) ps d = fold (\<lambda>p d. d[c p := v p]) qs d"
proof (rule nth_equalityI)
  show "length (fold (\<lambda>p d. d[c p := v p]) ps d) = length (fold (\<lambda>p d. d[c p := v p]) qs d)"
    by simp
next
  fix x assume "x < length (fold (\<lambda>p d. d[c p := v p]) ps d)"
  show "fold (\<lambda>p d. d[c p := v p]) ps d ! x = fold (\<lambda>p d. d[c p := v p]) qs d ! x"
  proof (cases "x \<in> c ` set ps")
    case True
    then obtain p where p: "p \<in> set ps" "x = c p" by auto
    with assms show ?thesis by (simp add: fold_upd_nth)
  next
    case False
    with assms(1) show ?thesis by (simp add: fold_upd_nth_other)
  qed
qed

lemma fold_upd_same_index:
  "fold (\<lambda>p r. r[x := t p]) ps r = (if ps = [] then r else r[x := t (last ps)])"
  by (induction ps arbitrary: r) auto

lemma mmm_pairs_Some:
  fixes M N K :: "64 word"
  assumes layout: "mmm_layout d C A B (unat M) (unat N) (unat K)"
    and ps: "\<And>i j. (i, j) \<in> set ps \<Longrightarrow> i < unat M \<and> j < unat N" and dist: "distinct ps"
    and len: "length d' = length d"
    and agree: "\<And>x. x < C \<or> C + unat M * unat N \<le> x \<Longrightarrow> d' ! x = d ! x"
    and own: "\<And>i j. (i, j) \<in> set ps \<Longrightarrow> d' ! (C + unat M * j + i) = d ! (C + unat M * j + i)"
    and stride: "ret_stride = 1 \<and> unat M * unat N \<le> length ret \<or> ret_stride = 0 \<and> 0 < length ret"
  shows "for_loop ps (\<lambda>(i, j). mmm_elem E rnd C A B M K ret_stride (of_nat i) (of_nat j))
      (Some d', Some ret) =
    Some (Some (fold (\<lambda>p d'. d'[C + unat M * snd p + fst p :=
                   fst (fma_acc E rnd d C A B (unat M) (unat K) (fst p) (snd p))]) ps d'),
          Some (fold (\<lambda>p r. r[unat ret_stride * (unat M * snd p + fst p) :=
                   snd (fma_acc E rnd d C A B (unat M) (unat K) (fst p) (snd p))]) ps ret))"
  using ps dist len agree own stride
proof (induction ps arbitrary: d' ret)
  case Nil
  then show ?case by simp
next
  case (Cons p ps)
  obtain i j where p: "p = (i, j)" by (cases p)
  let ?m = "unat M" and ?n = "unat N"
  let ?c = "C + ?m * j + i"
  let ?v = "fst (fma_acc E rnd d C A B ?m (unat K) i j)"
  let ?t = "snd (fma_acc E rnd d C A B ?m (unat K) i j)"
  let ?r = "unat ret_stride * (?m * j + i)"
  from Cons.prems(1) [of i j] p have ij: "i < ?m" "j < ?n" by auto
  have cin: "?m * j + i < ?m * ?n" using ij by (rule mult_add_less)
  from layout have L: "?m * ?n < 2 ^ 64" "C + ?m * ?n \<le> length d"
    by (auto simp: mmm_layout_def)
  have r1: "unat ((M * of_nat j + of_nat i) * ret_stride) = ?r"
  proof (cases "ret_stride = 1")
    case True
    have "unat (M * of_nat j) = ?m * j"
    proof (rule unat_mult_of_nat)
      show "?m * j < 2 ^ 64" using cin L by simp
      show "j < 2 ^ 64" using ij unat_less_2p64 [of N] by simp
    qed
    moreover have "unat (of_nat i :: 64 word) = i" using ij(1) by (rule unat_of_nat_less)
    moreover have "?m * j + i < 2 ^ 64" using cin L by simp
    ultimately have "unat (M * of_nat j + of_nat i) = ?m * j + i"
      using unat_add_nowrap [of "M * of_nat j" "of_nat i"] by simp
    with True show ?thesis by simp
  next
    case False
    with Cons.prems(6) show ?thesis by simp
  qed
  have r2: "?r < length ret"
    using Cons.prems(6) cin by auto
  have step: "mmm_elem E rnd C A B M K ret_stride (of_nat i) (of_nat j) (Some d', Some ret) =
      Some (Some (d'[?c := ?v]), Some (ret[?r := ?t]))"
    using layout ij Cons.prems(3) Cons.prems(4) Cons.prems(5) [of i j] r1 r2 p
    by (intro mmm_elem_Some) auto
  have rest: "for_loop ps (\<lambda>(i, j). mmm_elem E rnd C A B M K ret_stride (of_nat i) (of_nat j))
      (Some (d'[?c := ?v]), Some (ret[?r := ?t])) =
    Some (Some (fold (\<lambda>p d'. d'[C + ?m * snd p + fst p :=
                   fst (fma_acc E rnd d C A B ?m (unat K) (fst p) (snd p))]) ps (d'[?c := ?v])),
          Some (fold (\<lambda>p r. r[unat ret_stride * (?m * snd p + fst p) :=
                   snd (fma_acc E rnd d C A B ?m (unat K) (fst p) (snd p))]) ps (ret[?r := ?t])))"
  proof (rule Cons.IH)
    show "i' < ?m \<and> j' < ?n" if "(i', j') \<in> set ps" for i' j'
      using Cons.prems(1) [of i' j'] that by simp
    show "distinct ps" using Cons.prems(2) by simp
    show "length (d'[?c := ?v]) = length d" using Cons.prems(3) by simp
    show "d'[?c := ?v] ! x = d ! x" if "x < C \<or> C + ?m * ?n \<le> x" for x
      using that cin Cons.prems(4) [of x] by (auto simp: nth_list_update)
    show "d'[?c := ?v] ! (C + ?m * j' + i') = d ! (C + ?m * j' + i')"
      if that: "(i', j') \<in> set ps" for i' j'
    proof -
      from that Cons.prems(1) [of i' j'] have ij': "i' < ?m" "j' < ?n" by auto
      from that Cons.prems(2) p have "(i', j') \<noteq> (i, j)" by auto
      with mult_add_inj [OF ij(1) ij'(1), of j j'] have "?m * j + i \<noteq> ?m * j' + i'" by auto
      with Cons.prems(5) [of i' j'] that show ?thesis by (simp add: nth_list_update)
    qed
    show "ret_stride = 1 \<and> ?m * ?n \<le> length (ret[?r := ?t]) \<or>
      ret_stride = 0 \<and> 0 < length (ret[?r := ?t])"
      using Cons.prems(6) by simp
  qed
  show ?case using step rest p by simp
qed

lemma product_Nil_iff: "List.product xs ys = [] \<longleftrightarrow> xs = [] \<or> ys = []"
  by (induction xs) auto

lemma last_product:
  "xs \<noteq> [] \<Longrightarrow> ys \<noteq> [] \<Longrightarrow> last (List.product xs ys) = (last xs, last ys)"
proof (induction xs)
  case Nil
  then show ?case by simp
next
  case (Cons x xs)
  show ?case
  proof (cases "xs = []")
    case True
    with Cons.prems show ?thesis by (simp add: last_map)
  next
    case False
    with Cons have "List.product xs ys \<noteq> []" by (simp add: product_Nil_iff)
    with Cons False show ?thesis by simp
  qed
qed

lemma set_ijk_order [simp]: "set (ijk_order m n) = {0..<m} \<times> {0..<n}"
  by (simp add: ijk_order_def)

lemma set_jik_order [simp]: "set (jik_order m n) = {0..<m} \<times> {0..<n}"
  by (auto simp: jik_order_def)

lemma distinct_ijk_order [simp]: "distinct (ijk_order m n)"
  by (simp add: ijk_order_def distinct_product)

lemma distinct_jik_order [simp]: "distinct (jik_order m n)"
  by (simp add: jik_order_def distinct_product distinct_map)

lemma orders_Nil_iff:
  "ijk_order m n = [] \<longleftrightarrow> m = 0 \<or> n = 0" "jik_order m n = [] \<longleftrightarrow> m = 0 \<or> n = 0"
  by (auto simp: ijk_order_def jik_order_def product_Nil_iff)

lemma last_orders:
  assumes "0 < m" "0 < n"
  shows "last (ijk_order m n) = (m - 1, n - 1)" "last (jik_order m n) = (m - 1, n - 1)"
proof -
  from assms have ne: "[0..<m] \<noteq> []" "[0..<n] \<noteq> []" by auto
  from assms have l: "last [0..<m] = m - 1" "last [0..<n] = n - 1"
    by (simp_all add: last_upt)
  show "last (ijk_order m n) = (m - 1, n - 1)"
    by (simp add: ijk_order_def last_product [OF ne] l)
  have "List.product [0..<n] [0..<m] \<noteq> []" using ne by (simp add: product_Nil_iff)
  then show "last (jik_order m n) = (m - 1, n - 1)"
    by (simp add: jik_order_def last_map last_product [OF ne(2) ne(1)] l)
qed

lemma mpfr_apa_mmm_ijk:
  assumes "strategy = 1"
  shows "mpfr_apa_mmm E C A B prec rnd M N K ret_stride strategy st =
    map_option (\<lambda>(d, ret_ptr). st\<lparr>pool := (pool st)\<lparr>data := d\<rparr>, plhs0 := ret_ptr\<rparr>)
      (for_loop (ijk_order (unat M) (unat N))
         (\<lambda>(i, j). mmm_elem E rnd C A B M K ret_stride (of_nat i) (of_nat j))
         (data (pool st), plhs0 st))"
  using assms
  by (simp add: mpfr_apa_mmm_def ijk_order_def for_loop_upto for_loop_product [symmetric])

lemma mpfr_apa_mmm_jik:
  assumes "strategy = 2"
  shows "mpfr_apa_mmm E C A B prec rnd M N K ret_stride strategy st =
    map_option (\<lambda>(d, ret_ptr). st\<lparr>pool := (pool st)\<lparr>data := d\<rparr>, plhs0 := ret_ptr\<rparr>)
      (for_loop (jik_order (unat M) (unat N))
         (\<lambda>(i, j). mmm_elem E rnd C A B M K ret_stride (of_nat i) (of_nat j))
         (data (pool st), plhs0 st))"
  using assms
  by (simp add: mpfr_apa_mmm_def jik_order_def for_loop_upto for_loop_product_swap [symmetric])

lemma mmm_order_Some:
  fixes M N K :: "64 word"
  assumes mem: "data (pool st) = Some d" "plhs0 st = Some ret"
    and layout: "mmm_layout d C A B (unat M) (unat N) (unat K)"
    and stride: "ret_stride = 1 \<and> unat M * unat N \<le> length ret \<or> ret_stride = 0 \<and> 0 < length ret"
    and ps: "set ps = {0..<unat M} \<times> {0..<unat N}" "distinct ps"
  shows "map_option (\<lambda>(d, ret_ptr). st\<lparr>pool := (pool st)\<lparr>data := d\<rparr>, plhs0 := ret_ptr\<rparr>)
      (for_loop ps (\<lambda>(i, j). mmm_elem E rnd C A B M K ret_stride (of_nat i) (of_nat j))
         (data (pool st), plhs0 st)) =
    Some (st\<lparr>pool := (pool st)\<lparr>data := Some (mmm_data_after E rnd d C A B (unat M) (unat K) ps)\<rparr>,
            plhs0 := Some (mmm_ret_after E rnd d C A B (unat M) (unat K) (unat ret_stride) ret ps)\<rparr>)"
proof -
  have "for_loop ps (\<lambda>(i, j). mmm_elem E rnd C A B M K ret_stride (of_nat i) (of_nat j))
      (Some d, Some ret) =
    Some (Some (mmm_data_after E rnd d C A B (unat M) (unat K) ps),
          Some (mmm_ret_after E rnd d C A B (unat M) (unat K) (unat ret_stride) ret ps))"
    unfolding mmm_data_after_def mmm_ret_after_def
    using layout ps stride by (intro mmm_pairs_Some) auto
  then show ?thesis by (simp add: mem)
qed

lemma mmm_cell_inj:
  fixes c m n :: nat
  shows "inj_on (\<lambda>p. c + m * snd p + fst p) ({0..<m} \<times> {0..<n})"
proof (rule inj_onI)
  fix p q :: "nat \<times> nat"
  assume "p \<in> {0..<m} \<times> {0..<n}" "q \<in> {0..<m} \<times> {0..<n}"
    "c + m * snd p + fst p = c + m * snd q + fst q"
  then have "fst p < m" "fst q < m" "m * snd p + fst p = m * snd q + fst q" by auto
  from mult_add_inj [OF this] show "p = q" by (simp add: prod_eq_iff)
qed

lemma unat_of_nat_mult:
  assumes "i * unat (n :: 64 word) < 2 ^ 64" and "i < 2 ^ 64"
  shows "unat (of_nat i * n) = i * unat n"
  using unat_mult_of_nat [of n i] assms by (simp add: mult.commute)

lemma transpose_pairs_Some:
  fixes ropM ropN :: "64 word"
  assumes layout: "transpose_layout d rop op (unat ropM) (unat ropN)"
    and ps: "\<And>i j. (i, j) \<in> set ps \<Longrightarrow> i < unat ropM \<and> j < unat ropN" and dist: "distinct ps"
    and len: "length d' = length d"
    and agree: "\<And>x. x < rop \<or> rop + unat ropM * unat ropN \<le> x \<Longrightarrow> d' ! x = d ! x"
    and own: "\<And>i j. (i, j) \<in> set ps \<Longrightarrow>
       d' ! (rop + unat ropM * j + i) = d ! (rop + unat ropM * j + i)"
    and stride: "ret_stride = 1 \<and> unat ropM \<le> length ret \<or> ret_stride = 0 \<and> 0 < length ret"
  shows "\<exists>ret'. length ret' = length ret \<and>
    for_loop ps (\<lambda>(i, j). transpose_elem E rnd rop op ropM ropN ret_stride (of_nat i) (of_nat j))
      (Some d', Some ret) =
    Some (Some (fold (\<lambda>p d'. d'[rop + unat ropM * snd p + fst p :=
       fst (mpfr_set E rnd (d ! (rop + unat ropM * snd p + fst p))
              (d ! (op + unat ropN * fst p + snd p)))]) ps d'), Some ret')"
  using ps dist len agree own stride
proof (induction ps arbitrary: d' ret)
  case Nil
  then show ?case by simp
next
  case (Cons p ps)
  obtain i j where p: "p = (i, j)" by (cases p)
  let ?m = "unat ropM" and ?n = "unat ropN"
  let ?c = "rop + ?m * j + i" and ?o = "op + ?n * i + j"
  let ?v = "fst (mpfr_set E rnd (d ! ?c) (d ! ?o))"
  let ?t = "snd (mpfr_set E rnd (d ! ?c) (d ! ?o))"
  from Cons.prems(1) [of i j] p have ij: "i < ?m" "j < ?n" by auto
  have cin: "?m * j + i < ?m * ?n" using ij by (rule mult_add_less)
  have oin: "?n * i + j < ?m * ?n" using mult_add_less [OF ij(2) ij(1)] by (simp add: mult.commute)
  from layout have L: "?m * ?n < 2 ^ 64" "rop + ?m * ?n \<le> length d" "op + ?m * ?n \<le> length d"
    "rop + ?m * ?n \<le> op \<or> op + ?m * ?n \<le> rop"
    by (auto simp: transpose_layout_def)
  have ui: "unat (of_nat i :: 64 word) = i" using ij(1) by (rule unat_of_nat_less)
  have uj: "unat (of_nat j :: 64 word) = j" using ij(2) by (rule unat_of_nat_less)
  have jm: "unat (of_nat j * ropM) = ?m * j"
  proof -
    have "j * ?m < 2 ^ 64" using cin L by (simp add: mult.commute)
    moreover have "j < 2 ^ 64" using ij unat_less_2p64 [of ropN] by simp
    ultimately show ?thesis using unat_of_nat_mult [of j ropM] by (simp add: mult.commute)
  qed
  have im: "unat (of_nat i * ropN) = ?n * i"
  proof -
    have "i * ?n < 2 ^ 64" using oin L by (simp add: mult.commute)
    moreover have "i < 2 ^ 64" using ij unat_less_2p64 [of ropM] by simp
    ultimately show ?thesis using unat_of_nat_mult [of i ropN] by (simp add: mult.commute)
  qed
  have r: "unat (of_nat i * ret_stride) < length ret"
    using Cons.prems(6) ij ui by auto
  have o_out: "?o < rop \<or> rop + ?m * ?n \<le> ?o" using L(4) oin by auto
  have step: "transpose_elem E rnd rop op ropM ropN ret_stride (of_nat i) (of_nat j) (Some d', Some ret) =
      Some (Some (d'[?c := ?v]), Some (ret[unat (of_nat i * ret_stride) := ?t]))"
    using cin oin L r Cons.prems(3) Cons.prems(4) [OF o_out] Cons.prems(5) [of i j] p
    by (simp add: transpose_elem_def ui uj jm im)
  have "\<exists>ret'. length ret' = length (ret[unat (of_nat i * ret_stride) := ?t]) \<and>
    for_loop ps (\<lambda>(i, j). transpose_elem E rnd rop op ropM ropN ret_stride (of_nat i) (of_nat j))
      (Some (d'[?c := ?v]), Some (ret[unat (of_nat i * ret_stride) := ?t])) =
    Some (Some (fold (\<lambda>p d'. d'[rop + ?m * snd p + fst p :=
       fst (mpfr_set E rnd (d ! (rop + ?m * snd p + fst p))
              (d ! (op + ?n * fst p + snd p)))]) ps (d'[?c := ?v])), Some ret')"
  proof (rule Cons.IH)
    show "i' < ?m \<and> j' < ?n" if "(i', j') \<in> set ps" for i' j'
      using Cons.prems(1) [of i' j'] that by simp
    show "distinct ps" using Cons.prems(2) by simp
    show "length (d'[?c := ?v]) = length d" using Cons.prems(3) by simp
    show "d'[?c := ?v] ! x = d ! x" if "x < rop \<or> rop + ?m * ?n \<le> x" for x
      using that cin Cons.prems(4) [of x] by (auto simp: nth_list_update)
    show "d'[?c := ?v] ! (rop + ?m * j' + i') = d ! (rop + ?m * j' + i')"
      if that: "(i', j') \<in> set ps" for i' j'
    proof -
      from that Cons.prems(1) [of i' j'] have ij': "i' < ?m" "j' < ?n" by auto
      from that Cons.prems(2) p have "(i', j') \<noteq> (i, j)" by auto
      with mult_add_inj [OF ij(1) ij'(1), of j j'] have "?m * j + i \<noteq> ?m * j' + i'" by auto
      with Cons.prems(5) [of i' j'] that show ?thesis by (simp add: nth_list_update)
    qed
    show "ret_stride = 1 \<and> ?m \<le> length (ret[unat (of_nat i * ret_stride) := ?t]) \<or>
      ret_stride = 0 \<and> 0 < length (ret[unat (of_nat i * ret_stride) := ?t])"
      using Cons.prems(6) by simp
  qed
  then obtain ret' where "length ret' = length ret"
    "for_loop ps (\<lambda>(i, j). transpose_elem E rnd rop op ropM ropN ret_stride (of_nat i) (of_nat j))
      (Some (d'[?c := ?v]), Some (ret[unat (of_nat i * ret_stride) := ?t])) =
    Some (Some (fold (\<lambda>p d'. d'[rop + ?m * snd p + fst p :=
       fst (mpfr_set E rnd (d ! (rop + ?m * snd p + fst p))
              (d ! (op + ?n * fst p + snd p)))]) ps (d'[?c := ?v])), Some ret')"
    by auto
  with step p show ?case by auto
qed

lemma transpose_loops_Some:
  fixes ropM ropN :: "64 word"
  assumes layout: "transpose_layout d rop op (unat ropM) (unat ropN)"
    and stride: "ret_stride = 1 \<and> unat ropM \<le> length ret \<or> ret_stride = 0 \<and> 0 < length ret"
  shows "\<exists>ret'. length ret' = length ret \<and>
    transpose_loops E rnd rop op ropM ropN ret_stride (Some d, Some ret) =
    Some (Some (transposed E rnd d rop op (unat ropM) (unat ropN) (ijk_order (unat ropM) (unat ropN))),
          Some ret')"
proof -
  have "transpose_loops E rnd rop op ropM ropN ret_stride (Some d, Some ret) =
    for_loop (ijk_order (unat ropM) (unat ropN))
      (\<lambda>(i, j). transpose_elem E rnd rop op ropM ropN ret_stride (of_nat i) (of_nat j))
      (Some d, Some ret)"
    by (simp add: transpose_loops_def ijk_order_def for_loop_upto for_loop_product [symmetric])
  moreover have "\<exists>ret'. length ret' = length ret \<and>
    for_loop (ijk_order (unat ropM) (unat ropN))
      (\<lambda>(i, j). transpose_elem E rnd rop op ropM ropN ret_stride (of_nat i) (of_nat j))
      (Some d, Some ret) =
    Some (Some (fold (\<lambda>p d'. d'[rop + unat ropM * snd p + fst p :=
       fst (mpfr_set E rnd (d ! (rop + unat ropM * snd p + fst p))
              (d ! (op + unat ropN * fst p + snd p)))]) (ijk_order (unat ropM) (unat ropN)) d), Some ret')"
    using layout stride by (intro transpose_pairs_Some) auto
  ultimately show ?thesis by (simp add: transposed_def)
qed

lemma transposed_length [simp]:
  "length (transposed E rnd d rop op m n ps) = length d"
  by (simp add: transposed_def)

lemma transposed_nth:
  assumes "i < m" "j < n" "rop + m * n \<le> length d"
  shows "transposed E rnd d rop op m n (ijk_order m n) ! (rop + m * j + i) =
    fst (mpfr_set E rnd (d ! (rop + m * j + i)) (d ! (op + n * i + j)))"
proof -
  from assms have cin: "m * j + i < m * n" by (intro mult_add_less)
  have "fold (\<lambda>p d'. d'[rop + m * snd p + fst p :=
       fst (mpfr_set E rnd (d ! (rop + m * snd p + fst p)) (d ! (op + n * fst p + snd p)))])
     (ijk_order m n) d ! (rop + m * snd (i, j) + fst (i, j)) =
    fst (mpfr_set E rnd (d ! (rop + m * snd (i, j) + fst (i, j))) (d ! (op + n * fst (i, j) + snd (i, j))))"
    using assms cin by (intro fold_upd_nth) (simp_all add: mmm_cell_inj)
  then show ?thesis by (simp add: transposed_def)
qed

lemma transposed_nth_other:
  assumes "x < rop \<or> rop + m * n \<le> x"
  shows "transposed E rnd d rop op m n (ijk_order m n) ! x = d ! x"
proof -
  have "x \<notin> (\<lambda>p. rop + m * snd p + fst p) ` set (ijk_order m n)"
  proof
    assume "x \<in> (\<lambda>p. rop + m * snd p + fst p) ` set (ijk_order m n)"
    then obtain p where p: "p \<in> set (ijk_order m n)" "x = rop + m * snd p + fst p" by auto
    then have "fst p < m" "snd p < n" by auto
    then have "m * snd p + fst p < m * n" by (rule mult_add_less)
    with p assms show False by simp
  qed
  then show ?thesis by (simp add: transposed_def fold_upd_nth_other)
qed

lemma extract_idx_valid:
  "extract_idx E k nrhs prhs s = Some (Some r) \<Longrightarrow> is_valid r s"
  by (auto simp: extract_idx_def Let_def split: Option.bind_splits option.splits if_splits)

lemma extract_idx_data_size:
  assumes "data_size s' = data_size s"
  shows "extract_idx E k nrhs prhs s' = extract_idx E k nrhs prhs s"
proof -
  have h: "is_valid x s' = is_valid x s" for x
    using assms by (simp add: is_valid_def)
  show ?thesis unfolding extract_idx_def h ..
qed

lemma valid_range_nat:
  assumes "is_valid r s"
  shows "1 \<le> unat (idx_start r)" "unat (idx_start r) \<le> unat (idx_end r)"
    "unat (idx_end r) \<le> unat (data_size s)"
    "unat (idx_start r - 1) = unat (idx_start r) - 1"
    "unat (length_idx r) = unat (idx_end r) - unat (idx_start r) + 1"
    "unat (idx_start r - 1) + unat (length_idx r) = unat (idx_end r)"
    "Suc (unat (idx_start r - 1)) = unat (idx_start r)"
proof -
  from assms have w: "1 \<le> idx_start r" "idx_start r \<le> idx_end r" "idx_end r \<le> data_size s"
    by (simp_all add: is_valid_def)
  from w(1) show 1: "1 \<le> unat (idx_start r)" by (simp add: word_le_nat_alt)
  from w(2) show 2: "unat (idx_start r) \<le> unat (idx_end r)" by (simp add: word_le_nat_alt)
  from w(3) show "unat (idx_end r) \<le> unat (data_size s)" by (simp add: word_le_nat_alt)
  from w(1) show 3: "unat (idx_start r - 1) = unat (idx_start r) - 1"
    by (simp add: unat_sub)
  have d: "unat (idx_end r - idx_start r) = unat (idx_end r) - unat (idx_start r)"
    using w(2) by (simp add: unat_sub)
  have "unat (idx_end r - idx_start r) + unat (1 :: 64 word) < 2 ^ 64"
    using d 1 2 unat_less_2p64 [of "idx_end r"] by simp
  then have "unat (idx_end r - idx_start r + 1) = unat (idx_end r - idx_start r) + unat (1 :: 64 word)"
    by (rule unat_add_nowrap)
  with d show 4: "unat (length_idx r) = unat (idx_end r) - unat (idx_start r) + 1"
    by (simp add: length_idx_def)
  from 1 2 3 4 show "unat (idx_start r - 1) + unat (length_idx r) = unat (idx_end r)"
    by simp
  from 1 3 show "Suc (unat (idx_start r - 1)) = unat (idx_start r)" by simp
qed

lemma transpose_cmd_Some:
  fixes ropM :: "64 word"
  assumes dec: "extract_idx E 1 5 prhs (pool st) = Some (Some rop)"
      "extract_idx E 2 5 prhs (pool st) = Some (Some op)"
      "extract_rounding_mode 3 5 prhs = Some (Some rnd)"
      "extract_ui 4 5 prhs = Some (Some ropM)"
    and mem: "data (pool st) = Some d" "unat (data_size (pool st)) \<le> length d"
    and shape: "length_idx rop = length_idx op" "unat (length_idx rop) = unat ropM * n"
    and disjoint: "idx_end rop < idx_start op \<or> idx_end op < idx_start rop"
  shows "\<exists>ret'. transpose_cmd E nlhs 5 prhs st =
    Some (st\<lparr>pool := (pool st)\<lparr>data := Some (transposed E rnd d (unat (idx_start rop - 1))
              (unat (idx_start op - 1)) (unat ropM) n (ijk_order (unat ropM) n))\<rparr>,
            plhs0 := Some ret'\<rparr>)"
proof -
  let ?m = "unat ropM"
  let ?ro = "unat (idx_start rop - 1)" and ?oo = "unat (idx_start op - 1)"
  let ?len = "unat (length_idx rop)"
  note vr = valid_range_nat [OF extract_idx_valid [OF dec(1)]]
  note vo = valid_range_nat [OF extract_idx_valid [OF dec(2)]]
  from vr have lpos: "0 < ?len" by simp
  with shape(2) have mpos: "0 < ?m" and npos: "0 < n" by (auto intro: Nat.gr0I)
  then have M0: "ropM \<noteq> 0" by (auto simp: unat_gt_0)
  let ?ropN = "length_idx rop div ropM"
  have N: "unat ?ropN = n" using shape(2) mpos by (simp add: unat_div)
  have olen: "unat (length_idx op) = ?len" using shape(1) by simp
  have layout: "transpose_layout d ?ro ?oo ?m (unat ?ropN)"
    unfolding transpose_layout_def N
  proof (intro conjI)
    show "?m * n < 2 ^ 64" using shape(2) unat_less_2p64 [of "length_idx rop"] by simp
    show "?ro + ?m * n \<le> length d" using vr(3,6) mem(2) shape(2) by simp
    show "?oo + ?m * n \<le> length d" using vo(3,6) mem(2) shape(2) olen by simp
    from disjoint have "unat (idx_end rop) < unat (idx_start op) \<or>
        unat (idx_end op) < unat (idx_start rop)"
      by (simp add: word_less_nat_alt)
    with vr(6,7) vo(6,7) shape(2) olen
    show "?ro + ?m * n \<le> ?oo \<or> ?oo + ?m * n \<le> ?ro" by arith
  qed
  let ?ret = "replicate (unat (if nlhs \<noteq> 0 then length_idx rop else 1)) (0 :: int)"
  let ?stride = "if nlhs \<noteq> 0 then 1 else 0 :: 64 word"
  have stride: "?stride = 1 \<and> ?m \<le> length ?ret \<or> ?stride = 0 \<and> 0 < length ?ret"
    using shape(2) npos by auto
  from transpose_loops_Some [OF layout stride, of E rnd] obtain ret' where
    "transpose_loops E rnd ?ro ?oo ropM ?ropN ?stride (Some d, Some ?ret) =
      Some (Some (transposed E rnd d ?ro ?oo ?m n (ijk_order ?m n)), Some ret')"
    by (auto simp: N)
  then have "transpose_cmd E nlhs 5 prhs st =
    Some (st\<lparr>pool := (pool st)\<lparr>data := Some (transposed E rnd d ?ro ?oo ?m n (ijk_order ?m n))\<rparr>,
            plhs0 := Some ret'\<rparr>)"
    using dec M0 shape(1) mem(1)
    by (simp add: transpose_cmd_def MEX_MPFR_T_def MEX_MPFR_RND_T_def MEX_ARG_def Let_def)
  then show ?thesis by blast
qed

lemma extract_d_Some:
  "extract_d idx nrhs prhs = Some (Some d) \<longleftrightarrow>
     int idx < nrhs \<and> idx < length prhs \<and> mxIsScalar (prhs ! idx) \<and> mxIsNumeric (prhs ! idx) \<and>
     mxGetScalar (prhs ! idx) = Some d"
  by (auto simp: extract_d_def arr_read_def split: Option.bind_splits if_splits)

lemma whole_truncate: "of_int \<lfloor>x\<rfloor> = (x :: real) \<Longrightarrow> c_truncate x = \<lfloor>x\<rfloor>"
  by (auto simp: c_truncate_def ceiling_altdef)

lemma extract_si_Some:
  "extract_si idx nrhs prhs = Some (Some si) \<longleftrightarrow>
     (\<exists>x. extract_d idx nrhs prhs = Some (Some (D_fin x)) \<and> of_int \<lfloor>x\<rfloor> = x \<and>
          - (2 ^ 63) \<le> \<lfloor>x\<rfloor> \<and> \<lfloor>x\<rfloor> < 2 ^ 63 \<and> si = word_of_int \<lfloor>x\<rfloor>)"
  by (auto simp: extract_si_def mxIsFinite_def is_whole_def double_to_int64_def whole_truncate
      split: Option.bind_splits option.splits double.splits if_splits)

lemma sint_word_of_int_64:
  "- (2 ^ 63) \<le> t \<Longrightarrow> t < 2 ^ 63 \<Longrightarrow> sint (word_of_int t :: 64 word) = t"
  by (simp add: sint_sbintrunc' signed_take_bit_int_eq_self)

lemma unat_word_of_int_64:
  "0 \<le> t \<Longrightarrow> t < 2 ^ 64 \<Longrightarrow> unat (word_of_int t :: 64 word) = nat t"
  by (simp add: unat_eq_nat_uint take_bit_int_eq_self unsigned_of_int)

lemma extract_ui_Some:
  "extract_ui idx nrhs prhs = Some (Some ui) \<longleftrightarrow>
     (\<exists>x. extract_d idx nrhs prhs = Some (Some (D_fin x)) \<and> of_int \<lfloor>x\<rfloor> = x \<and>
          0 \<le> x \<and> x < 2 ^ 63 \<and> ui = word_of_int \<lfloor>x\<rfloor>)"
proof
  assume "extract_ui idx nrhs prhs = Some (Some ui)"
  then have si: "extract_si idx nrhs prhs = Some (Some ui)" and nn: "0 \<le> sint ui"
    by (auto simp: extract_ui_def split: Option.bind_splits option.splits if_splits)
  from si obtain x where x: "extract_d idx nrhs prhs = Some (Some (D_fin x))" "of_int \<lfloor>x\<rfloor> = x"
    "- (2 ^ 63) \<le> \<lfloor>x\<rfloor>" "\<lfloor>x\<rfloor> < 2 ^ 63" "ui = word_of_int \<lfloor>x\<rfloor>"
    by (auto simp: extract_si_Some)
  from x nn have "0 \<le> \<lfloor>x\<rfloor>" by (simp add: sint_word_of_int_64)
  with x have "0 \<le> x" "x < 2 ^ 63"
    by (metis of_int_0_le_iff, metis of_int_less_iff of_int_numeral of_int_power)
  with x show "\<exists>x. extract_d idx nrhs prhs = Some (Some (D_fin x)) \<and> of_int \<lfloor>x\<rfloor> = x \<and>
          0 \<le> x \<and> x < 2 ^ 63 \<and> ui = word_of_int \<lfloor>x\<rfloor>" by blast
next
  assume "\<exists>x. extract_d idx nrhs prhs = Some (Some (D_fin x)) \<and> of_int \<lfloor>x\<rfloor> = x \<and>
          0 \<le> x \<and> x < 2 ^ 63 \<and> ui = word_of_int \<lfloor>x\<rfloor>"
  then obtain x where x: "extract_d idx nrhs prhs = Some (Some (D_fin x))" "of_int \<lfloor>x\<rfloor> = x"
    "0 \<le> x" "x < 2 ^ 63" "ui = word_of_int \<lfloor>x\<rfloor>" by blast
  then have f: "0 \<le> \<lfloor>x\<rfloor>" "\<lfloor>x\<rfloor> < 2 ^ 63" by (simp_all add: floor_less_iff)
  then have "- (2 ^ 63) \<le> \<lfloor>x\<rfloor>" by simp
  with x f have "extract_si idx nrhs prhs = Some (Some ui)"
    by (auto simp: extract_si_Some)
  moreover from f x have "0 \<le> sint ui" by (simp add: sint_word_of_int_64)
  ultimately show "extract_ui idx nrhs prhs = Some (Some ui)"
    by (simp add: extract_ui_def)
qed

lemma less_word_of_int_floor:
  assumes "of_int \<lfloor>x\<rfloor> = (x :: real)" "0 \<le> x" "x < 2 ^ 63"
  shows "b < (word_of_int \<lfloor>x\<rfloor> :: 64 word) \<longleftrightarrow> real (unat b) < x"
    and "(word_of_int \<lfloor>x\<rfloor> :: 64 word) < b \<longleftrightarrow> x < real (unat b)"
proof -
  from assms have f: "0 \<le> \<lfloor>x\<rfloor>" "\<lfloor>x\<rfloor> < 2 ^ 64"
    by (simp_all add: floor_less_iff)
  then have u: "unat (word_of_int \<lfloor>x\<rfloor> :: 64 word) = nat \<lfloor>x\<rfloor>"
    by (rule unat_word_of_int_64)
  from f have "real (nat \<lfloor>x\<rfloor>) = of_int \<lfloor>x\<rfloor>" by simp
  also note assms(1)
  finally have x: "x = real (nat \<lfloor>x\<rfloor>)" by (rule sym)
  show "b < (word_of_int \<lfloor>x\<rfloor> :: 64 word) \<longleftrightarrow> real (unat b) < x"
  proof -
    have "b < (word_of_int \<lfloor>x\<rfloor> :: 64 word) \<longleftrightarrow> unat b < nat \<lfloor>x\<rfloor>"
      by (simp only: word_less_nat_alt u)
    also have "\<dots> \<longleftrightarrow> real (unat b) < real (nat \<lfloor>x\<rfloor>)"
      by (simp only: of_nat_less_iff)
    also have "real (nat \<lfloor>x\<rfloor>) = x" by (rule x [symmetric])
    finally show ?thesis .
  qed
  show "(word_of_int \<lfloor>x\<rfloor> :: 64 word) < b \<longleftrightarrow> x < real (unat b)"
  proof -
    have "(word_of_int \<lfloor>x\<rfloor> :: 64 word) < b \<longleftrightarrow> nat \<lfloor>x\<rfloor> < unat b"
      by (simp only: word_less_nat_alt u)
    also have "\<dots> \<longleftrightarrow> real (nat \<lfloor>x\<rfloor>) < real (unat b)"
      by (simp only: of_nat_less_iff)
    also have "real (nat \<lfloor>x\<rfloor>) = x" by (rule x [symmetric])
    finally show ?thesis .
  qed
qed

subsection \<open>The invariant of the free list\<close>

text \<open>
  Lists without an element, and pairwise disjoint lists: removing an element, and
  storing at \<open>i\<close> a range that is disjoint from the others (as the merged range of rule
  2 is) before removing a later element, keep a list pairwise disjoint.
\<close>

lemma length_remove_nth:
  "k < length xs \<Longrightarrow> length (remove_nth k xs) = length xs - 1"
  by (simp add: remove_nth_def)

lemma nth_remove_nth:
  "k < length xs \<Longrightarrow> a < length xs - 1 \<Longrightarrow>
   remove_nth k xs ! a = (if a < k then xs ! a else xs ! Suc a)"
  by (auto simp: remove_nth_def nth_append min_def)

lemma set_remove_nth: "set (remove_nth k xs) \<subseteq> set xs"
  by (auto simp: remove_nth_def dest: in_set_takeD in_set_dropD)

lemma sorted_wrt_remove_nth:
  assumes "sorted_wrt P xs"
  shows "sorted_wrt P (remove_nth k xs)"
proof -
  from assms have "sorted_wrt P (take k xs @ drop k xs)" by simp
  then have "\<forall>x\<in>set (take k xs). \<forall>y\<in>set (drop k xs). P x y"
    unfolding sorted_wrt_append by blast
  moreover have "set (drop (Suc k) xs) \<subseteq> set (drop k xs)"
    by (simp add: set_drop_subset_set_drop)
  ultimately have "\<forall>x\<in>set (take k xs). \<forall>y\<in>set (drop (Suc k) xs). P x y"
    by blast
  with assms show ?thesis
    unfolding remove_nth_def sorted_wrt_append
    by (simp add: sorted_wrt_take sorted_wrt_drop)
qed

lemma sorted_wrt_merge:
  assumes s: "sorted_wrt P xs" and ij: "i < j" "j < length xs"
    and m: "\<And>k. k < length xs \<Longrightarrow> k \<noteq> i \<Longrightarrow> k \<noteq> j \<Longrightarrow> P (xs ! k) m \<and> P m (xs ! k)"
  shows "sorted_wrt P (remove_nth j (xs[i := m]))"
proof -
  let ?ys = "xs[i := m]"
  have len: "length (remove_nth j ?ys) = length xs - 1"
    using ij by (simp add: length_remove_nth)
  show ?thesis
    unfolding sorted_wrt_iff_nth_less
  proof (intro allI impI)
    fix a b
    assume ab: "a < b" and b: "b < length (remove_nth j ?ys)"
    define a' where "a' = (if a < j then a else Suc a)"
    define b' where "b' = (if b < j then b else Suc b)"
    from ab b len have na: "remove_nth j ?ys ! a = ?ys ! a'" and nb: "remove_nth j ?ys ! b = ?ys ! b'"
      using ij by (auto simp: nth_remove_nth a'_def b'_def)
    from ab b len have o: "a' < b'" "b' < length xs" "a' \<noteq> j" "b' \<noteq> j"
      by (auto simp: a'_def b'_def)
    show "P (remove_nth j ?ys ! a) (remove_nth j ?ys ! b)"
    proof (cases "a' = i")
      case True
      with o have "b' \<noteq> i" by simp
      with True o m [of b'] show ?thesis by (simp add: na nb)
    next
      case False
      show ?thesis
      proof (cases "b' = i")
        case True
        with False o m [of a'] show ?thesis by (simp add: na nb)
      next
        case b: False
        from s o have "P (xs ! a') (xs ! b')" by (simp add: sorted_wrt_iff_nth_less)
        with False b o show ?thesis by (simp add: na nb)
      qed
    qed
  qed
qed

text \<open>
  The entries after \<^verbatim>\<open>free_list_remove\<close>, when the call has a result, are the old
  entries without entry \<open>i\<close>.
\<close>

lemma length_entries:
  "free_list_block s \<Longrightarrow> length (entries s) = unat (free_list_size s)"
  by (auto simp: free_list_block_def entries_def split: option.splits)

lemma arr_read_entries:
  "free_list_block s \<Longrightarrow> i < unat (free_list_size s) \<Longrightarrow>
   arr_read (free_list s) i = Some (entries s ! i)"
  by (auto simp: free_list_block_def entries_def arr_read_def split: option.splits)

lemma free_list_remove_entries:
  assumes r: "free_list_remove i s = Some s'" and b: "free_list_block s"
    and i: "i < unat (free_list_size s)"
  shows "entries s' = remove_nth i (entries s) \<and> free_list_block s' \<and>
    data_size s' = data_size s \<and> free_list_size s' = free_list_size s - 1"
proof -
  let ?n = "unat (free_list_size s)"
  from i have nz: "free_list_size s \<noteq> 0" by auto
  with b obtain fl where fl: "free_list s = Some fl" and le: "?n \<le> length fl"
    by (auto simp: free_list_block_def split: option.splits)
  have lt: "?n < length fl"
  proof (rule ccontr)
    assume "\<not> ?n < length fl"
    with le have "?n = length fl" by simp
    with i have "free_list_remove_loop i ?n (Some fl) = None"
      by (rule free_list_remove_loop_full)
    with r fl show False by (simp add: free_list_remove_def)
  qed
  with i have "free_list_remove_loop i ?n (Some fl) = Some (Some (shift_down i ?n fl))"
    by (intro free_list_remove_loop_Some) auto
  with r fl have s': "s' = s\<lparr>free_list := Some (shift_down i ?n fl),
      free_list_size := free_list_size s - 1\<rparr>"
    by (simp add: free_list_remove_def)
  from nz have n1: "unat (free_list_size s - 1) = ?n - 1"
    by (simp add: unat_minus_one)
  have "take (?n - 1) (shift_down i ?n fl) = take i fl @ drop (i + 1) (take ?n fl)"
    using i le by (rule take_shift_down)
  also have "\<dots> = remove_nth i (take ?n fl)"
    using i by (simp add: remove_nth_def min_def)
  finally have "entries s' = remove_nth i (entries s)"
    by (simp add: s' entries_def fl n1)
  moreover have "length (shift_down i ?n fl) = length fl"
    by (simp add: shift_down_def)
  with le have "free_list_block s'"
    by (simp add: s' free_list_block_def n1)
  ultimately show ?thesis by (simp add: s')
qed

lemma in_set_remove_nth:
  assumes "x \<in> set (remove_nth i xs)" "i < length xs"
  shows "\<exists>k<length xs. k \<noteq> i \<and> x = xs ! k"
proof -
  from assms obtain a where a: "a < length xs - 1" "x = remove_nth i xs ! a"
    by (auto simp: in_set_conv_nth length_remove_nth)
  with assms(2) have "x = xs ! (if a < i then a else Suc a)"
    by (simp add: nth_remove_nth)
  with a(1) show ?thesis
    by (intro exI [of _ "if a < i then a else Suc a"]) auto
qed

lemma sorted_wrt_update:
  assumes s: "sorted_wrt P xs" and i: "i < length xs"
    and m: "\<And>k. k < length xs \<Longrightarrow> k \<noteq> i \<Longrightarrow> P (xs ! k) m \<and> P m (xs ! k)"
  shows "sorted_wrt P (xs[i := m])"
  unfolding sorted_wrt_iff_nth_less
proof (intro allI impI)
  fix a b
  assume ab: "a < b" and b: "b < length (xs[i := m])"
  with s have "P (xs ! a) (xs ! b)" by (simp add: sorted_wrt_iff_nth_less)
  with ab b m [of a] m [of b] show "P (xs[i := m] ! a) (xs[i := m] ! b)"
    by (cases "a = i"; cases "b = i"; simp)
qed

lemma disjoint_idx_sym: "disjoint_idx a b \<Longrightarrow> disjoint_idx b a"
  by (auto simp: disjoint_idx_def)

lemma sorted_wrt_disjoint_nth:
  assumes "sorted_wrt disjoint_idx xs" "k < length xs" "i < length xs" "k \<noteq> i"
  shows "disjoint_idx (xs ! k) (xs ! i)"
proof (cases "k < i")
  case True
  with assms show ?thesis by (simp add: sorted_wrt_iff_nth_less)
next
  case False
  with assms have "i < k" by simp
  with assms have "disjoint_idx (xs ! i) (xs ! k)" by (simp add: sorted_wrt_iff_nth_less)
  then show ?thesis by (rule disjoint_idx_sym)
qed

text \<open>The tests of the code on \<^verbatim>\<open>size_t\<close> values, as tests on natural numbers.\<close>

lemma adjacent_nat:
  fixes a b :: "64 word"
  assumes "1 \<le> unat b"
  shows "a + 1 = b \<longleftrightarrow> unat a + 1 = unat b"
proof
  assume e: "a + 1 = b"
  with assms have "1 + a \<noteq> 0" by (auto simp: add.commute)
  then have "unat (1 + a) = Suc (unat a)" by (rule unatSuc)
  with e show "unat a + 1 = unat b" by (simp add: add.commute)
next
  assume e: "unat a + 1 = unat b"
  with unat_less_2p64 [of b] have "unat a + unat (1 :: 64 word) < 2 ^ 64" by simp
  then have "unat (a + 1) = unat a + unat (1 :: 64 word)" by (rule unat_add_nowrap)
  with e show "a + 1 = b" by (simp add: word_unat_eq_iff)
qed

lemma is_valid_nat:
  "is_valid e s \<longleftrightarrow>
     1 \<le> unat (idx_start e) \<and> unat (idx_start e) \<le> unat (idx_end e) \<and>
     unat (idx_end e) \<le> unat (data_size s)"
  by (simp add: is_valid_def word_le_nat_alt)

lemma disjoint_idx_nat:
  "disjoint_idx a b \<longleftrightarrow>
     unat (idx_end a) < unat (idx_start b) \<or> unat (idx_end b) < unat (idx_start a)"
  by (simp add: disjoint_idx_def word_less_nat_alt)

lemma adjacent_valid_nat:
  assumes "is_valid a s" "is_valid b s"
  shows "idx_end a + 1 = idx_start b \<longleftrightarrow> unat (idx_end a) + 1 = unat (idx_start b)"
  using assms by (intro adjacent_nat) (simp add: is_valid_nat)

lemma merged_valid:
  "is_valid a s \<Longrightarrow> is_valid b s \<Longrightarrow> is_valid (merged a b) s"
  by (auto simp: is_valid_def merged_def)

lemma merged_disjoint:
  assumes va: "is_valid a s" and vb: "is_valid b s" and vc: "is_valid c s"
    and adj: "idx_end a + 1 = idx_start b \<or> idx_end b + 1 = idx_start a"
    and d: "disjoint_idx c a" "disjoint_idx c b"
  shows "disjoint_idx c (merged a b) \<and> disjoint_idx (merged a b) c"
proof -
  from adj va vb have
    "unat (idx_end a) + 1 = unat (idx_start b) \<or> unat (idx_end b) + 1 = unat (idx_start a)"
    by (simp add: adjacent_valid_nat)
  with va vb vc d show ?thesis
    unfolding is_valid_nat disjoint_idx_nat merged_def
    by (auto simp: word_le_nat_alt)
qed

lemma free_list_invI:
  assumes "free_list_block s" "\<And>e. e \<in> set (entries s) \<Longrightarrow> is_valid e s"
    "sorted_wrt disjoint_idx (entries s)"
  shows "free_list_inv s"
  using assms by (simp add: free_list_inv_def list_all_iff)

lemma free_list_invD:
  assumes "free_list_inv s"
  shows "free_list_block s" "length (entries s) = unat (free_list_size s)"
    "\<And>k. k < unat (free_list_size s) \<Longrightarrow> is_valid (entries s ! k) s"
    "sorted_wrt disjoint_idx (entries s)"
  using assms by (auto simp: free_list_inv_def list_all_length length_entries)

lemma entries_write:
  assumes "arr_write (free_list s) i m = Some fl'" "free_list_block s"
  shows "entries (s\<lparr>free_list := fl'\<rparr>) = (entries s)[i := m] \<and>
    free_list_block (s\<lparr>free_list := fl'\<rparr>)"
  using assms
  by (auto simp: arr_write_def entries_def free_list_block_def take_update_swap
      split: option.splits if_splits)

lemma entries_data_size [simp]:
  "entries (s\<lparr>data_size := n\<rparr>) = entries s"
  "free_list_block (s\<lparr>data_size := n\<rparr>) = free_list_block s"
  by (simp_all add: entries_def free_list_block_def split: option.splits)

text \<open>
  Each rule of \<^verbatim>\<open>free_list_compress\<close> keeps the invariant, and a pass that ends without
  a merge has found the list compacted; so the state after the loop satisfies the
  invariant and is compacted.
\<close>

lemma rule1_inv:
  assumes inv: "free_list_inv s" and i: "i < unat (free_list_size s)"
    and e: "idx_end (entries s ! i) = data_size s"
    and r: "free_list_remove i (s\<lparr>data_size := idx_start (entries s ! i) - 1\<rparr>) = Some s'"
  shows "free_list_inv s'"
proof (rule free_list_invI)
  let ?xs = "entries s"
  note d = free_list_invD [OF inv]
  from r d(1) i have s': "entries s' = remove_nth i ?xs" "free_list_block s'"
    "data_size s' = idx_start (?xs ! i) - 1"
    using free_list_remove_entries [of i "s\<lparr>data_size := idx_start (entries s ! i) - 1\<rparr>" s']
    by simp_all
  show "free_list_block s'" by fact
  from d(4) show "sorted_wrt disjoint_idx (entries s')"
    by (simp add: s' sorted_wrt_remove_nth)
  fix x assume "x \<in> set (entries s')"
  with i d(2) obtain k where k: "k < length ?xs" "k \<noteq> i" "x = ?xs ! k"
    using in_set_remove_nth [of x i ?xs] by (auto simp: s')
  with d(2,4) i have dis: "disjoint_idx (?xs ! k) (?xs ! i)"
    by (intro sorted_wrt_disjoint_nth) simp_all
  from k d(2,3) have vk: "is_valid (?xs ! k) s" by simp
  from d(3) i have vi: "is_valid (?xs ! i) s" by simp
  from vi have "unat (idx_start (?xs ! i) - 1) = unat (idx_start (?xs ! i)) - 1"
    by (rule valid_range_nat)
  with vk vi dis e show "is_valid x s'"
    unfolding is_valid_nat disjoint_idx_nat k(3) s'(3) by auto
qed

lemma rule2_merge_inv:
  assumes inv: "free_list_inv s" and ij: "i < j" "j < unat (free_list_size s)"
    and adj: "idx_end (entries s ! i) + 1 = idx_start (entries s ! j) \<or>
      idx_end (entries s ! j) + 1 = idx_start (entries s ! i)"
    and w: "arr_write (free_list s) i (merged (entries s ! i) (entries s ! j)) = Some fl'"
    and r: "free_list_remove j (s\<lparr>free_list := fl'\<rparr>) = Some s'"
  shows "free_list_inv s' \<and> data_size s' = data_size s \<and>
    entries s' = remove_nth j ((entries s)[i := merged (entries s ! i) (entries s ! j)])"
proof -
  let ?xs = "entries s"
  let ?m = "merged (?xs ! i) (?xs ! j)"
  note d = free_list_invD [OF inv]
  from w d(1) have s1: "entries (s\<lparr>free_list := fl'\<rparr>) = ?xs[i := ?m]"
    "free_list_block (s\<lparr>free_list := fl'\<rparr>)"
    using entries_write [of s i ?m fl'] by simp_all
  from r s1 ij have s': "entries s' = remove_nth j (?xs[i := ?m])" "free_list_block s'"
    "data_size s' = data_size s"
    using free_list_remove_entries [of j "s\<lparr>free_list := fl'\<rparr>" s'] by simp_all
  from d(3) ij have vi: "is_valid (?xs ! i) s" and vj: "is_valid (?xs ! j) s" by simp_all
  have "free_list_inv s'"
  proof (rule free_list_invI)
    show "free_list_block s'" by fact
    show "sorted_wrt disjoint_idx (entries s')"
      unfolding s'(1)
    proof (rule sorted_wrt_merge)
      show "sorted_wrt disjoint_idx ?xs" by fact
      show "i < j" by fact
      from ij d(2) show "j < length ?xs" by simp
      fix k assume k: "k < length ?xs" "k \<noteq> i" "k \<noteq> j"
      with d(2,3) have vk: "is_valid (?xs ! k) s" by simp
      from k d(2,4) ij have "disjoint_idx (?xs ! k) (?xs ! i)" "disjoint_idx (?xs ! k) (?xs ! j)"
        by (simp_all add: sorted_wrt_disjoint_nth)
      with vi vj vk adj show "disjoint_idx (?xs ! k) ?m \<and> disjoint_idx ?m (?xs ! k)"
        by (intro merged_disjoint)
    qed
    fix x assume "x \<in> set (entries s')"
    then have "x \<in> set (?xs[i := ?m])"
      using set_remove_nth [of j "?xs[i := ?m]"] by (auto simp: s')
    then have "x = ?m \<or> x \<in> set ?xs"
      using set_update_subset_insert [of ?xs i ?m] by auto
    moreover have "is_valid ?m s" using vi vj by (rule merged_valid)
    moreover have "x \<in> set ?xs \<Longrightarrow> is_valid x s"
      using d(2,3) by (auto simp: in_set_conv_nth)
    ultimately have "is_valid x s" by auto
    then show "is_valid x s'" by (simp add: is_valid_def s')
  qed
  with s' show ?thesis by simp
qed

lemma rule2_loop_inv:
  "rule2_loop i j s = Some (True, s') \<Longrightarrow> free_list_inv s \<Longrightarrow> i < j \<Longrightarrow>
   free_list_inv s' \<and> data_size s' = data_size s"
proof (induction i j s rule: rule2_loop.induct)
  case (1 i j s)
  let ?xs = "entries s"
  from "1.prems"(1) have j: "j < unat (free_list_size s)"
    by (auto simp: rule2_loop.simps [of i j s] split: if_splits)
  from "1.prems"(2) have b: "free_list_block s" by (rule free_list_invD)
  with j "1.prems"(3) have ri: "arr_read (free_list s) i = Some (?xs ! i)"
    and rj: "arr_read (free_list s) j = Some (?xs ! j)"
    by (simp_all add: arr_read_entries)
  show ?case
  proof (cases "idx_end (?xs ! i) + 1 = idx_start (?xs ! j) \<or>
      idx_end (?xs ! j) + 1 = idx_start (?xs ! i)")
    case True
    with "1.prems"(1) j ri rj obtain fl' where
      w: "arr_write (free_list s) i (merged (?xs ! i) (?xs ! j)) = Some fl'" and
      r: "free_list_remove j (s\<lparr>free_list := fl'\<rparr>) = Some s'"
      by (auto simp: rule2_loop.simps [of i j s] merged_def split: Option.bind_splits)
    from rule2_merge_inv [OF "1.prems"(2) "1.prems"(3) j True w r] show ?thesis by simp
  next
    case False
    with "1.prems"(1) j ri rj have "rule2_loop i (j + 1) s = Some (True, s')"
      by (simp add: rule2_loop.simps [of i j s])
    with "1.IH" [OF j ri rj False] "1.prems" show ?thesis by simp
  qed
qed

lemma rule2_loop_scan:
  "rule2_loop i j s = Some (False, s') \<Longrightarrow> free_list_block s \<Longrightarrow> i < j \<Longrightarrow>
   j \<le> l \<Longrightarrow> l < unat (free_list_size s) \<Longrightarrow>
   idx_end (entries s ! i) + 1 \<noteq> idx_start (entries s ! l) \<and>
   idx_end (entries s ! l) + 1 \<noteq> idx_start (entries s ! i)"
proof (induction i j s rule: rule2_loop.induct)
  case (1 i j s)
  let ?xs = "entries s"
  from "1.prems" have j: "j < unat (free_list_size s)" by simp
  with "1.prems" have ri: "arr_read (free_list s) i = Some (?xs ! i)"
    and rj: "arr_read (free_list s) j = Some (?xs ! j)"
    by (simp_all add: arr_read_entries)
  from "1.prems"(1) j ri rj have na: "\<not> (idx_end (?xs ! i) + 1 = idx_start (?xs ! j) \<or>
      idx_end (?xs ! j) + 1 = idx_start (?xs ! i))"
    by (auto simp: rule2_loop.simps [of i j s] split: Option.bind_splits if_splits)
  with "1.prems"(1) j ri rj have nxt: "rule2_loop i (j + 1) s = Some (False, s')"
    by (simp add: rule2_loop.simps [of i j s])
  show ?case
  proof (cases "l = j")
    case True
    with na show ?thesis by simp
  next
    case False
    with "1.prems" have "j + 1 \<le> l" by simp
    with "1.IH" [OF j ri rj na nxt] "1.prems" show ?thesis by simp
  qed
qed

lemma compress_pass_inv:
  "compress_pass i s = Some (True, s') \<Longrightarrow> free_list_inv s \<Longrightarrow> free_list_inv s'"
proof (induction i s rule: compress_pass.induct)
  case (1 i s)
  let ?xs = "entries s"
  from "1.prems"(1) have i: "i < unat (free_list_size s)"
    by (auto simp: compress_pass.simps [of i s] split: if_splits)
  from "1.prems"(2) have b: "free_list_block s" by (rule free_list_invD)
  with i have ri: "arr_read (free_list s) i = Some (?xs ! i)"
    by (simp add: arr_read_entries)
  show ?case
  proof (cases "idx_end (?xs ! i) = data_size s")
    case True
    with "1.prems"(1) i ri have
      "free_list_remove i (s\<lparr>data_size := idx_start (?xs ! i) - 1\<rparr>) = Some s'"
      by (auto simp: compress_pass.simps [of i s] split: Option.bind_splits)
    with "1.prems"(2) i True show ?thesis by (rule rule1_inv)
  next
    case False
    with "1.prems"(1) i ri obtain brk s1 where
      r2: "rule2_loop i (i + 1) s = Some (brk, s1)" and
      rest: "(if brk then Some (True, s1) else compress_pass (i + 1) s1) = Some (True, s')"
      by (auto simp: compress_pass.simps [of i s] split: Option.bind_splits)
    show ?thesis
    proof (cases brk)
      case True
      with r2 rest "1.prems"(2) show ?thesis by (auto dest: rule2_loop_inv)
    next
      case nb: False
      with r2 have "s1 = s" by (auto dest: rule2_loop_no_break)
      with nb rest r2 "1.prems"(2) "1.IH" [OF i ri False, of "(brk, s1)" brk s1]
      show ?thesis by simp
    qed
  qed
qed

lemma compress_pass_data_size:
  "compress_pass i s = Some (True, s') \<Longrightarrow> free_list_inv s \<Longrightarrow> data_size s' \<le> data_size s"
proof (induction i s rule: compress_pass.induct)
  case (1 i s)
  let ?xs = "entries s"
  from "1.prems"(1) have i: "i < unat (free_list_size s)"
    by (auto simp: compress_pass.simps [of i s] split: if_splits)
  note d = free_list_invD [OF "1.prems"(2)]
  from d(1) i have ri: "arr_read (free_list s) i = Some (?xs ! i)"
    by (simp add: arr_read_entries)
  show ?case
  proof (cases "idx_end (?xs ! i) = data_size s")
    case True
    with "1.prems"(1) i ri have
      r: "free_list_remove i (s\<lparr>data_size := idx_start (?xs ! i) - 1\<rparr>) = Some s'"
      by (auto simp: compress_pass.simps [of i s] split: Option.bind_splits)
    from r d(1) i have "data_size s' = idx_start (?xs ! i) - 1"
      using free_list_remove_entries [of i "s\<lparr>data_size := idx_start (?xs ! i) - 1\<rparr>" s']
      by simp
    moreover from d(3) i have v: "is_valid (?xs ! i) s" by simp
    moreover from v have "unat (idx_start (?xs ! i) - 1) = unat (idx_start (?xs ! i)) - 1"
      by (rule valid_range_nat)
    ultimately show ?thesis
      by (simp add: word_le_nat_alt is_valid_nat) arith
  next
    case False
    with "1.prems"(1) i ri obtain brk s1 where
      r2: "rule2_loop i (i + 1) s = Some (brk, s1)" and
      rest: "(if brk then Some (True, s1) else compress_pass (i + 1) s1) = Some (True, s')"
      by (auto simp: compress_pass.simps [of i s] split: Option.bind_splits)
    show ?thesis
    proof (cases brk)
      case True
      with r2 rest "1.prems"(2) show ?thesis by (auto dest: rule2_loop_inv)
    next
      case nb: False
      with r2 have "s1 = s" by (auto dest: rule2_loop_no_break)
      with nb rest r2 "1.prems"(2) "1.IH" [OF i ri False, of "(brk, s1)" brk s1]
      show ?thesis by simp
    qed
  qed
qed

lemma compress_pass_no_merge:
  "compress_pass i s = Some (False, s') \<Longrightarrow> s' = s"
proof (induction i s rule: compress_pass.induct)
  case (1 i s)
  show ?case
  proof (cases "i < unat (free_list_size s)")
    case False
    with "1.prems" show ?thesis by (simp add: compress_pass.simps [of i s])
  next
    case True
    with "1.prems" obtain ei where ri: "arr_read (free_list s) i = Some ei"
      by (auto simp: compress_pass.simps [of i s] split: Option.bind_splits)
    from "1.prems" True ri have ne: "idx_end ei \<noteq> data_size s"
      by (auto simp: compress_pass.simps [of i s] split: Option.bind_splits if_splits)
    with "1.prems" True ri obtain brk s1 where
      r2: "rule2_loop i (i + 1) s = Some (brk, s1)" and
      rest: "(if brk then Some (True, s1) else compress_pass (i + 1) s1) = Some (False, s')"
      by (auto simp: compress_pass.simps [of i s] split: Option.bind_splits)
    from rest have nb: "\<not> brk" by (auto split: if_splits)
    with r2 have s1: "s1 = s" by (auto dest: rule2_loop_no_break)
    with "1.IH" [OF True ri ne, of "(brk, s1)" brk s1] r2 nb rest show ?thesis by simp
  qed
qed

lemma compress_pass_scan:
  "compress_pass i s = Some (False, s') \<Longrightarrow> free_list_block s \<Longrightarrow>
   i \<le> k \<Longrightarrow> k < unat (free_list_size s) \<Longrightarrow>
   idx_end (entries s ! k) \<noteq> data_size s \<and>
   (\<forall>l. k < l \<and> l < unat (free_list_size s) \<longrightarrow>
      idx_end (entries s ! k) + 1 \<noteq> idx_start (entries s ! l) \<and>
      idx_end (entries s ! l) + 1 \<noteq> idx_start (entries s ! k))"
proof (induction i s rule: compress_pass.induct)
  case (1 i s)
  let ?xs = "entries s"
  from "1.prems" have i: "i < unat (free_list_size s)" by simp
  with "1.prems" have ri: "arr_read (free_list s) i = Some (?xs ! i)"
    by (simp add: arr_read_entries)
  from "1.prems"(1) i ri have ne: "idx_end (?xs ! i) \<noteq> data_size s"
    by (auto simp: compress_pass.simps [of i s] split: Option.bind_splits if_splits)
  with "1.prems"(1) i ri obtain brk s1 where
    r2: "rule2_loop i (i + 1) s = Some (brk, s1)" and
    rest: "(if brk then Some (True, s1) else compress_pass (i + 1) s1) = Some (False, s')"
    by (auto simp: compress_pass.simps [of i s] split: Option.bind_splits)
  from rest have nb: "\<not> brk" by (auto split: if_splits)
  with r2 have s1: "s1 = s" by (auto dest: rule2_loop_no_break)
  from nb rest s1 have nxt: "compress_pass (i + 1) s = Some (False, s')" by simp
  show ?case
  proof (cases "k = i")
    case True
    have "\<forall>l. k < l \<and> l < unat (free_list_size s) \<longrightarrow>
      idx_end (?xs ! k) + 1 \<noteq> idx_start (?xs ! l) \<and>
      idx_end (?xs ! l) + 1 \<noteq> idx_start (?xs ! k)"
    proof (intro allI impI)
      fix l assume "k < l \<and> l < unat (free_list_size s)"
      with True r2 nb s1 "1.prems"(2)
      show "idx_end (?xs ! k) + 1 \<noteq> idx_start (?xs ! l) \<and>
        idx_end (?xs ! l) + 1 \<noteq> idx_start (?xs ! k)"
        using rule2_loop_scan [of i "i + 1" s s l] by simp
    qed
    with ne True show ?thesis by simp
  next
    case False
    with "1.prems" have "i + 1 \<le> k" by simp
    with "1.IH" [OF i ri ne, of "(brk, s1)" brk s1] r2 nb s1 nxt "1.prems" show ?thesis
      by simp
  qed
qed

lemma compress_pass_fixpoint:
  assumes "compress_pass 0 s = Some (False, s')" "free_list_inv s"
  shows "s' = s \<and> compacted s"
proof -
  let ?xs = "entries s"
  let ?n = "unat (free_list_size s)"
  note d = free_list_invD [OF assms(2)]
  from assms(1) have s': "s' = s" by (rule compress_pass_no_merge)
  have scan: "idx_end (?xs ! k) \<noteq> data_size s \<and>
     (\<forall>l. k < l \<and> l < ?n \<longrightarrow>
        idx_end (?xs ! k) + 1 \<noteq> idx_start (?xs ! l) \<and>
        idx_end (?xs ! l) + 1 \<noteq> idx_start (?xs ! k))" if "k < ?n" for k
    using compress_pass_scan [OF assms(1) d(1), of k] that by simp
  have "idx_end (?xs ! k) + 1 \<noteq> idx_start (?xs ! l)" if k: "k < ?n" and l: "l < ?n" for k l
  proof -
    consider "k < l" | "l < k" | "k = l" by arith
    then show ?thesis
    proof cases
      case 1
      with scan [OF k] l show ?thesis by simp
    next
      case 2
      with scan [OF l] k show ?thesis by simp
    next
      case 3
      from d(3) k have v: "is_valid (?xs ! k) s" by simp
      then have "idx_end (?xs ! k) + 1 = idx_start (?xs ! k) \<longleftrightarrow>
        unat (idx_end (?xs ! k)) + 1 = unat (idx_start (?xs ! k))"
        by (intro adjacent_valid_nat)
      with v 3 show ?thesis by (simp add: is_valid_nat)
    qed
  qed
  with scan d(2) have "compacted s"
    by (simp add: compacted_def list_all_length)
  with s' show ?thesis by simp
qed

lemma free_list_compress_inv:
  "free_list_compress s = Some s' \<Longrightarrow> free_list_inv s \<Longrightarrow>
   free_list_inv s' \<and> compacted s' \<and> data_size s' \<le> data_size s"
proof (induction s rule: free_list_compress.induct)
  case (1 s)
  from "1.prems"(1) obtain m s1 where
    p: "compress_pass 0 s = Some (m, s1)" and
    rest: "(if m then free_list_compress s1 else Some s1) = Some s'"
    by (auto simp: free_list_compress.simps [of s] split: Option.bind_splits)
  show ?case
  proof (cases m)
    case True
    with p "1.prems"(2) have "free_list_inv s1" "data_size s1 \<le> data_size s"
      by (auto dest: compress_pass_inv compress_pass_data_size)
    with "1.IH" [of "(m, s1)" m s1] p True rest show ?thesis by auto
  next
    case False
    with p "1.prems"(2) have "s1 = s \<and> compacted s"
      by (intro compress_pass_fixpoint) simp_all
    with False rest "1.prems"(2) show ?thesis by simp
  qed
qed

text \<open>\<^verbatim>\<open>mex_mpfr_mark_free\<close> and \<^verbatim>\<open>mex_mpfr_allocate\<close> keep the invariant.\<close>

lemma free_list_inv_frame:
  assumes "free_list_inv s" "free_list_block s2" "entries s2 = entries s"
    "data_size s \<le> data_size s2"
  shows "free_list_inv s2"
proof (rule free_list_invI)
  show "free_list_block s2" by fact
  from assms(1,3) show "sorted_wrt disjoint_idx (entries s2)"
    by (simp add: free_list_inv_def)
  fix e assume "e \<in> set (entries s2)"
  with assms(1,3) have "is_valid e s" by (simp add: free_list_inv_def list_all_iff)
  with assms(4) show "is_valid e s2" by (auto simp: is_valid_def)
qed

lemma entries_append:
  assumes w: "arr_write (free_list s) (unat (free_list_size s)) e = Some fl"
    and nz: "free_list_size s + 1 \<noteq> 0"
  shows "entries (s\<lparr>data := d, free_list := fl, free_list_size := free_list_size s + 1\<rparr>) =
      entries s @ [e] \<and>
    free_list_block (s\<lparr>data := d, free_list := fl, free_list_size := free_list_size s + 1\<rparr>)"
proof -
  let ?n = "unat (free_list_size s)"
  from w obtain xs where xs: "free_list s = Some xs" "?n < length xs" "fl = Some (xs[?n := e])"
    by (auto simp: arr_write_def split: option.splits if_splits)
  from nz have "1 + free_list_size s \<noteq> 0" by (simp add: add.commute)
  then have "unat (1 + free_list_size s) = Suc ?n" by (rule unatSuc)
  then have n1: "unat (free_list_size s + 1) = Suc ?n" by (simp add: add.commute)
  from xs(2) have "take (Suc ?n) (xs[?n := e]) = take ?n xs @ [e]"
    by (simp add: take_Suc_conv_app_nth)
  with xs n1 show ?thesis
    by (simp add: entries_def free_list_block_def)
qed

lemma mark_free_append_inv:
  assumes r: "mark_free_append E idx s = Some s'" and inv: "free_list_inv s"
    and v: "is_valid idx s" and dis: "list_all (\<lambda>e. disjoint_idx e idx) (entries s)"
  shows "free_list_inv s' \<and> compacted s' \<and> data_size s' \<le> data_size s"
proof -
  have idx: "\<lparr>idx_start = idx_start idx, idx_end = idx_end idx\<rparr> = idx" by simp
  from r obtain d fl where
    w: "arr_write (free_list s) (unat (free_list_size s)) idx = Some fl" and
    c: "free_list_compress
      (s\<lparr>data := d, free_list := fl, free_list_size := free_list_size s + 1\<rparr>) = Some s'"
    unfolding mark_free_append_def idx by (auto split: Option.bind_splits)
  let ?s1 = "s\<lparr>data := d, free_list := fl, free_list_size := free_list_size s + 1\<rparr>"
  have "free_list_inv ?s1"
  proof (cases "free_list_size s + 1 = 0")
    case True
    with w show ?thesis
      by (auto simp: free_list_inv_def free_list_block_def entries_def arr_write_def
          split: option.splits if_splits)
  next
    case False
    with w have e: "entries ?s1 = entries s @ [idx]" "free_list_block ?s1"
      using entries_append [of s idx fl d] by simp_all
    show ?thesis
    proof (rule free_list_invI)
      show "free_list_block ?s1" by fact
      from inv dis show "sorted_wrt disjoint_idx (entries ?s1)"
        by (simp add: e sorted_wrt_append free_list_inv_def list_all_iff)
      fix x assume "x \<in> set (entries ?s1)"
      with inv v have "is_valid x s"
        by (auto simp: e free_list_inv_def list_all_iff)
      then show "is_valid x ?s1" by (simp add: is_valid_def)
    qed
  qed
  with c show ?thesis by (auto dest: free_list_compress_inv)
qed

lemma mark_free_append_room:
  assumes "mark_free_append E idx s = Some s'" "free_list s = Some xs"
  shows "unat (free_list_size s) < length xs"
  using assms
  by (auto simp: mark_free_append_def arr_write_def split: Option.bind_splits if_splits)

lemma mex_mpfr_mark_free_inv:
  assumes r: "mex_mpfr_mark_free E idx s = Some s'" and inv: "free_list_inv s"
    and ok: "free_list_size s = free_list_capacity s \<longrightarrow> alloc_ok E"
    and dis: "list_all (\<lambda>e. disjoint_idx e idx) (entries s)"
  shows "free_list_inv s' \<and> (is_valid idx s \<longrightarrow> compacted s')"
proof (cases "is_valid idx s")
  case False
  with r inv show ?thesis by (simp add: mex_mpfr_mark_free_def)
next
  case v: True
  show ?thesis
  proof (cases "free_list_size s = free_list_capacity s")
    case False
    with r v have "mark_free_append E idx s = Some s'"
      by (simp add: mex_mpfr_mark_free_def)
    with inv v dis show ?thesis by (auto dest: mark_free_append_inv)
  next
    case True
    with ok have a: "alloc_ok E" by simp
    let ?c = "free_list_capacity s + DATA_CHUNK_SIZE"
    let ?n = "unat (free_list_size s)"
    define new where "new = (case free_list s of
        None \<Rightarrow> replicate (unat ?c) (uninit_idx E)
      | Some xs \<Rightarrow> take (unat ?c) xs @ replicate (unat ?c - length xs) (uninit_idx E))"
    let ?s2 = "s\<lparr>free_list := Some new, free_list_capacity := ?c\<rparr>"
    from r v True a have m: "mark_free_append E idx ?s2 = Some s'"
      by (simp add: mex_mpfr_mark_free_def Let_def mxMalloc_def mxRealloc_def new_def
          split: option.splits)
    then have room: "?n < length new"
      using mark_free_append_room [of E idx ?s2 s' new] by simp
    have len: "length new = unat ?c"
      by (auto simp: new_def min_def split: option.splits)
    from inv have b: "free_list_block s" by (rule free_list_invD)
    have e: "entries ?s2 = entries s"
    proof (cases "free_list s")
      case None
      with b show ?thesis by (simp add: entries_def free_list_block_def)
    next
      case (Some xs)
      with b have "?n \<le> length xs" by (simp add: free_list_block_def)
      with room len Some show ?thesis
        by (simp add: entries_def new_def min_def)
    qed
    from room have b2: "free_list_block ?s2" by (simp add: free_list_block_def)
    from inv b2 e have "free_list_inv ?s2" by (rule free_list_inv_frame) simp
    moreover from v have "is_valid idx ?s2" by (simp add: is_valid_def)
    moreover from dis e have "list_all (\<lambda>e. disjoint_idx e idx) (entries ?s2)" by simp
    ultimately show ?thesis using m by (auto dest: mark_free_append_inv)
  qed
qed

lemma free_list_remove_inv:
  assumes r: "free_list_remove i s = Some s'" and inv: "free_list_inv s"
    and i: "i < unat (free_list_size s)"
  shows "free_list_inv s'"
proof (rule free_list_invI)
  note d = free_list_invD [OF inv]
  from r d(1) i have s': "entries s' = remove_nth i (entries s)" "free_list_block s'"
    "data_size s' = data_size s"
    using free_list_remove_entries [of i s s'] by simp_all
  show "free_list_block s'" by fact
  from d(4) show "sorted_wrt disjoint_idx (entries s')"
    by (simp add: s' sorted_wrt_remove_nth)
  fix x assume "x \<in> set (entries s')"
  with set_remove_nth [of i "entries s"] have "x \<in> set (entries s)" by (auto simp: s')
  with inv have "is_valid x s" by (simp add: free_list_inv_def list_all_iff)
  then show "is_valid x s'" by (simp add: is_valid_def s')
qed

lemma shrink_valid:
  assumes v: "is_valid e s" and c: "count < length_idx e"
  shows "is_valid (e\<lparr>idx_start := idx_start e + count\<rparr>) s"
    "unat (idx_start e + count) = unat (idx_start e) + unat count"
proof -
  from v have len: "unat (length_idx e) = unat (idx_end e) - unat (idx_start e) + 1"
    by (rule valid_range_nat)
  from c have "unat count < unat (length_idx e)" by (simp add: word_less_nat_alt)
  with len v have le: "unat (idx_start e) + unat count \<le> unat (idx_end e)"
    unfolding is_valid_nat by arith
  with unat_less_2p64 [of "idx_end e"] have "unat (idx_start e) + unat count < 2 ^ 64"
    by simp
  then show u: "unat (idx_start e + count) = unat (idx_start e) + unat count"
    by (rule unat_add_nowrap)
  with v le show "is_valid (e\<lparr>idx_start := idx_start e + count\<rparr>) s"
    by (simp add: is_valid_nat)
qed

lemma shrink_inv:
  assumes w: "arr_write (free_list s) i (e\<lparr>idx_start := idx_start e + count\<rparr>) = Some fl'"
    and inv: "free_list_inv s" and i: "i < unat (free_list_size s)"
    and e: "e = entries s ! i" and c: "count < length_idx e"
  shows "free_list_inv (s\<lparr>free_list := fl'\<rparr>)"
proof (rule free_list_invI)
  let ?xs = "entries s"
  let ?e' = "e\<lparr>idx_start := idx_start e + count\<rparr>"
  note d = free_list_invD [OF inv]
  from w d(1) have s': "entries (s\<lparr>free_list := fl'\<rparr>) = ?xs[i := ?e']"
    "free_list_block (s\<lparr>free_list := fl'\<rparr>)"
    using entries_write [of s i ?e' fl'] by simp_all
  from d(3) i e have v: "is_valid e s" by simp
  note sh = shrink_valid [OF v c]
  show "free_list_block (s\<lparr>free_list := fl'\<rparr>)" by fact
  show "sorted_wrt disjoint_idx (entries (s\<lparr>free_list := fl'\<rparr>))"
    unfolding s'(1)
  proof (rule sorted_wrt_update)
    show "sorted_wrt disjoint_idx ?xs" by fact
    from i d(2) show "i < length ?xs" by simp
    fix k assume k: "k < length ?xs" "k \<noteq> i"
    with d(2,4) i e have "disjoint_idx (?xs ! k) e"
      by (simp add: sorted_wrt_disjoint_nth)
    with sh(2) show "disjoint_idx (?xs ! k) ?e' \<and> disjoint_idx ?e' (?xs ! k)"
      by (auto simp: disjoint_idx_nat)
  qed
  fix x assume "x \<in> set (entries (s\<lparr>free_list := fl'\<rparr>))"
  then have "x = ?e' \<or> x \<in> set ?xs"
    using set_update_subset_insert [of ?xs i ?e'] by (auto simp: s')
  moreover have "x \<in> set ?xs \<Longrightarrow> is_valid x s"
    using inv by (simp add: free_list_inv_def list_all_iff)
  ultimately have "is_valid x s" using sh(1) by auto
  then show "is_valid x (s\<lparr>free_list := fl'\<rparr>)" by (simp add: is_valid_def)
qed

lemma reuse_loop_inv:
  "reuse_loop i count s = Some (Returns (r, idx, s')) \<Longrightarrow> free_list_inv s \<Longrightarrow>
   free_list_inv s'"
proof (induction i count s rule: reuse_loop.induct)
  case (1 i count s)
  let ?e = "entries s ! i"
  from "1.prems"(1) have i: "i < unat (free_list_size s)"
    by (auto simp: reuse_loop.simps [of i count s] split: if_splits)
  from "1.prems"(2) have b: "free_list_block s" by (rule free_list_invD)
  with i have ri: "arr_read (free_list s) i = Some ?e"
    by (simp add: arr_read_entries)
  show ?case
  proof (cases "count \<le> length_idx ?e")
    case False
    with "1.prems"(1) i ri have "reuse_loop (i + 1) count s = Some (Returns (r, idx, s'))"
      by (simp add: reuse_loop.simps [of i count s])
    with "1.IH" [OF i ri False] "1.prems"(2) show ?thesis by simp
  next
    case True
    show ?thesis
    proof (cases "count < length_idx ?e")
      case lt: True
      with "1.prems"(1) i ri True obtain fl' where
        w: "arr_write (free_list s) i (?e\<lparr>idx_start := idx_start ?e + count\<rparr>) = Some fl'"
        and s': "s' = s\<lparr>free_list := fl'\<rparr>"
        by (auto simp: reuse_loop.simps [of i count s] Let_def split: Option.bind_splits)
      from w "1.prems"(2) i refl lt show ?thesis
        unfolding s' by (rule shrink_inv)
    next
      case False
      with "1.prems"(1) i ri True have "free_list_remove i s = Some s'"
        by (auto simp: reuse_loop.simps [of i count s] Let_def split: Option.bind_splits)
      with "1.prems"(2) i show ?thesis by (auto dest: free_list_remove_inv)
    qed
  qed
qed

lemma mex_mpfr_allocate_inv:
  assumes r: "mex_mpfr_allocate E count idx s = Some (b, idx', s')"
    and inv: "free_list_inv s" and no: "unat (data_size s) + unat count < 2 ^ 64"
  shows "free_list_inv s'"
proof (cases "count = 0")
  case True
  with r inv show ?thesis by (simp add: mex_mpfr_allocate_def)
next
  case nz: False
  with r obtain x where x: "reuse_loop 0 count s = Some x"
    by (auto simp: mex_mpfr_allocate_def split: Option.bind_splits)
  show ?thesis
  proof (cases x)
    case (Returns y)
    with r nz x have "reuse_loop 0 count s = Some (Returns (b, idx', s'))"
      by (simp add: mex_mpfr_allocate_def)
    from this inv show ?thesis by (rule reuse_loop_inv)
  next
    case Loop_done
    from no have "unat (data_size s + count) = unat (data_size s) + unat count"
      by (rule unat_add_nowrap)
    then have le: "data_size s \<le> data_size s + count"
      by (simp add: word_le_nat_alt)
    from inv have blk: "free_list_block s" by (rule free_list_invD)
    from r nz x Loop_done have
      "free_list s' = free_list s \<and> free_list_size s' = free_list_size s \<and>
       (data_size s' = data_size s \<or> data_size s' = data_size s + count)"
      by (auto simp: mex_mpfr_allocate_def allocate_new_def Let_def
          split: Option.bind_splits if_splits option.splits)
    with le blk have "free_list_block s'" "entries s' = entries s" "data_size s \<le> data_size s'"
      by (auto simp: free_list_block_def entries_def split: option.splits)
    with inv show ?thesis by (rule free_list_inv_frame)
  qed
qed

subsection \<open>What the calls compute on a compacted free list\<close>

lemma frame_refl [simp]: "frame s s"
  by (simp add: frame_def)

lemma frame_trans: "frame s t \<Longrightarrow> frame t u \<Longrightarrow> frame s u"
  by (simp add: frame_def)

lemma free_list_block_len: "free_list_block s \<longleftrightarrow> unat (free_list_size s) \<le> fl_len s"
  by (auto simp: free_list_block_def fl_len_def unat_eq_zero split: option.splits)

text \<open>
  The results of the loops of \<^verbatim>\<open>free_list_compress\<close>, for a free list whose block
  has an element after the last entry: the loops skip the entries that no rule applies
  to, and apply a rule to the first entry that one applies to. On a compacted list the
  function changes nothing.
\<close>

lemma free_list_remove_fwd:
  assumes i: "i < unat (free_list_size s)" and room: "unat (free_list_size s) < fl_len s"
  shows "\<exists>s'. free_list_remove i s = Some s' \<and> entries s' = remove_nth i (entries s) \<and>
    free_list_block s' \<and> data_size s' = data_size s \<and>
    free_list_size s' = free_list_size s - 1 \<and> frame s s'"
proof -
  let ?n = "unat (free_list_size s)"
  from room obtain fl where fl: "free_list s = Some fl" "?n < length fl"
    by (auto simp: fl_len_def split: option.splits)
  with i have "free_list_remove_loop i ?n (Some fl) = Some (Some (shift_down i ?n fl))"
    by (intro free_list_remove_loop_Some) auto
  with fl have r: "free_list_remove i s = Some (s\<lparr>free_list := Some (shift_down i ?n fl),
      free_list_size := free_list_size s - 1\<rparr>)"
    by (simp add: free_list_remove_def)
  from room have b: "free_list_block s" by (simp add: free_list_block_len)
  from free_list_remove_entries [OF r b i] r fl show ?thesis
    by (simp add: frame_def fl_len_def data_len_def shift_down_def)
qed

lemma rule2_loop_skip:
  assumes b: "free_list_block s" and ij: "i < j"
    and q: "\<And>l. j \<le> l \<Longrightarrow> l < unat (free_list_size s) \<Longrightarrow>
      \<not> adjacent_idx (entries s ! i) (entries s ! l)"
  shows "rule2_loop i j s = Some (False, s)"
  using ij q
proof (induction "unat (free_list_size s) - j" arbitrary: j)
  case 0
  then show ?case by (simp add: rule2_loop.simps [of i j s])
next
  case (Suc d)
  then have j: "j < unat (free_list_size s)" by simp
  with b Suc.prems(1) have r: "arr_read (free_list s) i = Some (entries s ! i)"
    "arr_read (free_list s) j = Some (entries s ! j)"
    by (simp_all add: arr_read_entries)
  from Suc.prems(2) [of j] j have na: "\<not> adjacent_idx (entries s ! i) (entries s ! j)" by simp
  have "rule2_loop i (j + 1) s = Some (False, s)"
  proof (rule Suc.hyps(1))
    from Suc.hyps(2) show "d = unat (free_list_size s) - (j + 1)" by simp
    from Suc.prems(1) show "i < j + 1" by simp
    fix l assume "j + 1 \<le> l" "l < unat (free_list_size s)"
    then show "\<not> adjacent_idx (entries s ! i) (entries s ! l)"
      using Suc.prems(2) [of l] by simp
  qed
  with j r na show ?case
    by (simp add: rule2_loop.simps [of i j s] adjacent_idx_def)
qed

lemma rule2_loop_hit:
  assumes b: "free_list_block s" and ij: "i < j" "j \<le> j0" and j0: "j0 < unat (free_list_size s)"
    and q: "\<And>l. j \<le> l \<Longrightarrow> l < j0 \<Longrightarrow> \<not> adjacent_idx (entries s ! i) (entries s ! l)"
    and a: "adjacent_idx (entries s ! i) (entries s ! j0)"
  shows "rule2_loop i j s = do {
      fl' \<leftarrow> arr_write (free_list s) i (merged (entries s ! i) (entries s ! j0));
      s' \<leftarrow> free_list_remove j0 (s\<lparr>free_list := fl'\<rparr>);
      Some (True, s')
    }"
  using ij q
proof (induction "j0 - j" arbitrary: j)
  case 0
  then have e: "j = j0" by simp
  from b j0 ij 0 have r: "arr_read (free_list s) i = Some (entries s ! i)"
    "arr_read (free_list s) j0 = Some (entries s ! j0)"
    by (simp_all add: arr_read_entries)
  from a r j0 show ?case
    unfolding e by (simp add: rule2_loop.simps [of i j0 s] adjacent_idx_def merged_def)
next
  case (Suc d)
  then have j: "j < j0" by simp
  with j0 b Suc.prems(1) have r: "arr_read (free_list s) i = Some (entries s ! i)"
    "arr_read (free_list s) j = Some (entries s ! j)"
    by (simp_all add: arr_read_entries)
  from Suc.prems(3) [of j] j have na: "\<not> adjacent_idx (entries s ! i) (entries s ! j)" by simp
  have "rule2_loop i (j + 1) s = do {
      fl' \<leftarrow> arr_write (free_list s) i (merged (entries s ! i) (entries s ! j0));
      s' \<leftarrow> free_list_remove j0 (s\<lparr>free_list := fl'\<rparr>);
      Some (True, s')
    }"
  proof (rule Suc.hyps(1))
    from Suc.hyps(2) show "d = j0 - (j + 1)" by simp
    from Suc.prems(1) show "i < j + 1" by simp
    from j show "j + 1 \<le> j0" by simp
    fix l assume "j + 1 \<le> l" "l < j0"
    then show "\<not> adjacent_idx (entries s ! i) (entries s ! l)"
      using Suc.prems(3) [of l] by simp
  qed
  with j j0 r na show ?case
    by (simp add: rule2_loop.simps [of i j s] adjacent_idx_def)
qed

lemma merge_fwd:
  assumes b: "free_list_block s" and ij: "i < j0" "j0 < unat (free_list_size s)"
    and room: "unat (free_list_size s) < fl_len s"
  shows "\<exists>s'. do {
      fl' \<leftarrow> arr_write (free_list s) i m;
      s' \<leftarrow> free_list_remove j0 (s\<lparr>free_list := fl'\<rparr>);
      Some (True, s')
    } = Some (True, s') \<and>
    entries s' = remove_nth j0 ((entries s)[i := m]) \<and> free_list_block s' \<and>
    data_size s' = data_size s \<and> free_list_size s' = free_list_size s - 1 \<and> frame s s'"
proof -
  from room obtain fl where fl: "free_list s = Some fl" "unat (free_list_size s) < length fl"
    by (auto simp: fl_len_def split: option.splits)
  with ij have w: "arr_write (free_list s) i m = Some (Some (fl[i := m]))"
    by (simp add: arr_write_def)
  let ?s1 = "s\<lparr>free_list := Some (fl[i := m])\<rparr>"
  from entries_write [OF w b] have e1: "entries ?s1 = (entries s)[i := m]" by simp
  from fl have f1: "frame s ?s1" by (simp add: frame_def fl_len_def data_len_def)
  from ij room f1 have "\<exists>s'. free_list_remove j0 ?s1 = Some s' \<and>
    entries s' = remove_nth j0 (entries ?s1) \<and>
    free_list_block s' \<and> data_size s' = data_size ?s1 \<and>
    free_list_size s' = free_list_size ?s1 - 1 \<and> frame ?s1 s'"
    by (intro free_list_remove_fwd) (simp_all add: frame_def)
  then obtain s' where "free_list_remove j0 ?s1 = Some s'"
    "entries s' = remove_nth j0 (entries ?s1)"
    "free_list_block s'" "data_size s' = data_size ?s1"
    "free_list_size s' = free_list_size ?s1 - 1" "frame ?s1 s'"
    by blast
  with w e1 f1 show ?thesis
    by (intro exI [of _ s']) (auto intro: frame_trans)
qed

lemma compress_pass_skip:
  assumes b: "free_list_block s" and i: "i \<le> i0" "i0 \<le> unat (free_list_size s)"
    and q1: "\<And>k. i \<le> k \<Longrightarrow> k < i0 \<Longrightarrow> idx_end (entries s ! k) \<noteq> data_size s"
    and q2: "\<And>k l. i \<le> k \<Longrightarrow> k < i0 \<Longrightarrow> k < l \<Longrightarrow> l < unat (free_list_size s) \<Longrightarrow>
      \<not> adjacent_idx (entries s ! k) (entries s ! l)"
  shows "compress_pass i s = compress_pass i0 s"
  using i(1) q1 q2
proof (induction "i0 - i" arbitrary: i)
  case 0
  then show ?case by simp
next
  case (Suc d)
  then have lt: "i < i0" by simp
  with i(2) have n: "i < unat (free_list_size s)" by simp
  with b have r: "arr_read (free_list s) i = Some (entries s ! i)"
    by (simp add: arr_read_entries)
  from Suc.prems(2) [of i] lt have ne: "idx_end (entries s ! i) \<noteq> data_size s" by simp
  have r2: "rule2_loop i (i + 1) s = Some (False, s)"
  proof (rule rule2_loop_skip [OF b])
    show "i < i + 1" by simp
    fix l assume "i + 1 \<le> l" "l < unat (free_list_size s)"
    with lt show "\<not> adjacent_idx (entries s ! i) (entries s ! l)"
      using Suc.prems(3) [of i l] by simp
  qed
  have "compress_pass (i + 1) s = compress_pass i0 s"
  proof (rule Suc.hyps(1))
    from Suc.hyps(2) show "d = i0 - (i + 1)" by simp
    from lt show "i + 1 \<le> i0" by simp
    fix k assume k: "i + 1 \<le> k" "k < i0"
    then show "idx_end (entries s ! k) \<noteq> data_size s" using Suc.prems(2) [of k] by simp
    fix l assume "k < l" "l < unat (free_list_size s)"
    with k show "\<not> adjacent_idx (entries s ! k) (entries s ! l)"
      using Suc.prems(3) [of k l] by simp
  qed
  with n r ne r2 show ?case
    by (simp add: compress_pass.simps [of i s])
qed

lemma compacted_nth:
  assumes "compacted s" "free_list_block s" "k < unat (free_list_size s)"
  shows "idx_end (entries s ! k) \<noteq> data_size s"
    "l < unat (free_list_size s) \<Longrightarrow> \<not> adjacent_idx (entries s ! k) (entries s ! l)"
  using assms by (auto simp: compacted_def list_all_length length_entries adjacent_idx_def)

lemma free_list_compress_fix:
  assumes b: "free_list_block s" and c: "compacted s"
  shows "free_list_compress s = Some s"
proof -
  let ?n = "unat (free_list_size s)"
  have "compress_pass 0 s = compress_pass ?n s"
    using b
  proof (rule compress_pass_skip)
    fix k assume k: "k < ?n"
    with c b show "idx_end (entries s ! k) \<noteq> data_size s" by (simp add: compacted_nth)
    fix l assume "l < ?n"
    with c b k show "\<not> adjacent_idx (entries s ! k) (entries s ! l)"
      by (simp add: compacted_nth)
  qed simp_all
  also have "\<dots> = Some (False, s)" by (simp add: compress_pass.simps [of ?n s])
  finally show ?thesis by (simp add: free_list_compress.simps [of s])
qed

lemma compress_pass_rule1_fwd:
  assumes b: "free_list_block s" and i0: "i0 < unat (free_list_size s)"
    and room: "unat (free_list_size s) < fl_len s"
    and q1: "\<And>k. k < i0 \<Longrightarrow> idx_end (entries s ! k) \<noteq> data_size s"
    and q2: "\<And>k l. k < i0 \<Longrightarrow> k < l \<Longrightarrow> l < unat (free_list_size s) \<Longrightarrow>
      \<not> adjacent_idx (entries s ! k) (entries s ! l)"
    and hit: "idx_end (entries s ! i0) = data_size s"
  shows "\<exists>s'. compress_pass 0 s = Some (True, s') \<and>
    entries s' = remove_nth i0 (entries s) \<and> free_list_block s' \<and>
    data_size s' = idx_start (entries s ! i0) - 1 \<and>
    free_list_size s' = free_list_size s - 1 \<and> frame s s'"
proof -
  let ?s1 = "s\<lparr>data_size := idx_start (entries s ! i0) - 1\<rparr>"
  have "compress_pass 0 s = compress_pass i0 s"
    using b i0 q1 q2 by (intro compress_pass_skip) simp_all
  moreover from b i0 have "arr_read (free_list s) i0 = Some (entries s ! i0)"
    by (simp add: arr_read_entries)
  ultimately have c: "compress_pass 0 s = do {
      s' \<leftarrow> free_list_remove i0 ?s1; Some (True, s') }"
    using i0 hit by (simp add: compress_pass.simps [of i0 s])
  from i0 room have "\<exists>s'. free_list_remove i0 ?s1 = Some s' \<and>
    entries s' = remove_nth i0 (entries ?s1) \<and>
    free_list_block s' \<and> data_size s' = data_size ?s1 \<and>
    free_list_size s' = free_list_size ?s1 - 1 \<and> frame ?s1 s'"
    by (intro free_list_remove_fwd) (simp_all add: fl_len_def)
  then obtain s' where "free_list_remove i0 ?s1 = Some s'"
    "entries s' = remove_nth i0 (entries ?s1)"
    "free_list_block s'" "data_size s' = data_size ?s1"
    "free_list_size s' = free_list_size ?s1 - 1" "frame ?s1 s'"
    by blast
  with c show ?thesis
    by (intro exI [of _ s']) (simp add: frame_def fl_len_def data_len_def)
qed

lemma compress_pass_rule2_fwd:
  assumes b: "free_list_block s" and ij: "i0 < j0" "j0 < unat (free_list_size s)"
    and room: "unat (free_list_size s) < fl_len s"
    and q1: "\<And>k. k \<le> i0 \<Longrightarrow> idx_end (entries s ! k) \<noteq> data_size s"
    and q2: "\<And>k l. k < i0 \<Longrightarrow> k < l \<Longrightarrow> l < unat (free_list_size s) \<Longrightarrow>
      \<not> adjacent_idx (entries s ! k) (entries s ! l)"
    and q3: "\<And>l. i0 < l \<Longrightarrow> l < j0 \<Longrightarrow> \<not> adjacent_idx (entries s ! i0) (entries s ! l)"
    and hit: "adjacent_idx (entries s ! i0) (entries s ! j0)"
  shows "\<exists>s'. compress_pass 0 s = Some (True, s') \<and>
    entries s' = remove_nth j0 ((entries s)[i0 := merged (entries s ! i0) (entries s ! j0)]) \<and>
    free_list_block s' \<and> data_size s' = data_size s \<and>
    free_list_size s' = free_list_size s - 1 \<and> frame s s'"
proof -
  let ?m = "merged (entries s ! i0) (entries s ! j0)"
  from ij have i0: "i0 < unat (free_list_size s)" by simp
  have "compress_pass 0 s = compress_pass i0 s"
    using b i0 q1 q2 by (intro compress_pass_skip) simp_all
  moreover from b i0 have "arr_read (free_list s) i0 = Some (entries s ! i0)"
    by (simp add: arr_read_entries)
  moreover have "rule2_loop i0 (i0 + 1) s = do {
      fl' \<leftarrow> arr_write (free_list s) i0 ?m;
      s' \<leftarrow> free_list_remove j0 (s\<lparr>free_list := fl'\<rparr>);
      Some (True, s')
    }"
    using b ij q3 hit by (intro rule2_loop_hit) simp_all
  moreover from merge_fwd [OF b ij room, of ?m] obtain s' where s': "do {
      fl' \<leftarrow> arr_write (free_list s) i0 ?m;
      s' \<leftarrow> free_list_remove j0 (s\<lparr>free_list := fl'\<rparr>);
      Some (True, s')
    } = Some (True, s')"
    "entries s' = remove_nth j0 ((entries s)[i0 := ?m])" "free_list_block s'"
    "data_size s' = data_size s" "free_list_size s' = free_list_size s - 1" "frame s s'"
    by blast
  ultimately have "compress_pass 0 s = Some (True, s')"
    using i0 q1 [of i0] by (simp add: compress_pass.simps [of i0 s])
  with s' show ?thesis by blast
qed

lemma free_list_compress_step:
  "compress_pass 0 s = Some (True, s') \<Longrightarrow> free_list_compress s = free_list_compress s'"
  by (simp add: free_list_compress.simps [of s])

text \<open>
  The results of \<^verbatim>\<open>mex_mpfr_mark_free\<close> up to the call of \<^verbatim>\<open>free_list_compress\<close>,
  and of \<^verbatim>\<open>mex_mpfr_allocate\<close>: it takes the first entry that fits, a part of it or
  all of it, or new variables after \<^verbatim>\<open>data_size\<close> when no entry fits.
\<close>

lemma first_fit_le: "first_fit count xs \<le> length xs"
  by (simp add: first_fit_def length_takeWhile_le)

lemma first_fit_before:
  "k < first_fit count xs \<Longrightarrow> \<not> count \<le> length_idx (xs ! k)"
  unfolding first_fit_def
  using nth_mem [of k "takeWhile (\<lambda>e. \<not> count \<le> length_idx e) xs"]
  by (auto simp: takeWhile_nth dest: set_takeWhileD)

lemma first_fit_at:
  "first_fit count xs < length xs \<Longrightarrow> count \<le> length_idx (xs ! first_fit count xs)"
  unfolding first_fit_def
  using nth_length_takeWhile [of "\<lambda>e. \<not> count \<le> length_idx e" xs] by simp

lemma first_fit_eqI:
  assumes "i \<le> length xs" "\<And>k. k < i \<Longrightarrow> \<not> count \<le> length_idx (xs ! k)"
    "i < length xs \<Longrightarrow> count \<le> length_idx (xs ! i)"
  shows "first_fit count xs = i"
proof (rule antisym)
  show "first_fit count xs \<le> i"
  proof (rule ccontr)
    assume "\<not> first_fit count xs \<le> i"
    then have lt: "i < first_fit count xs" by simp
    with first_fit_le [of count xs] have "i < length xs" by simp
    with assms(3) first_fit_before [OF lt] show False by simp
  qed
  show "i \<le> first_fit count xs"
  proof (rule ccontr)
    assume "\<not> i \<le> first_fit count xs"
    then have lt: "first_fit count xs < i" by simp
    with assms(1) have "first_fit count xs < length xs" by simp
    with assms(2) [OF lt] first_fit_at show False by blast
  qed
qed

lemma mpfr_init_loop_Some:
  "n \<le> length d \<Longrightarrow>
   \<exists>d'. mpfr_init_loop v i n (Some d) = Some (Some d') \<and> length d' = length d"
proof (induction "n - i" arbitrary: i d)
  case 0
  then show ?case by (simp add: mpfr_init_loop.simps [of v i n])
next
  case (Suc k)
  then have i: "i < n" "i < length d" by simp_all
  from Suc.hyps(2) Suc.prems have "\<exists>d'. mpfr_init_loop v (i + 1) n (Some (d[i := v])) =
      Some (Some d') \<and> length d' = length (d[i := v])"
    by (intro Suc.hyps(1)) simp_all
  with i show ?case
    by (simp add: mpfr_init_loop.simps [of v i n] arr_write_def)
qed

lemma new_capacity_loop_Some:
  "unat need + 1000 \<le> 2 ^ 64 \<Longrightarrow>
   \<exists>c. new_capacity_loop need cap = Some c \<and> need \<le> c \<and> cap \<le> c"
proof (induction "unat need - unat cap" arbitrary: cap rule: less_induct)
  case less
  show ?case
  proof (cases "need > cap")
    case False
    then show ?thesis by (simp add: new_capacity_loop.simps [of need cap])
  next
    case True
    then have lt: "unat cap < unat need" by (simp add: word_less_nat_alt)
    with less.prems have "unat cap + unat (1000 :: 64 word) < 2 ^ 64" by simp
    then have u: "unat (cap + 1000) = unat cap + unat (1000 :: 64 word)"
      by (rule unat_add_nowrap)
    then have u': "unat (cap + 1000) = unat cap + 1000" by simp
    with lt have "unat need - unat (cap + 1000) < unat need - unat cap" by simp
    from less.hyps [OF this less.prems] obtain c where
      c: "new_capacity_loop need (cap + 1000) = Some c" "need \<le> c" "cap + 1000 \<le> c"
      by blast
    from c(3) u' have "cap \<le> c" by (simp add: word_le_nat_alt)
    with True c show ?thesis
      by (simp add: new_capacity_loop.simps [of need cap] DATA_CHUNK_SIZE_def)
  qed
qed

lemma mark_free_append_fwd:
  assumes v: "is_valid idx s" and dl: "unat (idx_end idx) \<le> data_len s"
    and room: "unat (free_list_size s) < fl_len s" and nz: "free_list_size s + 1 \<noteq> 0"
  shows "\<exists>t. mark_free_append E idx s = free_list_compress t \<and>
    entries t = entries s @ [idx] \<and> free_list_block t \<and> data_size t = data_size s \<and>
    free_list_size t = free_list_size s + 1 \<and> frame s t"
proof -
  have idx: "\<lparr>idx_start = idx_start idx, idx_end = idx_end idx\<rparr> = idx" by simp
  from v have "1 \<le> unat (idx_end idx)" by (simp add: is_valid_nat)
  with dl obtain d where d: "data s = Some d" "unat (idx_end idx) \<le> length d"
    by (auto simp: data_len_def split: option.splits)
  from mpfr_init_loop_Some [OF d(2)] obtain d' where
    d': "mpfr_init_loop (mpfr_init E) (unat (idx_start idx - 1)) (unat (idx_end idx)) (Some d) =
      Some (Some d')" "length d' = length d"
    by blast
  from room obtain fl where fl: "free_list s = Some fl" "unat (free_list_size s) < length fl"
    by (auto simp: fl_len_def split: option.splits)
  then have w: "arr_write (free_list s) (unat (free_list_size s)) idx =
      Some (Some (fl[unat (free_list_size s) := idx]))"
    by (simp add: arr_write_def)
  let ?t = "s\<lparr>data := Some d', free_list := Some (fl[unat (free_list_size s) := idx]),
    free_list_size := free_list_size s + 1\<rparr>"
  from d d' w have "mark_free_append E idx s = free_list_compress ?t"
    unfolding mark_free_append_def idx by simp
  moreover from entries_append [OF w nz, of "Some d'"]
  have "entries ?t = entries s @ [idx]" "free_list_block ?t" by simp_all
  moreover from d d' fl have "frame s ?t"
    by (simp add: frame_def data_len_def fl_len_def)
  ultimately show ?thesis by (intro exI [of _ ?t]) simp
qed

lemma mex_mpfr_mark_free_fwd:
  assumes v: "is_valid idx s" and ok: "alloc_ok E" and b: "free_list_block s"
    and cap: "unat (free_list_capacity s) + 1000 < 2 ^ 64"
    and le: "free_list_size s \<le> free_list_capacity s"
      "unat (free_list_capacity s) \<le> fl_len s"
  shows "\<exists>t. mex_mpfr_mark_free E idx s = mark_free_append E idx t \<and>
    data t = data s \<and> data_size t = data_size s \<and> data_capacity t = data_capacity s \<and>
    free_list_size t = free_list_size s \<and> entries t = entries s \<and>
    unat (free_list_size s) < fl_len t \<and>
    (unat (free_list_size s) + 1 \<noteq> unat (free_list_capacity s) \<longrightarrow>
       unat (free_list_size s) + 1 < fl_len t) \<and>
    (free_list_size s \<noteq> free_list_capacity s \<longrightarrow> fl_len t = fl_len s)"
proof (cases "free_list_size s = free_list_capacity s")
  case False
  with v have "mex_mpfr_mark_free E idx s = mark_free_append E idx s"
    by (simp add: mex_mpfr_mark_free_def)
  moreover from False le have "unat (free_list_size s) < unat (free_list_capacity s)"
    by (simp add: word_le_nat_alt word_unat_eq_iff)
  ultimately show ?thesis using le(2) by (intro exI [of _ s]) auto
next
  case True
  let ?c = "free_list_capacity s + DATA_CHUNK_SIZE"
  let ?n = "unat (free_list_size s)"
  define new where "new = (case free_list s of
      None \<Rightarrow> replicate (unat ?c) (uninit_idx E)
    | Some xs \<Rightarrow> take (unat ?c) xs @ replicate (unat ?c - length xs) (uninit_idx E))"
  let ?t = "s\<lparr>free_list := Some new, free_list_capacity := ?c\<rparr>"
  from v True ok have m: "mex_mpfr_mark_free E idx s = mark_free_append E idx ?t"
    by (simp add: mex_mpfr_mark_free_def Let_def mxMalloc_def mxRealloc_def new_def
        split: option.splits)
  from cap have "unat (free_list_capacity s) + unat (1000 :: 64 word) < 2 ^ 64" by simp
  then have "unat (free_list_capacity s + 1000) =
      unat (free_list_capacity s) + unat (1000 :: 64 word)"
    by (rule unat_add_nowrap)
  then have c: "unat ?c = ?n + 1000" by (simp add: True DATA_CHUNK_SIZE_def)
  have len: "length new = unat ?c"
    by (auto simp: new_def min_def split: option.splits)
  have e: "entries ?t = entries s"
  proof (cases "free_list s")
    case None
    with b show ?thesis by (simp add: entries_def free_list_block_def)
  next
    case (Some xs)
    with b have "?n \<le> length xs" by (simp add: free_list_block_def)
    with c Some show ?thesis
      by (simp add: entries_def new_def min_def)
  qed
  from len c have "fl_len ?t = ?n + 1000" by (simp add: fl_len_def)
  with m e True show ?thesis by (intro exI [of _ ?t]) simp
qed

lemma reuse_loop_skip:
  assumes b: "free_list_block s" and j: "j \<le> i0" "i0 \<le> unat (free_list_size s)"
    and q: "\<And>k. j \<le> k \<Longrightarrow> k < i0 \<Longrightarrow> \<not> count \<le> length_idx (entries s ! k)"
  shows "reuse_loop j count s = reuse_loop i0 count s"
  using j(1) q
proof (induction "i0 - j" arbitrary: j)
  case 0
  then show ?case by simp
next
  case (Suc d)
  then have lt: "j < i0" by simp
  with j(2) have n: "j < unat (free_list_size s)" by simp
  with b have r: "arr_read (free_list s) j = Some (entries s ! j)"
    by (simp add: arr_read_entries)
  from Suc.prems(2) [of j] lt have nf: "\<not> count \<le> length_idx (entries s ! j)" by simp
  have "reuse_loop (j + 1) count s = reuse_loop i0 count s"
  proof (rule Suc.hyps(1))
    from Suc.hyps(2) show "d = i0 - (j + 1)" by simp
    from lt show "j + 1 \<le> i0" by simp
    fix k assume "j + 1 \<le> k" "k < i0"
    then show "\<not> count \<le> length_idx (entries s ! k)" using Suc.prems(2) [of k] by simp
  qed
  with n r nf show ?case by (simp add: reuse_loop.simps [of j count s])
qed

lemma reuse_loop_first_fit:
  assumes b: "free_list_block s"
  shows "reuse_loop 0 count s = reuse_loop (first_fit count (entries s)) count s"
proof (rule reuse_loop_skip [OF b])
  from b first_fit_le [of count "entries s"]
  show "first_fit count (entries s) \<le> unat (free_list_size s)"
    by (simp add: length_entries)
qed (simp_all add: first_fit_before)

lemma alloc_range_valid:
  assumes v: "is_valid e s" and nz: "count \<noteq> 0" and c: "count \<le> length_idx e"
  shows "is_valid \<lparr>idx_start = idx_start e, idx_end = idx_start e + count - 1\<rparr> s"
    "unat (idx_start e + count - 1) = unat (idx_start e) + unat count - 1"
proof -
  from v have len: "unat (length_idx e) = unat (idx_end e) - unat (idx_start e) + 1"
    by (rule valid_range_nat)
  from nz have c1: "1 \<le> unat count" by (simp add: unat_gt_0 Suc_le_eq)
  then have m1: "unat (count - 1) = unat count - 1" using nz by (simp add: unat_minus_one)
  from c have "unat count \<le> unat (length_idx e)" by (simp add: word_le_nat_alt)
  with len v c1 have le: "unat (idx_start e) + (unat count - 1) \<le> unat (idx_end e)"
    unfolding is_valid_nat by arith
  with unat_less_2p64 [of "idx_end e"] m1
  have "unat (idx_start e) + unat (count - 1) < 2 ^ 64" by simp
  then have "unat (idx_start e + (count - 1)) = unat (idx_start e) + unat (count - 1)"
    by (rule unat_add_nowrap)
  with m1 c1 show u: "unat (idx_start e + count - 1) = unat (idx_start e) + unat count - 1"
    by (simp add: add_diff_eq)
  with v le c1 show "is_valid \<lparr>idx_start = idx_start e, idx_end = idx_start e + count - 1\<rparr> s"
    by (simp add: is_valid_nat)
qed

lemma allocate_reuse_partial:
  assumes inv: "free_list_inv s" and nz: "count \<noteq> 0"
    and i: "first_fit count (entries s) = i" "i < unat (free_list_size s)"
    and lt: "count < length_idx (entries s ! i)"
  shows "\<exists>s'. mex_mpfr_allocate E count idx s =
      Some (True, \<lparr>idx_start = idx_start (entries s ! i),
        idx_end = idx_start (entries s ! i) + count - 1\<rparr>, s') \<and>
    entries s' = (entries s)[i := (entries s ! i)\<lparr>idx_start := idx_start (entries s ! i) + count\<rparr>] \<and>
    free_list_block s' \<and> data_size s' = data_size s \<and>
    free_list_size s' = free_list_size s \<and> frame s s'"
proof -
  let ?e = "entries s ! i"
  let ?e' = "?e\<lparr>idx_start := idx_start ?e + count\<rparr>"
  let ?r = "\<lparr>idx_start = idx_start ?e, idx_end = idx_start ?e + count - 1\<rparr>"
  note d = free_list_invD [OF inv]
  from d(1) i(2) obtain fl where fl: "free_list s = Some fl" "i < length fl"
    by (auto simp: free_list_block_def split: option.splits)
  then have w: "arr_write (free_list s) i ?e' = Some (Some (fl[i := ?e']))"
    by (simp add: arr_write_def)
  let ?s' = "s\<lparr>free_list := Some (fl[i := ?e'])\<rparr>"
  from d(3) i(2) have v: "is_valid ?e s" by simp
  from lt have le: "count \<le> length_idx ?e" by simp
  from alloc_range_valid [OF v nz le] have vr: "is_valid ?r ?s'" by (simp add: is_valid_def)
  from d(1) i(2) have r: "arr_read (free_list s) i = Some ?e" by (simp add: arr_read_entries)
  have "reuse_loop 0 count s = reuse_loop i count s"
    using reuse_loop_first_fit [OF d(1), of count] i(1) by simp
  also from i(2) r le lt w vr have "\<dots> = Some (Returns (True, ?r, ?s'))"
    by (simp add: reuse_loop.simps [of i count s] Let_def)
  finally have "mex_mpfr_allocate E count idx s = Some (True, ?r, ?s')"
    using nz by (simp add: mex_mpfr_allocate_def)
  moreover from entries_write [OF w d(1)]
  have "entries ?s' = (entries s)[i := ?e']" "free_list_block ?s'" by simp_all
  moreover from fl have "frame s ?s'" by (simp add: frame_def fl_len_def data_len_def)
  ultimately show ?thesis by (intro exI [of _ ?s']) simp
qed

lemma allocate_reuse_exact:
  assumes inv: "free_list_inv s" and nz: "count \<noteq> 0"
    and i: "first_fit count (entries s) = i" "i < unat (free_list_size s)"
    and eq: "length_idx (entries s ! i) = count"
    and room: "unat (free_list_size s) < fl_len s"
  shows "\<exists>s'. mex_mpfr_allocate E count idx s = Some (True, entries s ! i, s') \<and>
    entries s' = remove_nth i (entries s) \<and>
    free_list_block s' \<and> data_size s' = data_size s \<and>
    free_list_size s' = free_list_size s - 1 \<and> frame s s'"
proof -
  let ?e = "entries s ! i"
  let ?r = "\<lparr>idx_start = idx_start ?e, idx_end = idx_start ?e + count - 1\<rparr>"
  note d = free_list_invD [OF inv]
  from d(3) i(2) have v: "is_valid ?e s" by simp
  from eq have "idx_start ?e + count - 1 = idx_end ?e"
    unfolding length_idx_def by auto
  then have re: "?r = ?e" by simp
  from free_list_remove_fwd [OF i(2) room] obtain s' where s':
    "free_list_remove i s = Some s'" "entries s' = remove_nth i (entries s)"
    "free_list_block s'" "data_size s' = data_size s"
    "free_list_size s' = free_list_size s - 1" "frame s s'"
    by blast
  from v s'(4) have vr: "is_valid ?e s'" by (simp add: is_valid_def)
  from d(1) i(2) have r: "arr_read (free_list s) i = Some ?e" by (simp add: arr_read_entries)
  have "reuse_loop 0 count s = reuse_loop i count s"
    using reuse_loop_first_fit [OF d(1), of count] i(1) by simp
  also from i(2) r eq s'(1) vr re have "\<dots> = Some (Returns (True, ?e, s'))"
    by (simp add: reuse_loop.simps [of i count s] Let_def)
  finally have "mex_mpfr_allocate E count idx s = Some (True, ?e, s')"
    using nz by (simp add: mex_mpfr_allocate_def)
  with s' show ?thesis by blast
qed

lemma allocate_fresh:
  assumes b: "free_list_block s" and nz: "count \<noteq> 0"
    and none: "first_fit count (entries s) = unat (free_list_size s)"
    and no: "unat (data_size s) + unat count + 1000 \<le> 2 ^ 64"
    and ok: "alloc_ok E"
    and dl: "unat (data_capacity s) \<le> data_len s"
  shows "\<exists>s'. mex_mpfr_allocate E count idx s =
      Some (True, \<lparr>idx_start = data_size s + 1, idx_end = data_size s + count\<rparr>, s') \<and>
    free_list s' = free_list s \<and> free_list_size s' = free_list_size s \<and>
    free_list_capacity s' = free_list_capacity s \<and>
    data_size s' = data_size s + count \<and> data_size s' \<le> data_capacity s' \<and>
    unat (data_capacity s') \<le> data_len s' \<and>
    unat (data_size s + count) = unat (data_size s) + unat count"
proof -
  let ?r = "\<lparr>idx_start = data_size s + 1, idx_end = data_size s + count\<rparr>"
  let ?n = "unat (free_list_size s)"
  have "reuse_loop 0 count s = reuse_loop ?n count s"
    using reuse_loop_first_fit [OF b, of count] none by simp
  also have "\<dots> = Some Loop_done" by (simp add: reuse_loop.simps [of ?n count s])
  finally have rl: "reuse_loop 0 count s = Some Loop_done" .
  from no have "unat (data_size s) + unat count < 2 ^ 64" by simp
  then have u: "unat (data_size s + count) = unat (data_size s) + unat count"
    by (rule unat_add_nowrap)
  from nz have c1: "1 \<le> unat count" by (simp add: unat_gt_0 Suc_le_eq)
  from no c1 have "unat (data_size s) + unat (1 :: 64 word) < 2 ^ 64" by simp
  then have u1: "unat (data_size s + 1) = unat (data_size s) + unat (1 :: 64 word)"
    by (rule unat_add_nowrap)
  have vr: "is_valid ?r (t\<lparr>data_size := data_size s + count\<rparr>)" for t :: "'a pool"
    using u u1 c1 by (simp add: is_valid_nat)
  show ?thesis
  proof (cases "data_size s + count > data_capacity s")
    case False
    then have le: "data_size s + count \<le> data_capacity s" by simp
    from nz rl False vr [of s] have
      "mex_mpfr_allocate E count idx s = Some (True, ?r, s\<lparr>data_size := data_size s + count\<rparr>)"
      by (simp add: mex_mpfr_allocate_def allocate_new_def Let_def)
    with le dl u show ?thesis
      by (intro exI [of _ "s\<lparr>data_size := data_size s + count\<rparr>"]) (simp add: data_len_def)
  next
    case True
    from no u have "unat (data_size s + count) + 1000 \<le> 2 ^ 64" by simp
    from new_capacity_loop_Some [OF this, of "data_capacity s"] obtain c where
      c: "new_capacity_loop (data_size s + count) (data_capacity s) = Some c"
      "data_size s + count \<le> c" "data_capacity s \<le> c"
      by blast
    define new where "new = (case data s of
        None \<Rightarrow> replicate (unat c) (uninit_mpfr E)
      | Some xs \<Rightarrow> take (unat c) xs @ replicate (unat c - length xs) (uninit_mpfr E))"
    have len: "length new = unat c"
      by (auto simp: new_def min_def split: option.splits)
    then have "unat c \<le> length new" by simp
    from mpfr_init_loop_Some [OF this, of "mpfr_init E" "unat (data_capacity s)"] obtain d' where
      d': "mpfr_init_loop (mpfr_init E) (unat (data_capacity s)) (unat c) (Some new) =
        Some (Some d')" "length d' = length new"
      by blast
    let ?s' = "s\<lparr>data := Some d', data_capacity := c, data_size := data_size s + count\<rparr>"
    from nz rl True c(1) ok d'(1) vr [of "s\<lparr>data := Some d', data_capacity := c\<rparr>"]
    have "mex_mpfr_allocate E count idx s = Some (True, ?r, ?s')"
      by (simp add: mex_mpfr_allocate_def allocate_new_def Let_def mxMalloc_def mxRealloc_def
          new_def split: option.splits)
    with c(2) d'(2) len u show ?thesis
      by (intro exI [of _ ?s']) (simp add: data_len_def)
  qed
qed

lemma mark_free_to_compress:
  assumes v: "is_valid r s" and ok: "alloc_ok E" and b: "free_list_block s"
    and cap: "unat (free_list_capacity s) + 1000 < 2 ^ 64"
    and le: "free_list_size s \<le> free_list_capacity s"
      "unat (free_list_capacity s) \<le> fl_len s"
    and dl: "unat (idx_end r) \<le> data_len s"
  shows "\<exists>t. mex_mpfr_mark_free E r s = free_list_compress t \<and>
    entries t = entries s @ [r] \<and> free_list_block t \<and> data_size t = data_size s \<and>
    free_list_size t = free_list_size s + 1 \<and>
    unat (free_list_size t) = unat (free_list_size s) + 1 \<and>
    data_capacity t = data_capacity s \<and>
    (unat (free_list_size s) + 1 \<noteq> unat (free_list_capacity s) \<longrightarrow>
       unat (free_list_size t) < fl_len t) \<and>
    (free_list_size s \<noteq> free_list_capacity s \<longrightarrow> fl_len t = fl_len s)"
proof -
  from mex_mpfr_mark_free_fwd [OF v ok b cap le] obtain t0 where t0:
    "mex_mpfr_mark_free E r s = mark_free_append E r t0"
    "data t0 = data s" "data_size t0 = data_size s" "data_capacity t0 = data_capacity s"
    "free_list_size t0 = free_list_size s" "entries t0 = entries s"
    "unat (free_list_size s) < fl_len t0"
    "unat (free_list_size s) + 1 \<noteq> unat (free_list_capacity s) \<longrightarrow>
       unat (free_list_size s) + 1 < fl_len t0"
    "free_list_size s \<noteq> free_list_capacity s \<longrightarrow> fl_len t0 = fl_len s"
    by blast
  from le(1) cap have "unat (free_list_size s) + unat (1 :: 64 word) < 2 ^ 64"
    by (simp add: word_le_nat_alt)
  then have u: "unat (free_list_size s + 1) = unat (free_list_size s) + unat (1 :: 64 word)"
    by (rule unat_add_nowrap)
  then have nz: "free_list_size t0 + 1 \<noteq> 0"
    unfolding t0(5) by (auto simp: word_unat_eq_iff)
  from v t0(3) have v0: "is_valid r t0" by (simp add: is_valid_def)
  from dl t0(2) have dl0: "unat (idx_end r) \<le> data_len t0" by (simp add: data_len_def)
  from t0(5,7) have room0: "unat (free_list_size t0) < fl_len t0" by simp
  from mark_free_append_fwd [OF v0 dl0 room0 nz, of E] obtain t where t:
    "mark_free_append E r t0 = free_list_compress t"
    "entries t = entries t0 @ [r]" "free_list_block t" "data_size t = data_size t0"
    "free_list_size t = free_list_size t0 + 1" "frame t0 t"
    by blast
  from t t0 u show ?thesis
    by (intro exI [of _ t]) (simp add: frame_def)
qed

lemma allocate_fresh_room:
  assumes b: "free_list_block s" and nz: "count \<noteq> 0"
    and none: "first_fit count (entries s) = unat (free_list_size s)"
    and no: "unat (data_size s) + unat count < 2 ^ 64"
    and le: "data_size s + count \<le> data_capacity s"
  shows "mex_mpfr_allocate E count idx s =
      Some (True, \<lparr>idx_start = data_size s + 1, idx_end = data_size s + count\<rparr>,
        s\<lparr>data_size := data_size s + count\<rparr>)"
proof -
  let ?r = "\<lparr>idx_start = data_size s + 1, idx_end = data_size s + count\<rparr>"
  let ?n = "unat (free_list_size s)"
  have "reuse_loop 0 count s = reuse_loop ?n count s"
    using reuse_loop_first_fit [OF b, of count] none by simp
  also have "\<dots> = Some Loop_done" by (simp add: reuse_loop.simps [of ?n count s])
  finally have rl: "reuse_loop 0 count s = Some Loop_done" .
  from no have u: "unat (data_size s + count) = unat (data_size s) + unat count"
    by (rule unat_add_nowrap)
  from nz have c1: "1 \<le> unat count" by (simp add: unat_gt_0 Suc_le_eq)
  from no c1 have "unat (data_size s) + unat (1 :: 64 word) < 2 ^ 64" by simp
  then have u1: "unat (data_size s + 1) = unat (data_size s) + unat (1 :: 64 word)"
    by (rule unat_add_nowrap)
  have vr: "is_valid ?r (s\<lparr>data_size := data_size s + count\<rparr>)"
    using u u1 c1 by (simp add: is_valid_nat)
  from le have "\<not> data_size s + count > data_capacity s" by simp
  with nz rl vr show ?thesis
    by (simp add: mex_mpfr_allocate_def allocate_new_def Let_def)
qed

text \<open>
  The range that an allocation takes from an entry and the rest of the entry are
  adjacent, merge to the entry, and are adjacent to no other entry of a compacted list;
  nor is a range of new variables.
\<close>

lemma adjacent_idx_nat:
  assumes "is_valid a s" "is_valid b t"
  shows "adjacent_idx a b \<longleftrightarrow>
    unat (idx_end a) + 1 = unat (idx_start b) \<or> unat (idx_end b) + 1 = unat (idx_start a)"
proof -
  from assms have "1 \<le> unat (idx_start a)" "1 \<le> unat (idx_start b)"
    by (simp_all add: is_valid_nat)
  then show ?thesis
    by (simp add: adjacent_idx_def adjacent_nat)
qed

lemma compacted_cong:
  assumes "set (entries t) = set (entries s)" "data_size t = data_size s"
  shows "compacted t \<longleftrightarrow> compacted s"
  using assms by (simp add: compacted_def list_all_iff)

lemma set_remove_nth_snoc:
  assumes i: "i < length xs"
  shows "set (remove_nth i xs @ [xs ! i]) = set xs"
proof -
  have "set xs = set (take i xs @ xs ! i # drop (Suc i) xs)"
    by (rule arg_cong [where f = set]) (rule id_take_nth_drop [OF i])
  also have "\<dots> = set (remove_nth i xs @ [xs ! i])"
    unfolding remove_nth_def by auto
  finally show ?thesis by (rule sym)
qed

lemma remove_nth_snoc: "remove_nth (length xs) (xs @ [x]) = xs"
  by (simp add: remove_nth_def)

lemma split_facts:
  assumes v: "is_valid e s" and nz: "count \<noteq> 0" and lt: "count < length_idx e"
  defines "r \<equiv> \<lparr>idx_start = idx_start e, idx_end = idx_start e + count - 1\<rparr>"
    and "e' \<equiv> e\<lparr>idx_start := idx_start e + count\<rparr>"
  shows "is_valid r s" "is_valid e' s" "merged e' r = e" "adjacent_idx e' r"
    "idx_end e' = idx_end e"
    "unat (idx_start e') = unat (idx_start e) + unat count"
    "unat (idx_end r) + 1 = unat (idx_start e) + unat count"
    "unat (idx_start e) + unat count \<le> unat (idx_end e)"
proof -
  from lt have le: "count \<le> length_idx e" by simp
  from nz have c1: "1 \<le> unat count" by (simp add: unat_gt_0 Suc_le_eq)
  note a = alloc_range_valid [OF v nz le]
  note sh = shrink_valid [OF v lt]
  from a(1) show vr: "is_valid r s" by (simp add: r_def)
  from sh(1) show ve: "is_valid e' s" by (simp add: e'_def)
  show ee: "idx_end e' = idx_end e" by (simp add: e'_def)
  from sh(2) show se: "unat (idx_start e') = unat (idx_start e) + unat count"
    by (simp add: e'_def)
  from a(2) c1 show er: "unat (idx_end r) + 1 = unat (idx_start e) + unat count"
    by (simp add: r_def)
  from ve se ee show le': "unat (idx_start e) + unat count \<le> unat (idx_end e)"
    by (simp add: is_valid_nat)
  have sr: "idx_start r = idx_start e" by (simp add: r_def)
  from se c1 have "\<not> idx_start e' \<le> idx_start r"
    by (simp add: word_le_nat_alt sr)
  moreover from er le' ee have "idx_end r \<le> idx_end e'"
    by (simp add: word_le_nat_alt)
  ultimately show "merged e' r = e"
    by (simp add: merged_def sr ee)
  from er se have "unat (idx_end r) + 1 = unat (idx_start e')" by (simp only:)
  then show "adjacent_idx e' r"
    unfolding adjacent_idx_nat [OF ve vr] by (rule disjI2)
qed

lemma split_quiet:
  assumes v: "is_valid e s" and nz: "count \<noteq> 0" and lt: "count < length_idx e"
    and vc: "is_valid c s" and d: "disjoint_idx c e" and na: "\<not> adjacent_idx c e"
  shows "\<not> adjacent_idx c (e\<lparr>idx_start := idx_start e + count\<rparr>)"
    "\<not> adjacent_idx c \<lparr>idx_start = idx_start e, idx_end = idx_start e + count - 1\<rparr>"
    "\<not> adjacent_idx (e\<lparr>idx_start := idx_start e + count\<rparr>) c"
proof -
  let ?e' = "e\<lparr>idx_start := idx_start e + count\<rparr>"
  let ?r = "\<lparr>idx_start = idx_start e, idx_end = idx_start e + count - 1\<rparr>"
  note f = split_facts [OF v nz lt]
  from nz have c1: "1 \<le> unat count" by (simp add: unat_gt_0 Suc_le_eq)
  from na have na': "unat (idx_end c) + 1 \<noteq> unat (idx_start e)"
    "unat (idx_end e) + 1 \<noteq> unat (idx_start c)"
    by (simp_all add: adjacent_idx_nat [OF vc v])
  from d have d': "unat (idx_end c) < unat (idx_start e) \<or> unat (idx_end e) < unat (idx_start c)"
    by (simp add: disjoint_idx_nat)
  from vc have c: "unat (idx_start c) \<le> unat (idx_end c)" by (simp add: is_valid_nat)
  have g: "unat (idx_end ?e') = unat (idx_end e)" by simp
  from f(6) g f(8) na' d' c c1 show 1: "\<not> adjacent_idx c ?e'"
    unfolding adjacent_idx_nat [OF vc f(2)] by arith
  have h: "unat (idx_start ?r) = unat (idx_start e)" by simp
  from h f(7,8) na' d' c c1 show "\<not> adjacent_idx c ?r"
    unfolding adjacent_idx_nat [OF vc f(1)] by arith
  from 1 show "\<not> adjacent_idx ?e' c" by (auto simp: adjacent_idx_def)
qed

lemma fresh_quiet:
  assumes vc: "is_valid c s" and ne: "idx_end c \<noteq> data_size s" and nz: "count \<noteq> 0"
    and no: "unat (data_size s) + unat count + 1 < 2 ^ 64"
  shows "\<not> adjacent_idx c \<lparr>idx_start = data_size s + 1, idx_end = data_size s + count\<rparr>"
proof -
  let ?r = "\<lparr>idx_start = data_size s + 1, idx_end = data_size s + count\<rparr>"
  from no have "unat (data_size s) + unat count < 2 ^ 64" by simp
  then have u: "unat (data_size s + count) = unat (data_size s) + unat count"
    by (rule unat_add_nowrap)
  from nz have c1: "1 \<le> unat count" by (simp add: unat_gt_0 Suc_le_eq)
  from no c1 have "unat (data_size s) + unat (1 :: 64 word) < 2 ^ 64" by simp
  then have "unat (data_size s + 1) = unat (data_size s) + unat (1 :: 64 word)"
    by (rule unat_add_nowrap)
  then have u1: "unat (data_size s + 1) = unat (data_size s) + 1" by simp
  have vr: "is_valid ?r (s\<lparr>data_size := data_size s + count\<rparr>)"
    using u u1 c1 by (simp add: is_valid_nat)
  from ne have ne': "unat (idx_end c) \<noteq> unat (data_size s)" by (simp add: word_unat_eq_iff)
  have s: "unat (idx_start ?r) = unat (data_size s) + 1"
    "unat (idx_end ?r) = unat (data_size s) + unat count"
    using u u1 by simp_all
  from vc have "unat (idx_start c) \<le> unat (idx_end c)" "unat (idx_end c) \<le> unat (data_size s)"
    by (simp_all add: is_valid_nat)
  with s ne' c1 show ?thesis
    unfolding adjacent_idx_nat [OF vc vr] by arith
qed

lemma later_fit_nth:
  assumes "\<not> later_fit count xs" "first_fit count xs < k" "k < length xs"
  shows "\<not> count \<le> length_idx (xs ! k)"
proof
  assume f: "count \<le> length_idx (xs ! k)"
  let ?i = "Suc (first_fit count xs)"
  from assms(2,3) have "k - ?i < length (drop ?i xs)" "drop ?i xs ! (k - ?i) = xs ! k"
    by simp_all
  with f have "list_ex (\<lambda>e. count \<le> length_idx e) (drop ?i xs)"
    unfolding list_ex_length by (intro exI [of _ "k - ?i"]) simp
  with assms(1) show False by (simp add: later_fit_def)
qed

text \<open>
  Allocating, marking the range free and allocating again, in the three cases of the
  first allocation: new variables (rule 1 takes them back), a part of an entry (rule 2
  merges it back), a whole entry (it is appended to the list).
\<close>

lemma pool_invD:
  assumes "pool_inv s"
  shows "unat (data_capacity s) \<le> data_len s" "data_size s \<le> data_capacity s"
    "unat (free_list_capacity s) \<le> fl_len s" "free_list_size s \<le> free_list_capacity s"
    "free_list_inv s" "compacted s"
  using assms by (simp_all add: pool_inv_def)

lemma compress_to_fix:
  assumes p: "compress_pass 0 t = Some (True, t2)" and b: "free_list_block t2"
    and c: "compacted t2"
  shows "free_list_compress t = Some t2"
  using free_list_compress_step [OF p] free_list_compress_fix [OF b c] by simp

lemma case_fresh:
  assumes p: "pool_inv s" and ok: "alloc_ok E" and nz: "count \<noteq> 0"
    and no: "unat (data_size s) + unat count + 1000 \<le> 2 ^ 64"
    and cap: "unat (free_list_capacity s) + 1000 < 2 ^ 64"
    and none: "first_fit count (entries s) = unat (free_list_size s)"
    and room: "unat (free_list_size s) + 1 \<noteq> unat (free_list_capacity s)"
  shows "\<exists>r s1 s2 s3. mex_mpfr_allocate E count idx s = Some (True, r, s1) \<and>
    mex_mpfr_mark_free E r s1 = Some s2 \<and>
    mex_mpfr_allocate E count idx' s2 = Some (True, r, s3) \<and>
    data_capacity s2 = data_capacity s1 \<and> data_capacity s3 = data_capacity s1"
proof -
  let ?n = "unat (free_list_size s)"
  let ?xs = "entries s"
  let ?r = "\<lparr>idx_start = data_size s + 1, idx_end = data_size s + count\<rparr>"
  note pd = pool_invD [OF p]
  note d = free_list_invD [OF pd(5)]
  from allocate_fresh [OF d(1) nz none no ok pd(1), of idx] obtain s1 where s1:
    "mex_mpfr_allocate E count idx s = Some (True, ?r, s1)"
    "free_list s1 = free_list s" "free_list_size s1 = free_list_size s"
    "free_list_capacity s1 = free_list_capacity s"
    "data_size s1 = data_size s + count" "data_size s1 \<le> data_capacity s1"
    "unat (data_capacity s1) \<le> data_len s1"
    "unat (data_size s + count) = unat (data_size s) + unat count"
    by blast
  from s1(2,3) d(1) have e1: "entries s1 = ?xs" "free_list_block s1" "fl_len s1 = fl_len s"
    by (simp_all add: entries_def free_list_block_def fl_len_def split: option.splits)
  from mex_mpfr_allocate_range [OF s1(1)] have vr: "is_valid ?r s1" by simp
  from s1(5,6,7) have dl: "unat (idx_end ?r) \<le> data_len s1"
    by (simp add: word_le_nat_alt)
  from cap pd(3,4) room s1(3,4) e1(3)
  have "\<exists>t. mex_mpfr_mark_free E ?r s1 = free_list_compress t \<and>
    entries t = entries s1 @ [?r] \<and> free_list_block t \<and> data_size t = data_size s1 \<and>
    free_list_size t = free_list_size s1 + 1 \<and>
    unat (free_list_size t) = unat (free_list_size s1) + 1 \<and>
    data_capacity t = data_capacity s1 \<and>
    (unat (free_list_size s1) + 1 \<noteq> unat (free_list_capacity s1) \<longrightarrow>
       unat (free_list_size t) < fl_len t) \<and>
    (free_list_size s1 \<noteq> free_list_capacity s1 \<longrightarrow> fl_len t = fl_len s1)"
    by (intro mark_free_to_compress [OF vr ok e1(2) _ _ _ dl]) simp_all
  then obtain t where t0: "mex_mpfr_mark_free E ?r s1 = free_list_compress t"
    "entries t = entries s1 @ [?r]" "free_list_block t" "data_size t = data_size s1"
    "free_list_size t = free_list_size s1 + 1"
    "unat (free_list_size t) = unat (free_list_size s1) + 1"
    "data_capacity t = data_capacity s1"
    "unat (free_list_size s1) + 1 \<noteq> unat (free_list_capacity s1) \<longrightarrow>
       unat (free_list_size t) < fl_len t"
    "free_list_size s1 \<noteq> free_list_capacity s1 \<longrightarrow> fl_len t = fl_len s1"
    by blast
  with room s1(3,4,5) e1(1) have t: "mex_mpfr_mark_free E ?r s1 = free_list_compress t"
    "entries t = ?xs @ [?r]" "free_list_block t" "data_size t = data_size s + count"
    "free_list_size t = free_list_size s + 1" "unat (free_list_size t) = ?n + 1"
    "data_capacity t = data_capacity s1" "unat (free_list_size t) < fl_len t"
    by simp_all
  from nz have c1: "1 \<le> unat count" by (simp add: unat_gt_0 Suc_le_eq)
  have nth_old: "entries t ! k = ?xs ! k" if "k < ?n" for k
    using that d(2) by (simp add: t(2) nth_append)
  have nth_new: "entries t ! ?n = ?r"
    using d(2) by (simp add: t(2) nth_append)
  have "\<exists>t2. compress_pass 0 t = Some (True, t2) \<and>
    entries t2 = remove_nth ?n (entries t) \<and> free_list_block t2 \<and>
    data_size t2 = idx_start (entries t ! ?n) - 1 \<and>
    free_list_size t2 = free_list_size t - 1 \<and> frame t t2"
  proof (rule compress_pass_rule1_fwd [OF t(3)])
    from t(6) show "?n < unat (free_list_size t)" by simp
    from t(8) show "unat (free_list_size t) < fl_len t" .
    show "idx_end (entries t ! ?n) = data_size t" by (simp add: nth_new t(4))
  next
    fix k assume k: "k < ?n"
    from d(3) [OF k] have "unat (idx_end (?xs ! k)) \<le> unat (data_size s)"
      by (simp add: is_valid_nat)
    with s1(8) c1 have "unat (idx_end (?xs ! k)) \<noteq> unat (data_size s + count)" by simp
    then show "idx_end (entries t ! k) \<noteq> data_size t"
      by (auto simp: nth_old [OF k] t(4))
  next
    fix k l assume k: "k < ?n" and kl: "k < l" and l: "l < unat (free_list_size t)"
    show "\<not> adjacent_idx (entries t ! k) (entries t ! l)"
    proof (cases "l < ?n")
      case True
      with k pd(6) d(1) show ?thesis
        by (simp add: nth_old compacted_nth)
    next
      case False
      with l t(6) have "l = ?n" by simp
      moreover have "\<not> adjacent_idx (?xs ! k) ?r"
      proof (rule fresh_quiet)
        from d(3) [OF k] show "is_valid (?xs ! k) s" .
        from pd(6) d(1) k show "idx_end (?xs ! k) \<noteq> data_size s" by (rule compacted_nth)
        from no show "unat (data_size s) + unat count + 1 < 2 ^ 64" by simp
      qed (rule nz)
      ultimately show ?thesis by (simp add: nth_old [OF k] nth_new)
    qed
  qed
  then obtain t2 where t2: "compress_pass 0 t = Some (True, t2)"
    "entries t2 = remove_nth ?n (entries t)" "free_list_block t2"
    "data_size t2 = idx_start (entries t ! ?n) - 1"
    "free_list_size t2 = free_list_size t - 1" "frame t t2"
    by blast
  from d(2) have e2: "entries t2 = ?xs"
    using remove_nth_snoc [of ?xs ?r] by (simp add: t2(2) t(2))
  have ds2: "data_size t2 = data_size s" by (simp add: t2(4) nth_new)
  have fs2: "free_list_size t2 = free_list_size s" by (simp add: t2(5) t(5))
  from pd(6) have "compacted t2"
    using compacted_cong [of t2 s] e2 ds2 by simp
  with t2(1,3) have "free_list_compress t = Some t2" by (intro compress_to_fix)
  with t(1) have m: "mex_mpfr_mark_free E ?r s1 = Some t2" by simp
  from t2(6) t(7) have dc2: "data_capacity t2 = data_capacity s1" by (simp add: frame_def)
  have "mex_mpfr_allocate E count idx' t2 =
      Some (True, \<lparr>idx_start = data_size t2 + 1, idx_end = data_size t2 + count\<rparr>,
        t2\<lparr>data_size := data_size t2 + count\<rparr>)"
  proof (rule allocate_fresh_room [OF t2(3) nz])
    from none show "first_fit count (entries t2) = unat (free_list_size t2)"
      by (simp add: e2 fs2)
    from no show "unat (data_size t2) + unat count < 2 ^ 64" by (simp add: ds2)
    from s1(5,6) show "data_size t2 + count \<le> data_capacity t2" by (simp add: ds2 dc2)
  qed
  then have a2: "mex_mpfr_allocate E count idx' t2 =
      Some (True, ?r, t2\<lparr>data_size := data_size t2 + count\<rparr>)"
    by (simp add: ds2)
  from s1(1) m a2 dc2 show ?thesis
    by (intro exI [of _ ?r] exI [of _ s1] exI [of _ t2]
        exI [of _ "t2\<lparr>data_size := data_size t2 + count\<rparr>"] conjI) simp_all
qed

lemma case_partial:
  assumes p: "pool_inv s" and ok: "alloc_ok E" and nz: "count \<noteq> 0"
    and cap: "unat (free_list_capacity s) + 1000 < 2 ^ 64"
    and i: "first_fit count (entries s) = i" "i < unat (free_list_size s)"
    and lt: "count < length_idx (entries s ! i)"
    and room: "unat (free_list_size s) + 1 \<noteq> unat (free_list_capacity s)"
  shows "\<exists>r s1 s2 s3. mex_mpfr_allocate E count idx s = Some (True, r, s1) \<and>
    mex_mpfr_mark_free E r s1 = Some s2 \<and>
    mex_mpfr_allocate E count idx' s2 = Some (True, r, s3) \<and>
    data_capacity s2 = data_capacity s1 \<and> data_capacity s3 = data_capacity s1"
proof -
  let ?n = "unat (free_list_size s)"
  let ?xs = "entries s"
  let ?e = "?xs ! i"
  let ?e' = "?e\<lparr>idx_start := idx_start ?e + count\<rparr>"
  let ?r = "\<lparr>idx_start = idx_start ?e, idx_end = idx_start ?e + count - 1\<rparr>"
  let ?ys = "?xs[i := ?e']"
  note pd = pool_invD [OF p]
  note d = free_list_invD [OF pd(5)]
  from d(3) [OF i(2)] have ve: "is_valid ?e s" .
  note f = split_facts [OF ve nz lt]
  from allocate_reuse_partial [OF pd(5) nz i lt, of E idx] obtain s1 where s1:
    "mex_mpfr_allocate E count idx s = Some (True, ?r, s1)"
    "entries s1 = ?ys" "free_list_block s1" "data_size s1 = data_size s"
    "free_list_size s1 = free_list_size s" "frame s s1"
    by blast
  from f(1) s1(4) have vr: "is_valid ?r s1" by (simp add: is_valid_def)
  from f(1) have "unat (idx_end ?r) \<le> unat (data_size s)" by (simp add: is_valid_nat)
  with pd(1,2) s1(6) have dl: "unat (idx_end ?r) \<le> data_len s1"
    by (simp add: word_le_nat_alt frame_def)
  from cap pd(3,4) room s1(5,6)
  have "\<exists>t. mex_mpfr_mark_free E ?r s1 = free_list_compress t \<and>
    entries t = entries s1 @ [?r] \<and> free_list_block t \<and> data_size t = data_size s1 \<and>
    free_list_size t = free_list_size s1 + 1 \<and>
    unat (free_list_size t) = unat (free_list_size s1) + 1 \<and>
    data_capacity t = data_capacity s1 \<and>
    (unat (free_list_size s1) + 1 \<noteq> unat (free_list_capacity s1) \<longrightarrow>
       unat (free_list_size t) < fl_len t) \<and>
    (free_list_size s1 \<noteq> free_list_capacity s1 \<longrightarrow> fl_len t = fl_len s1)"
    by (intro mark_free_to_compress [OF vr ok s1(3) _ _ _ dl]) (simp_all add: frame_def)
  then obtain t where t0: "mex_mpfr_mark_free E ?r s1 = free_list_compress t"
    "entries t = entries s1 @ [?r]" "free_list_block t" "data_size t = data_size s1"
    "free_list_size t = free_list_size s1 + 1"
    "unat (free_list_size t) = unat (free_list_size s1) + 1"
    "data_capacity t = data_capacity s1"
    "unat (free_list_size s1) + 1 \<noteq> unat (free_list_capacity s1) \<longrightarrow>
       unat (free_list_size t) < fl_len t"
    "free_list_size s1 \<noteq> free_list_capacity s1 \<longrightarrow> fl_len t = fl_len s1"
    by blast
  with room s1(2,4,5,6) have t: "mex_mpfr_mark_free E ?r s1 = free_list_compress t"
    "entries t = ?ys @ [?r]" "free_list_block t" "data_size t = data_size s"
    "free_list_size t = free_list_size s + 1" "unat (free_list_size t) = ?n + 1"
    "data_capacity t = data_capacity s1" "unat (free_list_size t) < fl_len t"
    by (simp_all add: frame_def)
  have nth_old: "entries t ! k = ?xs ! k" if "k < ?n" "k \<noteq> i" for k
    using that d(2) by (simp add: t(2) nth_append)
  have nth_i: "entries t ! i = ?e'"
    using i(2) d(2) by (simp add: t(2) nth_append)
  have nth_new: "entries t ! ?n = ?r"
    using d(2) by (simp add: t(2) nth_append)
  have others: "is_valid (?xs ! k) s" "disjoint_idx (?xs ! k) ?e" "\<not> adjacent_idx (?xs ! k) ?e"
    if "k < ?n" "k \<noteq> i" for k
  proof -
    from d(3) that show "is_valid (?xs ! k) s" by simp
    from d(2,4) that i(2) show "disjoint_idx (?xs ! k) ?e"
      by (simp add: sorted_wrt_disjoint_nth)
    from pd(6) d(1) that i(2) show "\<not> adjacent_idx (?xs ! k) ?e"
      by (simp add: compacted_nth)
  qed
  have "\<exists>t2. compress_pass 0 t = Some (True, t2) \<and>
    entries t2 = remove_nth ?n ((entries t)[i := merged (entries t ! i) (entries t ! ?n)]) \<and>
    free_list_block t2 \<and> data_size t2 = data_size t \<and>
    free_list_size t2 = free_list_size t - 1 \<and> frame t t2"
  proof (rule compress_pass_rule2_fwd [OF t(3)])
    from i(2) show "i < ?n" .
    from t(6) show "?n < unat (free_list_size t)" by simp
    from t(8) show "unat (free_list_size t) < fl_len t" .
    from f(4) show "adjacent_idx (entries t ! i) (entries t ! ?n)"
      by (simp add: nth_i nth_new)
  next
    fix k assume k: "k \<le> i"
    show "idx_end (entries t ! k) \<noteq> data_size t"
    proof (cases "k = i")
      case True
      from pd(6) d(1) i(2) have "idx_end ?e \<noteq> data_size s" by (rule compacted_nth)
      with True show ?thesis by (simp add: nth_i t(4))
    next
      case False
      with k i(2) have k': "k < ?n" by simp
      from pd(6) d(1) k' have "idx_end (?xs ! k) \<noteq> data_size s" by (rule compacted_nth)
      with False k' show ?thesis by (simp add: nth_old t(4))
    qed
  next
    fix k l assume k: "k < i" and kl: "k < l" and l: "l < unat (free_list_size t)"
    from k i(2) have k': "k < ?n" "k \<noteq> i" by simp_all
    note o = others [OF k']
    show "\<not> adjacent_idx (entries t ! k) (entries t ! l)"
    proof (cases "l = ?n")
      case True
      from split_quiet(2) [OF ve nz lt o] True show ?thesis
        by (simp add: nth_old [OF k'] nth_new)
    next
      case False
      with l t(6) have l': "l < ?n" by simp
      show ?thesis
      proof (cases "l = i")
        case True
        from split_quiet(1) [OF ve nz lt o] True show ?thesis
          by (simp add: nth_old [OF k'] nth_i)
      next
        case False
        with pd(6) d(1) k' l' show ?thesis
          by (simp add: nth_old compacted_nth)
      qed
    qed
  next
    fix l assume l: "i < l" "l < ?n"
    then have l': "l < ?n" "l \<noteq> i" by simp_all
    from split_quiet(3) [OF ve nz lt others [OF l']]
    show "\<not> adjacent_idx (entries t ! i) (entries t ! l)"
      by (simp add: nth_old [OF l'] nth_i)
  qed
  then obtain t2 where t2: "compress_pass 0 t = Some (True, t2)"
    "entries t2 = remove_nth ?n ((entries t)[i := merged (entries t ! i) (entries t ! ?n)])"
    "free_list_block t2" "data_size t2 = data_size t"
    "free_list_size t2 = free_list_size t - 1" "frame t t2"
    by blast
  from f(3) have "merged (entries t ! i) (entries t ! ?n) = ?e"
    by (simp only: nth_i nth_new)
  then have "(entries t)[i := merged (entries t ! i) (entries t ! ?n)] = (?ys @ [?r])[i := ?e]"
    by (simp only: t(2))
  also from i(2) d(2) have "\<dots> = ?ys[i := ?e] @ [?r]"
    by (simp add: list_update_append1)
  also have "?ys[i := ?e] = ?xs" by simp
  finally have "(entries t)[i := merged (entries t ! i) (entries t ! ?n)] = ?xs @ [?r]" .
  with d(2) have e2: "entries t2 = ?xs"
    using remove_nth_snoc [of ?xs ?r] by (simp add: t2(2))
  have ds2: "data_size t2 = data_size s" by (simp add: t2(4) t(4))
  have fs2: "free_list_size t2 = free_list_size s" by (simp add: t2(5) t(5))
  from pd(6) have "compacted t2"
    using compacted_cong [of t2 s] e2 ds2 by simp
  with t2(1,3) have "free_list_compress t = Some t2" by (intro compress_to_fix)
  with t(1) have m: "mex_mpfr_mark_free E ?r s1 = Some t2" by simp
  from pd(5) t2(3) e2 have inv2: "free_list_inv t2"
    by (rule free_list_inv_frame) (simp add: ds2)
  from i lt have "\<exists>s3. mex_mpfr_allocate E count idx' t2 =
      Some (True, \<lparr>idx_start = idx_start (entries t2 ! i),
        idx_end = idx_start (entries t2 ! i) + count - 1\<rparr>, s3) \<and>
    entries s3 = (entries t2)[i := (entries t2 ! i)\<lparr>idx_start := idx_start (entries t2 ! i) + count\<rparr>] \<and>
    free_list_block s3 \<and> data_size s3 = data_size t2 \<and>
    free_list_size s3 = free_list_size t2 \<and> frame t2 s3"
    by (intro allocate_reuse_partial [OF inv2 nz]) (simp_all add: e2 fs2)
  then obtain s3 where "mex_mpfr_allocate E count idx' t2 =
      Some (True, \<lparr>idx_start = idx_start (entries t2 ! i),
        idx_end = idx_start (entries t2 ! i) + count - 1\<rparr>, s3)" "frame t2 s3"
    by blast
  moreover from t2(6) t(7) have "data_capacity t2 = data_capacity s1" by (simp add: frame_def)
  ultimately have "mex_mpfr_allocate E count idx' t2 = Some (True, ?r, s3)"
    "data_capacity t2 = data_capacity s1" "data_capacity s3 = data_capacity s1"
    by (simp_all add: e2 frame_def)
  with s1(1) m show ?thesis
    by (intro exI [of _ ?r] exI [of _ s1] exI [of _ t2] exI [of _ s3] conjI)
qed

lemma case_exact:
  assumes p: "pool_inv s" and ok: "alloc_ok E" and nz: "count \<noteq> 0"
    and cap: "unat (free_list_capacity s) + 1000 < 2 ^ 64"
    and i: "first_fit count (entries s) = i" "i < unat (free_list_size s)"
    and eq: "length_idx (entries s ! i) = count"
    and room: "free_list_size s \<noteq> free_list_capacity s"
    and nl: "\<not> later_fit count (entries s)"
  shows "\<exists>r s1 s2 s3. mex_mpfr_allocate E count idx s = Some (True, r, s1) \<and>
    mex_mpfr_mark_free E r s1 = Some s2 \<and>
    mex_mpfr_allocate E count idx' s2 = Some (True, r, s3) \<and>
    data_capacity s2 = data_capacity s1 \<and> data_capacity s3 = data_capacity s1"
proof -
  let ?n = "unat (free_list_size s)"
  let ?xs = "entries s"
  let ?e = "?xs ! i"
  let ?ys = "remove_nth i ?xs"
  note pd = pool_invD [OF p]
  note d = free_list_invD [OF pd(5)]
  from d(3) [OF i(2)] have ve: "is_valid ?e s" .
  from room pd(4) have ncap: "?n < unat (free_list_capacity s)"
    by (simp add: word_le_nat_alt word_unat_eq_iff)
  with pd(3) have room': "?n < fl_len s" by simp
  from i(2) have n0: "free_list_size s \<noteq> 0" by auto
  then have n1: "unat (free_list_size s - 1) = ?n - 1" by (simp add: unat_minus_one)
  from allocate_reuse_exact [OF pd(5) nz i eq room', of E idx] obtain s1 where s1:
    "mex_mpfr_allocate E count idx s = Some (True, ?e, s1)"
    "entries s1 = ?ys" "free_list_block s1" "data_size s1 = data_size s"
    "free_list_size s1 = free_list_size s - 1" "frame s s1"
    by blast
  from ve s1(4) have vr: "is_valid ?e s1" by (simp add: is_valid_def)
  from ve have "unat (idx_end ?e) \<le> unat (data_size s)" by (simp add: is_valid_nat)
  with pd(1,2) s1(6) have dl: "unat (idx_end ?e) \<le> data_len s1"
    by (simp add: word_le_nat_alt frame_def)
  from ncap n1 s1(5,6) have ne1: "free_list_size s1 \<noteq> free_list_capacity s1"
    "free_list_size s1 \<le> free_list_capacity s1"
    by (auto simp: frame_def word_le_nat_alt word_unat_eq_iff)
  from cap pd(3) ne1(2) s1(6)
  have "\<exists>t. mex_mpfr_mark_free E ?e s1 = free_list_compress t \<and>
    entries t = entries s1 @ [?e] \<and> free_list_block t \<and> data_size t = data_size s1 \<and>
    free_list_size t = free_list_size s1 + 1 \<and>
    unat (free_list_size t) = unat (free_list_size s1) + 1 \<and>
    data_capacity t = data_capacity s1 \<and>
    (unat (free_list_size s1) + 1 \<noteq> unat (free_list_capacity s1) \<longrightarrow>
       unat (free_list_size t) < fl_len t) \<and>
    (free_list_size s1 \<noteq> free_list_capacity s1 \<longrightarrow> fl_len t = fl_len s1)"
    by (intro mark_free_to_compress [OF vr ok s1(3) _ _ _ dl]) (simp_all add: frame_def)
  then obtain t where t0: "mex_mpfr_mark_free E ?e s1 = free_list_compress t"
    "entries t = entries s1 @ [?e]" "free_list_block t" "data_size t = data_size s1"
    "free_list_size t = free_list_size s1 + 1"
    "unat (free_list_size t) = unat (free_list_size s1) + 1"
    "data_capacity t = data_capacity s1"
    "unat (free_list_size s1) + 1 \<noteq> unat (free_list_capacity s1) \<longrightarrow>
       unat (free_list_size t) < fl_len t"
    "free_list_size s1 \<noteq> free_list_capacity s1 \<longrightarrow> fl_len t = fl_len s1"
    by blast
  with ne1(1) s1(2,4,5,6) have t: "mex_mpfr_mark_free E ?e s1 = free_list_compress t"
    "entries t = ?ys @ [?e]" "free_list_block t" "data_size t = data_size s"
    "free_list_size t = free_list_size s" "fl_len t = fl_len s"
    by (simp_all add: frame_def)
  from i(2) d(2) have set_t: "set (entries t) = set ?xs"
    by (simp only: t(2) set_remove_nth_snoc)
  from pd(6) have "compacted t"
    using compacted_cong [of t s] set_t t(4) by simp
  with t(3) have "free_list_compress t = Some t" by (intro free_list_compress_fix)
  with t(1) have m: "mex_mpfr_mark_free E ?e s1 = Some t" by simp
  have inv_t: "free_list_inv t"
  proof (rule free_list_invI)
    show "free_list_block t" by fact
    fix x assume "x \<in> set (entries t)"
    with set_t pd(5) have "is_valid x s" by (simp add: free_list_inv_def list_all_iff)
    then show "is_valid x t" by (simp add: is_valid_def t(4))
  next
    have "disjoint_idx x ?e" if "x \<in> set ?ys" for x
    proof -
      from that i(2) d(2) obtain k where "k < length ?xs" "k \<noteq> i" "x = ?xs ! k"
        using in_set_remove_nth [of x i ?xs] by auto
      with d(2,4) i(2) show ?thesis by (simp add: sorted_wrt_disjoint_nth)
    qed
    with d(4) show "sorted_wrt disjoint_idx (entries t)"
      by (simp add: t(2) sorted_wrt_append sorted_wrt_remove_nth)
  qed
  from i(2) d(2) have len_ys: "length ?ys = ?n - 1" by (simp add: length_remove_nth)
  have last_t: "entries t ! (?n - 1) = ?e"
    using len_ys by (simp add: t(2) nth_append)
  have ff: "first_fit count (entries t) = ?n - 1"
  proof (rule first_fit_eqI)
    from len_ys show "?n - 1 \<le> length (entries t)" by (simp add: t(2))
    from eq show "count \<le> length_idx (entries t ! (?n - 1))" unfolding last_t by simp
  next
    fix k assume k: "k < ?n - 1"
    with len_ys i(2) d(2) have "entries t ! k = (if k < i then ?xs ! k else ?xs ! Suc k)"
      by (simp add: t(2) nth_append nth_remove_nth)
    moreover have "\<not> count \<le> length_idx (?xs ! k)" if "k < i"
      using that i(1) first_fit_before [of k count ?xs] by simp
    moreover have "\<not> count \<le> length_idx (?xs ! Suc k)" if "\<not> k < i"
      using that k i(1) d(2) later_fit_nth [OF nl, of "Suc k"] by simp
    ultimately show "\<not> count \<le> length_idx (entries t ! k)" by simp
  qed
  from i(2) have lt_n: "?n - 1 < unat (free_list_size t)" by (simp add: t(5))
  from room' have room_t: "unat (free_list_size t) < fl_len t" by (simp add: t(5,6))
  from eq have eq_t: "length_idx (entries t ! (?n - 1)) = count" unfolding last_t .
  from allocate_reuse_exact [OF inv_t nz ff lt_n eq_t room_t, of E idx'] obtain s3 where
    s3: "mex_mpfr_allocate E count idx' t = Some (True, entries t ! (?n - 1), s3)" "frame t s3"
    by blast
  from s3(1) have "mex_mpfr_allocate E count idx' t = Some (True, ?e, s3)"
    unfolding last_t .
  moreover from t0(7) have "data_capacity t = data_capacity s1" .
  moreover from s3(2) t0(7) have "data_capacity s3 = data_capacity s1" by (simp add: frame_def)
  ultimately show ?thesis using s1(1) m
    by (intro exI [of _ ?e] exI [of _ s1] exI [of _ t] exI [of _ s3] conjI)
qed

subsection \<open>The product when the output is one of the inputs\<close>

lemma fold_fma_cell_length [simp]:
  "length (fst (fold (\<lambda>k. fma_cell E rnd c (bi k) (ai k)) ks (d, r))) = length d"
  by (induction ks arbitrary: d r) (simp_all add: fma_cell_def)

lemma fold_fma_cell_frame:
  "\<exists>w. fst (fold (\<lambda>k. fma_cell E rnd c (bi k) (ai k)) ks (d, r)) = d[c := w]"
proof (induction ks arbitrary: d r)
  case Nil
  have "d = d[c := d ! c]" by simp
  then show ?case by (simp del: list_update_id) blast
next
  case (Cons k ks)
  let ?v = "fst (mpfr_fma E rnd (d ! c) (d ! bi k) (d ! ai k) (d ! c))"
  let ?t = "snd (mpfr_fma E rnd (d ! c) (d ! bi k) (d ! ai k) (d ! c))"
  from Cons.IH [of "d[c := ?v]" "r OR ?t"]
  obtain w where "fst (fold (\<lambda>k. fma_cell E rnd c (bi k) (ai k)) ks (d[c := ?v], r OR ?t)) =
      d[c := ?v, c := w]" by blast
  then show ?case by (auto simp: fma_cell_def)
qed

lemma fold_fma_cell_local:
  assumes "x \<noteq> c" and "\<And>k. k \<in> set ks \<Longrightarrow> bi k \<noteq> x \<and> ai k \<noteq> x"
  shows "fold (\<lambda>k. fma_cell E rnd c (bi k) (ai k)) ks (d[x := v], r) =
    ((fst (fold (\<lambda>k. fma_cell E rnd c (bi k) (ai k)) ks (d, r)))[x := v],
     snd (fold (\<lambda>k. fma_cell E rnd c (bi k) (ai k)) ks (d, r)))"
  using assms
proof (induction ks arbitrary: d r)
  case Nil
  then show ?case by simp
next
  case (Cons k ks)
  let ?v = "fst (mpfr_fma E rnd (d ! c) (d ! bi k) (d ! ai k) (d ! c))"
  let ?t = "snd (mpfr_fma E rnd (d ! c) (d ! bi k) (d ! ai k) (d ! c))"
  from Cons.prems have ne: "x \<noteq> c" "bi k \<noteq> x" "ai k \<noteq> x" by auto
  then have first: "fma_cell E rnd c (bi k) (ai k) (d[x := v], r) = (d[c := ?v, x := v], r OR ?t)"
    by (simp add: fma_cell_def list_update_swap)
  have same: "fma_cell E rnd c (bi k) (ai k) (d, r) = (d[c := ?v], r OR ?t)"
    by (simp add: fma_cell_def)
  have "fold (\<lambda>k. fma_cell E rnd c (bi k) (ai k)) ks (d[c := ?v, x := v], r OR ?t) =
    ((fst (fold (\<lambda>k. fma_cell E rnd c (bi k) (ai k)) ks (d[c := ?v], r OR ?t)))[x := v],
     snd (fold (\<lambda>k. fma_cell E rnd c (bi k) (ai k)) ks (d[c := ?v], r OR ?t)))"
    using Cons.prems by (intro Cons.IH) auto
  then show ?case by (simp add: first same)
qed

lemma mmm_cell_length [simp]: "length (fst (mmm_cell E rnd C A B m kk p d)) = length d"
  by (simp add: mmm_cell_def)

text \<open>
  Two elements of \<open>C\<close> in different rows and different columns: neither is an
  operand of the other.
\<close>

lemma mmm_cell_apart:
  assumes layout: "mmm_alias_layout d0 C A B m n kk"
    and p: "fst p < m" "snd p < n" and q: "fst q < m" "snd q < n"
    and ne: "fst p \<noteq> fst q" "snd p \<noteq> snd q"
  shows "C + m * snd q + fst q \<noteq> C + m * snd p + fst p"
    and "k < kk \<Longrightarrow> B + k + kk * snd p \<noteq> C + m * snd q + fst q"
    and "k < kk \<Longrightarrow> A + fst p + m * k \<noteq> C + m * snd q + fst q"
proof -
  obtain i j where pij: "p = (i, j)" by (cases p)
  obtain i' j' where qij: "q = (i', j')" by (cases q)
  from p q ne pij qij have r: "i < m" "j < n" "i' < m" "j' < n" "i \<noteq> i'" "j \<noteq> j'" by simp_all
  from layout have LA: "C + m * n \<le> A \<or> A + m * kk \<le> C \<or> A = C \<and> m * kk = m * n"
    and LB: "C + m * n \<le> B \<or> B + kk * n \<le> C \<or> B = C \<and> kk * n = m * n"
    by (simp_all add: mmm_alias_layout_def)
  have cq: "m * j' + i' < m * n" using r(3,4) by (rule mult_add_less)
  from mult_add_inj [OF r(3) r(1), of j' j] r(5)
  have "m * j' + i' \<noteq> m * j + i" by auto
  then show "C + m * snd q + fst q \<noteq> C + m * snd p + fst p" by (simp add: pij qij)
  show "B + k + kk * snd p \<noteq> C + m * snd q + fst q" if k: "k < kk"
  proof -
    have b: "kk * j + k < kk * n" using k r(2) by (rule mult_add_less)
    from LB show ?thesis
    proof (elim disjE conjE)
      assume "C + m * n \<le> B"
      with cq show ?thesis by (simp add: pij qij)
    next
      assume "B + kk * n \<le> C"
      with b show ?thesis by (simp add: pij qij)
    next
      assume e: "B = C" "kk * n = m * n"
      with r(2) have km: "kk = m" by simp
      from mult_add_inj [OF _ r(3), of k j j'] k km r(6)
      have "m * j + k \<noteq> m * j' + i'" by auto
      with e km show ?thesis by (simp add: pij qij)
    qed
  qed
  show "A + fst p + m * k \<noteq> C + m * snd q + fst q" if k: "k < kk"
  proof -
    have a: "m * k + i < m * kk" using r(1) k by (rule mult_add_less)
    from LA show ?thesis
    proof (elim disjE conjE)
      assume "C + m * n \<le> A"
      with cq show ?thesis by (simp add: pij qij)
    next
      assume "A + m * kk \<le> C"
      with a show ?thesis by (simp add: pij qij)
    next
      assume e: "A = C" "m * kk = m * n"
      from mult_add_inj [OF r(1) r(3), of k j'] r(5)
      have "m * k + i \<noteq> m * j' + i'" by auto
      with e show ?thesis by (simp add: pij qij)
    qed
  qed
qed

lemma mmm_cell_commute:
  assumes layout: "mmm_alias_layout d0 C A B m n kk"
    and p: "fst p < m" "snd p < n" and q: "fst q < m" "snd q < n"
    and ne: "fst p \<noteq> fst q" "snd p \<noteq> snd q"
  shows "fst (mmm_cell E rnd C A B m kk p (fst (mmm_cell E rnd C A B m kk q d))) =
      fst (mmm_cell E rnd C A B m kk q (fst (mmm_cell E rnd C A B m kk p d)))"
    and "snd (mmm_cell E rnd C A B m kk p (fst (mmm_cell E rnd C A B m kk q d))) =
      snd (mmm_cell E rnd C A B m kk p d)"
proof -
  let ?cp = "C + m * snd p + fst p" and ?cq = "C + m * snd q + fst q"
  note pq = mmm_cell_apart [OF layout p q ne]
  note qp = mmm_cell_apart [OF layout q p ne [symmetric]]
  obtain w where w: "fst (mmm_cell E rnd C A B m kk q d) = d[?cq := w]"
    unfolding mmm_cell_def
    using fold_fma_cell_frame [where c = ?cq and d = d and ks = "[0..<kk]" and r = 0
        and bi = "\<lambda>k. B + k + kk * snd q" and ai = "\<lambda>k. A + fst q + m * k"
        and E = E and rnd = rnd]
    by blast
  obtain w' where w': "fst (mmm_cell E rnd C A B m kk p d) = d[?cp := w']"
    unfolding mmm_cell_def
    using fold_fma_cell_frame [where c = ?cp and d = d and ks = "[0..<kk]" and r = 0
        and bi = "\<lambda>k. B + k + kk * snd p" and ai = "\<lambda>k. A + fst p + m * k"
        and E = E and rnd = rnd]
    by blast
  have 1: "mmm_cell E rnd C A B m kk p (d[?cq := w]) =
      ((fst (mmm_cell E rnd C A B m kk p d))[?cq := w], snd (mmm_cell E rnd C A B m kk p d))"
    unfolding mmm_cell_def using pq by (intro fold_fma_cell_local) auto
  have 2: "mmm_cell E rnd C A B m kk q (d[?cp := w']) =
      ((fst (mmm_cell E rnd C A B m kk q d))[?cp := w'], snd (mmm_cell E rnd C A B m kk q d))"
    unfolding mmm_cell_def using qp by (intro fold_fma_cell_local) auto
  from pq(1) have "d[?cp := w', ?cq := w] = d[?cq := w, ?cp := w']"
    by (simp add: list_update_swap)
  then show "fst (mmm_cell E rnd C A B m kk p (fst (mmm_cell E rnd C A B m kk q d))) =
      fst (mmm_cell E rnd C A B m kk q (fst (mmm_cell E rnd C A B m kk p d)))"
    by (simp add: w w' 1 2)
  show "snd (mmm_cell E rnd C A B m kk p (fst (mmm_cell E rnd C A B m kk q d))) =
      snd (mmm_cell E rnd C A B m kk p d)"
    by (simp add: w 1)
qed

lemma mmm_visit_commute:
  assumes layout: "mmm_alias_layout d0 C A B m n kk"
    and p: "fst p < m" "snd p < n" and q: "fst q < m" "snd q < n"
    and ne: "fst p \<noteq> fst q" "snd p \<noteq> snd q"
  shows "mmm_visit E rnd C A B m kk p \<circ> mmm_visit E rnd C A B m kk q =
    mmm_visit E rnd C A B m kk q \<circ> mmm_visit E rnd C A B m kk p"
proof (rule ext)
  fix s :: "'b list \<times> (nat \<times> nat \<Rightarrow> int)"
  obtain d t where s: "s = (d, t)" by (cases s)
  from ne have pq: "p \<noteq> q" by auto
  note a = mmm_cell_commute [OF layout p q ne, where E = E and rnd = rnd and d = d]
  note b = mmm_cell_commute [OF layout q p ne [symmetric], where E = E and rnd = rnd and d = d]
  show "(mmm_visit E rnd C A B m kk p \<circ> mmm_visit E rnd C A B m kk q) s =
    (mmm_visit E rnd C A B m kk q \<circ> mmm_visit E rnd C A B m kk p) s"
    using pq by (simp add: s mmm_visit_def a b(2) fun_upd_twist)
qed

text \<open>
  Two orders of the same steps give the same result when the steps whose order
  differs commute.
\<close>

lemma fold_commute_one:
  assumes "\<And>b. b \<in> set us \<Longrightarrow> F a \<circ> F b = F b \<circ> F a"
  shows "F a \<circ> fold F us = fold F us \<circ> F a"
  by (rule fold_commute) (rule assms)

lemma fold_two_orders:
  assumes "sorted_wrt R xs" "sorted_wrt S ys" "distinct xs" "distinct ys" "set xs = set ys"
    and comm: "\<And>a b. a \<in> set xs \<Longrightarrow> b \<in> set xs \<Longrightarrow> R a b \<Longrightarrow> S b a \<Longrightarrow> F a \<circ> F b = F b \<circ> F a"
  shows "fold F xs = fold F ys"
  using assms
proof (induction xs arbitrary: ys)
  case Nil
  then show ?case by simp
next
  case (Cons a xs)
  from Cons.prems(5) have "a \<in> set ys" by auto
  then obtain us vs where ys: "ys = us @ a # vs" by (auto simp: in_set_conv_decomp)
  from Cons.prems(4) ys have a: "a \<notin> set us" "a \<notin> set vs" "distinct (us @ vs)" by auto
  from Cons.prems(3) have ax: "a \<notin> set xs" "distinct xs" by auto
  from Cons.prems(5) ys a ax have sets: "set xs = set (us @ vs)" by auto
  have us: "F a \<circ> F b = F b \<circ> F a" if b: "b \<in> set us" for b
  proof -
    from b sets have bx: "b \<in> set xs" by auto
    with Cons.prems(1) have "R a b" by simp
    moreover from Cons.prems(2) ys b have "S b a" by (simp add: sorted_wrt_append)
    ultimately show ?thesis using bx by (intro Cons.prems(6)) auto
  qed
  have "fold F xs = fold F (us @ vs)"
  proof (rule Cons.IH)
    show "sorted_wrt R xs" using Cons.prems(1) by simp
    show "sorted_wrt S (us @ vs)" using Cons.prems(2) ys by (auto simp: sorted_wrt_append)
    show "distinct xs" by (rule ax)
    show "distinct (us @ vs)" by (rule a)
    show "set xs = set (us @ vs)" by (rule sets)
    show "F x \<circ> F y = F y \<circ> F x" if "x \<in> set xs" "y \<in> set xs" "R x y" "S y x" for x y
      using that by (intro Cons.prems(6)) auto
  qed
  then have "fold F (a # xs) = fold F vs \<circ> (fold F us \<circ> F a)"
    by (simp add: comp_assoc)
  also have "\<dots> = fold F vs \<circ> (F a \<circ> fold F us)"
    by (simp only: fold_commute_one [of us F a, OF us])
  also have "\<dots> = fold F ys" by (simp add: ys comp_assoc)
  finally show ?case .
qed

lemma sorted_wrt_product:
  assumes "sorted_wrt R xs" "sorted_wrt S ys"
  shows "sorted_wrt (\<lambda>p q. R (fst p) (fst q) \<or> fst p = fst q \<and> S (snd p) (snd q))
    (List.product xs ys)"
  using assms(1)
proof (induction xs)
  case Nil
  then show ?case by simp
next
  case (Cons x xs)
  have "sorted_wrt (\<lambda>a b. S a b) ys" by (rule assms(2))
  then have "sorted_wrt (\<lambda>a b. R x x \<or> S a b) ys"
    by (rule sorted_wrt_mono_rel [rotated]) simp
  with Cons show ?case
    by (auto simp: sorted_wrt_append sorted_wrt_map)
qed

lemma sorted_ijk_order: "sorted_wrt ij_before (ijk_order m n)"
proof -
  have "sorted_wrt (\<lambda>p q. fst p < fst q \<or> fst p = fst q \<and> snd p < snd q)
      (List.product [0..<m] [0..<n])"
    by (rule sorted_wrt_product) simp_all
  then show ?thesis
    by (simp add: ijk_order_def ij_before_def [abs_def])
qed

lemma sorted_jik_order: "sorted_wrt ji_before (jik_order m n)"
proof -
  have "sorted_wrt (\<lambda>p q. fst p < fst q \<or> fst p = fst q \<and> snd p < snd q)
      (List.product [0..<n] [0..<m])"
    by (rule sorted_wrt_product) simp_all
  then show ?thesis
    by (simp add: jik_order_def ji_before_def [abs_def] sorted_wrt_map)
qed

lemma mmm_visit_orders:
  assumes layout: "mmm_alias_layout d0 C A B m n kk"
  shows "fold (mmm_visit E rnd C A B m kk) (ijk_order m n) =
    fold (mmm_visit E rnd C A B m kk) (jik_order m n)"
proof (rule fold_two_orders [OF sorted_ijk_order sorted_jik_order])
  show "distinct (ijk_order m n)" "distinct (jik_order m n)" by simp_all
  show "set (ijk_order m n) = set (jik_order m n)" by simp
  fix p q
  assume "p \<in> set (ijk_order m n)" "q \<in> set (ijk_order m n)" "ij_before p q" "ji_before q p"
  then have "fst p < m" "snd p < n" "fst q < m" "snd q < n" "fst p \<noteq> fst q" "snd p \<noteq> snd q"
    by (auto simp: ij_before_def ji_before_def)
  with layout show "mmm_visit E rnd C A B m kk p \<circ> mmm_visit E rnd C A B m kk q =
    mmm_visit E rnd C A B m kk q \<circ> mmm_visit E rnd C A B m kk p"
    by (rule mmm_visit_commute)
qed

text \<open>The block of return values.\<close>

lemma mmm_visit_keys:
  "p \<notin> set ps \<Longrightarrow> snd (fold (mmm_visit E rnd C A B m kk) ps (d, t)) p = t p"
  by (induction ps arbitrary: d t) (auto simp: mmm_visit_def)

lemma mmm_store_visit:
  assumes "distinct ps"
  shows "fold (mmm_store E rnd C A B m kk stride) ps (d, ret) =
    (fst (fold (mmm_visit E rnd C A B m kk) ps (d, t)),
     fold (\<lambda>p r. r[stride * (m * snd p + fst p) :=
       snd (fold (mmm_visit E rnd C A B m kk) ps (d, t)) p]) ps ret)"
  using assms
proof (induction ps arbitrary: d ret t)
  case Nil
  then show ?case by simp
next
  case (Cons p ps)
  let ?d = "fst (mmm_cell E rnd C A B m kk p d)"
  let ?v = "snd (mmm_cell E rnd C A B m kk p d)"
  from Cons.prems have p: "p \<notin> set ps" and dist: "distinct ps" by auto
  have key: "snd (fold (mmm_visit E rnd C A B m kk) ps (?d, t(p := ?v))) p = ?v"
    using p by (simp add: mmm_visit_keys)
  have G: "fold (mmm_store E rnd C A B m kk stride) (p # ps) (d, ret) =
      fold (mmm_store E rnd C A B m kk stride) ps (?d, ret[stride * (m * snd p + fst p) := ?v])"
    by (simp add: mmm_store_def)
  have H: "fold (mmm_visit E rnd C A B m kk) (p # ps) (d, t) =
      fold (mmm_visit E rnd C A B m kk) ps (?d, t(p := ?v))"
    by (simp add: mmm_visit_def)
  note IH = Cons.IH [OF dist, of ?d "ret[stride * (m * snd p + fst p) := ?v]" "t(p := ?v)"]
  show ?case
    unfolding G H by (simp only: fold_Cons o_apply key IH)
qed

lemma ret_orders_eq:
  assumes "stride = 1 \<and> m * n \<le> length ret \<or> stride = 0"
  shows "fold (\<lambda>p r. r[stride * (m * snd p + fst p) := v p]) (ijk_order m n) ret =
    fold (\<lambda>p r. r[stride * (m * snd p + fst p) := v p]) (jik_order m n) (ret :: int list)"
proof (cases "stride = 0")
  case True
  show ?thesis
  proof (cases "m = 0 \<or> n = 0")
    case True
    then have "ijk_order m n = []" "jik_order m n = []" by (simp_all add: orders_Nil_iff)
    then show ?thesis by simp
  next
    case False
    then have "ijk_order m n \<noteq> []" "jik_order m n \<noteq> []"
      "last (ijk_order m n) = last (jik_order m n)"
      by (simp_all add: orders_Nil_iff last_orders)
    with \<open>stride = 0\<close> show ?thesis
      by (simp add: fold_upd_same_index)
  qed
next
  case False
  with assms have s: "stride = 1" "m * n \<le> length ret" by auto
  have "fold (\<lambda>p r. r[0 + m * snd p + fst p := v p]) (ijk_order m n) ret =
    fold (\<lambda>p r. r[0 + m * snd p + fst p := v p]) (jik_order m n) ret"
  proof (rule fold_upd_eq)
    show "set (ijk_order m n) = set (jik_order m n)" by simp
    show "inj_on (\<lambda>p. 0 + m * snd p + fst p) (set (ijk_order m n))"
      by (simp only: set_ijk_order mmm_cell_inj)
    show "0 + m * snd p + fst p < length ret" if "p \<in> set (ijk_order m n)" for p
    proof -
      from that have "fst p < m" "snd p < n" by auto
      then have "m * snd p + fst p < m * n" by (rule mult_add_less)
      with s show ?thesis by simp
    qed
  qed
  with s show ?thesis by simp
qed

lemma mmm_store_orders:
  assumes layout: "mmm_alias_layout d0 C A B m n kk"
    and stride: "stride = 1 \<and> m * n \<le> length ret \<or> stride = 0"
  shows "fold (mmm_store E rnd C A B m kk stride) (ijk_order m n) (d, ret) =
    fold (mmm_store E rnd C A B m kk stride) (jik_order m n) (d, ret)"
proof -
  note v = mmm_visit_orders [OF layout, of E rnd]
  show ?thesis
    unfolding mmm_store_visit [OF distinct_ijk_order, where t = "\<lambda>p. 0"]
      mmm_store_visit [OF distinct_jik_order, where t = "\<lambda>p. 0"] v
    using stride by (simp add: ret_orders_eq)
qed

text \<open>The loops of the code compute these functions.\<close>

lemma k_loop_cell:
  assumes "c < length d"
    and "\<And>k. k \<in> set ks \<Longrightarrow> bi k < length d \<and> ai k < length d"
    and "\<And>k d'. k \<in> set ks \<Longrightarrow> length d' = length d \<Longrightarrow> step k (Some d') =
       Some (Some (d'[c := fst (mpfr_fma E rnd (d' ! c) (d' ! bi k) (d' ! ai k) (d' ! c))]),
             snd (mpfr_fma E rnd (d' ! c) (d' ! bi k) (d' ! ai k) (d' ! c)))"
  shows "for_loop ks (\<lambda>k (d, ret). do { (d', t) \<leftarrow> step k d; Some (d', ret OR t) }) (Some d, r0) =
    Some (Some (fst (fold (\<lambda>k. fma_cell E rnd c (bi k) (ai k)) ks (d, r0))),
          snd (fold (\<lambda>k. fma_cell E rnd c (bi k) (ai k)) ks (d, r0)))"
  using assms
proof (induction ks arbitrary: d r0)
  case Nil
  then show ?case by simp
next
  case (Cons k ks)
  let ?v = "fst (mpfr_fma E rnd (d ! c) (d ! bi k) (d ! ai k) (d ! c))"
  let ?t = "snd (mpfr_fma E rnd (d ! c) (d ! bi k) (d ! ai k) (d ! c))"
  let ?d = "d[c := ?v]"
  have step: "step k (Some d) = Some (Some ?d, ?t)"
    using Cons.prems(3) [of k d] by simp
  have IH: "for_loop ks (\<lambda>k (d, ret). do { (d', t) \<leftarrow> step k d; Some (d', ret OR t) })
      (Some ?d, r0 OR ?t) =
    Some (Some (fst (fold (\<lambda>k. fma_cell E rnd c (bi k) (ai k)) ks (?d, r0 OR ?t))),
          snd (fold (\<lambda>k. fma_cell E rnd c (bi k) (ai k)) ks (?d, r0 OR ?t)))"
    using Cons.prems by (intro Cons.IH) auto
  have first: "fma_cell E rnd c (bi k) (ai k) (d, r0) = (?d, r0 OR ?t)"
    by (simp add: fma_cell_def)
  show ?case
    using step IH by (simp add: first)
qed

lemma mmm_elem_cell:
  fixes M N K :: "64 word"
  assumes layout: "mmm_alias_layout d0 C A B (unat M) (unat N) (unat K)"
    and len: "length d = length d0"
    and i: "i < unat M" and j: "j < unat N"
    and r: "unat ((M * of_nat j + of_nat i) * ret_stride) = r" "r < length ret"
  shows "mmm_elem E rnd C A B M K ret_stride (of_nat i) (of_nat j) (Some d, Some ret) =
    Some (Some (fst (mmm_cell E rnd C A B (unat M) (unat K) (i, j) d)),
          Some (ret[r := snd (mmm_cell E rnd C A B (unat M) (unat K) (i, j) d)]))"
proof -
  let ?m = "unat M" and ?n = "unat N" and ?k = "unat K"
  let ?c = "C + ?m * j + i"
  let ?bi = "\<lambda>k. B + k + ?k * j" and ?ai = "\<lambda>k. A + i + ?m * k"
  from layout have L: "?m * ?n < 2 ^ 64" "C + ?m * ?n \<le> length d0" "A + ?m * ?k \<le> length d0"
    "B + ?k * ?n \<le> length d0" "?m * ?k < 2 ^ 64" "?k * ?n < 2 ^ 64"
    by (auto simp: mmm_alias_layout_def)
  have cin: "?m * j + i < ?m * ?n" using i j by (rule mult_add_less)
  with L have c: "?c < length d" by (simp add: len)
  have ui: "unat (of_nat i :: 64 word) = i" using i by (rule unat_of_nat_less)
  have uj: "unat (of_nat j :: 64 word) = j" using j by (rule unat_of_nat_less)
  have mj: "unat (M * of_nat j) = ?m * j"
  proof (rule unat_mult_of_nat)
    have "?m * j \<le> ?m * j + i" by simp
    also have "\<dots> < ?m * ?n" by (rule cin)
    also have "\<dots> < 2 ^ 64" using L by simp
    finally show "?m * j < 2 ^ 64" .
    show "j < 2 ^ 64" using j unat_less_2p64 [of N] by simp
  qed
  have kfacts: "?bi k < length d \<and> ?ai k < length d \<and>
      unat (of_nat k :: 64 word) = k \<and> unat (K * of_nat j) = ?k * j \<and>
      unat (M * of_nat k) = ?m * k"
    if k: "k < ?k" for k
  proof -
    have b: "?k * j + k < ?k * ?n" using k j by (rule mult_add_less)
    have a: "?m * k + i < ?m * ?k" using i k by (rule mult_add_less)
    have uk: "unat (of_nat k :: 64 word) = k" using k by (rule unat_of_nat_less)
    have kj: "unat (K * of_nat j) = ?k * j"
    proof (rule unat_mult_of_nat)
      have "?k * j \<le> ?k * j + k" by simp
      also have "\<dots> < ?k * ?n" by (rule b)
      also have "\<dots> < 2 ^ 64" using L by simp
      finally show "?k * j < 2 ^ 64" .
      show "j < 2 ^ 64" using j unat_less_2p64 [of N] by simp
    qed
    have mk: "unat (M * of_nat k) = ?m * k"
    proof (rule unat_mult_of_nat)
      have "?m * k \<le> ?m * k + i" by simp
      also have "\<dots> < ?m * ?k" by (rule a)
      also have "\<dots> < 2 ^ 64" using L by simp
      finally show "?m * k < 2 ^ 64" .
      show "k < 2 ^ 64" using k unat_less_2p64 [of K] by simp
    qed
    from b a L uk kj mk show ?thesis by (auto simp: len)
  qed
  have loop: "for_loop [0..<?k]
      (\<lambda>k (d, ret). do {
         (d', t) \<leftarrow> mmm_fma E rnd C A B M K (of_nat i) (of_nat j) (of_nat k) d;
         Some (d', ret OR t) }) (Some d, 0) =
    Some (Some (fst (fold (\<lambda>k. fma_cell E rnd ?c (?bi k) (?ai k)) [0..<?k] (d, 0))),
          snd (fold (\<lambda>k. fma_cell E rnd ?c (?bi k) (?ai k)) [0..<?k] (d, 0)))"
  proof (rule k_loop_cell [where bi = ?bi and ai = ?ai])
    show "?c < length d" by (rule c)
    show "?bi k < length d \<and> ?ai k < length d"
      if "k \<in> set [0..<?k]" for k using kfacts [of k] that by simp
    show "mmm_fma E rnd C A B M K (of_nat i) (of_nat j) (of_nat k) (Some d'') =
       Some (Some (d''[?c := fst (mpfr_fma E rnd (d'' ! ?c) (d'' ! ?bi k) (d'' ! ?ai k) (d'' ! ?c))]),
             snd (mpfr_fma E rnd (d'' ! ?c) (d'' ! ?bi k) (d'' ! ?ai k) (d'' ! ?c)))"
      if "k \<in> set [0..<?k]" "length d'' = length d" for k d''
      using kfacts [of k] that c by (intro mmm_fma_Some) (simp_all add: ui uj mj)
  qed
  show ?thesis
    using r by (simp add: mmm_elem_def for_loop_upto loop mmm_cell_def)
qed

lemma mmm_pairs_cell:
  fixes M N K :: "64 word"
  assumes layout: "mmm_alias_layout d0 C A B (unat M) (unat N) (unat K)"
    and ps: "\<And>i j. (i, j) \<in> set ps \<Longrightarrow> i < unat M \<and> j < unat N"
    and len: "length d = length d0"
    and stride: "ret_stride = 1 \<and> unat M * unat N \<le> length ret \<or> ret_stride = 0 \<and> 0 < length ret"
  shows "for_loop ps (\<lambda>(i, j). mmm_elem E rnd C A B M K ret_stride (of_nat i) (of_nat j))
      (Some d, Some ret) =
    Some (Some (fst (fold (mmm_store E rnd C A B (unat M) (unat K) (unat ret_stride)) ps (d, ret))),
          Some (snd (fold (mmm_store E rnd C A B (unat M) (unat K) (unat ret_stride)) ps (d, ret))))"
  using ps len stride
proof (induction ps arbitrary: d ret)
  case Nil
  then show ?case by simp
next
  case (Cons p ps)
  obtain i j where p: "p = (i, j)" by (cases p)
  let ?m = "unat M" and ?n = "unat N"
  let ?d = "fst (mmm_cell E rnd C A B ?m (unat K) (i, j) d)"
  let ?t = "snd (mmm_cell E rnd C A B ?m (unat K) (i, j) d)"
  let ?r = "unat ret_stride * (?m * j + i)"
  from Cons.prems(1) [of i j] p have ij: "i < ?m" "j < ?n" by auto
  have cin: "?m * j + i < ?m * ?n" using ij by (rule mult_add_less)
  from layout have L: "?m * ?n < 2 ^ 64" by (auto simp: mmm_alias_layout_def)
  have r1: "unat ((M * of_nat j + of_nat i) * ret_stride) = ?r"
  proof (cases "ret_stride = 1")
    case True
    have "unat (M * of_nat j) = ?m * j"
    proof (rule unat_mult_of_nat)
      show "?m * j < 2 ^ 64" using cin L by simp
      show "j < 2 ^ 64" using ij unat_less_2p64 [of N] by simp
    qed
    moreover have "unat (of_nat i :: 64 word) = i" using ij(1) by (rule unat_of_nat_less)
    moreover have "?m * j + i < 2 ^ 64" using cin L by simp
    ultimately have "unat (M * of_nat j + of_nat i) = ?m * j + i"
      using unat_add_nowrap [of "M * of_nat j" "of_nat i"] by simp
    with True show ?thesis by simp
  next
    case False
    with Cons.prems(3) show ?thesis by simp
  qed
  have r2: "?r < length ret"
    using Cons.prems(3) cin by auto
  have step: "mmm_elem E rnd C A B M K ret_stride (of_nat i) (of_nat j) (Some d, Some ret) =
      Some (Some ?d, Some (ret[?r := ?t]))"
    using layout Cons.prems(2) ij r1 r2 by (rule mmm_elem_cell)
  have rest: "for_loop ps (\<lambda>(i, j). mmm_elem E rnd C A B M K ret_stride (of_nat i) (of_nat j))
      (Some ?d, Some (ret[?r := ?t])) =
    Some (Some (fst (fold (mmm_store E rnd C A B ?m (unat K) (unat ret_stride)) ps (?d, ret[?r := ?t]))),
          Some (snd (fold (mmm_store E rnd C A B ?m (unat K) (unat ret_stride)) ps (?d, ret[?r := ?t]))))"
  proof (rule Cons.IH)
    show "i' < ?m \<and> j' < ?n" if "(i', j') \<in> set ps" for i' j'
      using Cons.prems(1) [of i' j'] that by simp
    show "length ?d = length d0" using Cons.prems(2) by simp
    show "ret_stride = 1 \<and> ?m * ?n \<le> length (ret[?r := ?t]) \<or>
      ret_stride = 0 \<and> 0 < length (ret[?r := ?t])"
      using Cons.prems(3) by simp
  qed
  have G: "fold (mmm_store E rnd C A B ?m (unat K) (unat ret_stride)) (p # ps) (d, ret) =
      fold (mmm_store E rnd C A B ?m (unat K) (unat ret_stride)) ps (?d, ret[?r := ?t])"
    by (simp add: mmm_store_def p)
  show ?case unfolding G using step rest p by simp
qed

lemma mmm_order_cell:
  fixes M N K :: "64 word"
  assumes mem: "data (pool st) = Some d" "plhs0 st = Some ret"
    and layout: "mmm_alias_layout d C A B (unat M) (unat N) (unat K)"
    and stride: "ret_stride = 1 \<and> unat M * unat N \<le> length ret \<or> ret_stride = 0 \<and> 0 < length ret"
    and ps: "set ps = {0..<unat M} \<times> {0..<unat N}"
  shows "map_option (\<lambda>(d, ret_ptr). st\<lparr>pool := (pool st)\<lparr>data := d\<rparr>, plhs0 := ret_ptr\<rparr>)
      (for_loop ps (\<lambda>(i, j). mmm_elem E rnd C A B M K ret_stride (of_nat i) (of_nat j))
         (data (pool st), plhs0 st)) =
    Some (st\<lparr>pool := (pool st)\<lparr>data :=
              Some (fst (fold (mmm_store E rnd C A B (unat M) (unat K) (unat ret_stride)) ps (d, ret)))\<rparr>,
            plhs0 :=
              Some (snd (fold (mmm_store E rnd C A B (unat M) (unat K) (unat ret_stride)) ps (d, ret)))\<rparr>)"
proof -
  have "for_loop ps (\<lambda>(i, j). mmm_elem E rnd C A B M K ret_stride (of_nat i) (of_nat j))
      (Some d, Some ret) =
    Some (Some (fst (fold (mmm_store E rnd C A B (unat M) (unat K) (unat ret_stride)) ps (d, ret))),
          Some (snd (fold (mmm_store E rnd C A B (unat M) (unat K) (unat ret_stride)) ps (d, ret))))"
    using layout _ refl stride by (rule mmm_pairs_cell) (simp add: ps)
  then show ?thesis by (simp add: mem)
qed

lemma mpfr_apa_mmm_i_outer:
  assumes "strategy = 1 \<or> strategy = 3 \<or> strategy = 5"
  shows "mpfr_apa_mmm E C A B prec rnd M N K ret_stride strategy st =
    map_option (\<lambda>(d, ret_ptr). st\<lparr>pool := (pool st)\<lparr>data := d\<rparr>, plhs0 := ret_ptr\<rparr>)
      (for_loop (ijk_order (unat M) (unat N))
         (\<lambda>(i, j). mmm_elem E rnd C A B M K ret_stride (of_nat i) (of_nat j))
         (data (pool st), plhs0 st))"
  using assms
  by (simp add: mpfr_apa_mmm_def ijk_order_def for_loop_upto for_loop_product [symmetric])

lemma mpfr_apa_mmm_j_outer:
  assumes "strategy = 2 \<or> strategy = 4 \<or> strategy = 6"
  shows "mpfr_apa_mmm E C A B prec rnd M N K ret_stride strategy st =
    map_option (\<lambda>(d, ret_ptr). st\<lparr>pool := (pool st)\<lparr>data := d\<rparr>, plhs0 := ret_ptr\<rparr>)
      (for_loop (jik_order (unat M) (unat N))
         (\<lambda>(i, j). mmm_elem E rnd C A B M K ret_stride (of_nat i) (of_nat j))
         (data (pool st), plhs0 st))"
proof -
  from assms have "\<not> (strategy = 1 \<or> strategy = 3 \<or> strategy = 5)" by auto
  with assms show ?thesis
    by (simp add: mpfr_apa_mmm_def jik_order_def for_loop_upto for_loop_product_swap [symmetric])
qed

section \<open>The claims\<close>

text \<open>
  C1: a call of \<^verbatim>\<open>mpfr_t.mtimes\<close> with \<open>length (A) \<noteq> M * K\<close> sets \<^verbatim>\<open>throw_error\<close> and
  prints the message about \<open>A\<close>, but no \<^verbatim>\<open>break\<close> follows the \<^verbatim>\<open>MEX_FCN_ERR\<close>: the call
  goes on to \<^verbatim>\<open>mpfr_apa_mmm\<close> with \<open>K = length (A) / M\<close>, and the range \<open>C\<close> is changed.
  For \<open>C = [1:4]\<close> holding zeros, \<open>A = [5:7]\<close> holding \<open>1, 2, 3\<close>, \<open>B = [8:9]\<close> holding
  \<open>4, 5\<close> and \<open>M = 2\<close>, the call ends with \<open>4, 8, 5, 10\<close> in \<open>C\<close>.
\<close>

theorem mtimes_shape_error_still_multiplies:
  "mex_mpfr_algorithms int_env 1 8 mtimes_bad_args 2001 (state_of mtimes_bad_data None) =
     Some ((state_of mtimes_bad_data None)
       \<lparr>pool := (pool_of mtimes_bad_data)\<lparr>data := Some (map Some [4, 8, 5, 10, 1, 2, 3, 4, 5])\<rparr>,
        plhs0 := Some [0, 0, 0, 0],
        throw_error := True,
        printed := [Mtimes_incompatible_A 2 1]\<rparr>)"
  by code_simp

text \<open>
  C2, as the claim states it, fails: the accumulation of an element starts from the
  value the element of \<open>C\<close> holds before the call, not from zero. With \<open>10\<close> in
  \<open>C[0,0]\<close>, strategy 1 leaves \<open>33\<close> there, and the entry of the product is \<open>23\<close>.
\<close>

theorem mmm_result_is_not_the_product:
  "mpfr_apa_mmm int_env 0 4 8 53 MPFR_RNDN 2 2 2 1 1 (state_of mmm_data (Some [0, 0, 0, 0])) =
     Some ((state_of mmm_data (Some [0, 0, 0, 0]))
       \<lparr>pool := (pool_of mmm_data)
          \<lparr>data := Some (map Some [33, 34, 31, 46, 1, 2, 3, 4, 5, 6, 7, 8])\<rparr>,
        plhs0 := Some [0, 0, 0, 0]\<rparr>) \<and>
   product_entry int_env MPFR_RNDN (Some 0) mmm_data 4 8 2 2 0 0 = Some 23"
  by code_simp

text \<open>
  C2, amended: for a conforming call whose range \<open>C\<close> shares no element with \<open>A\<close> and
  \<open>B\<close>, strategies 1 and 2 return, and afterwards every element \<open>C[i,j]\<close> holds the
  result of the \<open>K\<close> fused multiply-adds \<open>B[k,j] * A[i,k] + acc\<close>, for \<open>k = 0, ..., K - 1\<close>
  in turn, each rounded once at the given rounding mode, started from the value
  \<open>C[i,j]\<close> held before the call; with one return value per element, that value is the
  bitwise or of the ternary values of the element; every other variable of the pool
  is unchanged.
\<close>

theorem mmm_accumulates_onto_C:
  fixes M N K :: "64 word"
  assumes strategy: "strategy = 1 \<or> strategy = 2"
    and mem: "data (pool st) = Some d" "plhs0 st = Some ret"
    and layout: "mmm_layout d C A B (unat M) (unat N) (unat K)"
    and stride: "ret_stride = 1 \<and> unat M * unat N \<le> length ret \<or> ret_stride = 0 \<and> 0 < length ret"
  shows "\<exists>d' ret'.
    mpfr_apa_mmm E C A B prec rnd M N K ret_stride strategy st =
      Some (st\<lparr>pool := (pool st)\<lparr>data := Some d'\<rparr>, plhs0 := Some ret'\<rparr>) \<and>
    length d' = length d \<and>
    (\<forall>i j. i < unat M \<and> j < unat N \<longrightarrow>
       d' ! (C + unat M * j + i) = fst (fma_acc E rnd d C A B (unat M) (unat K) i j) \<and>
       (ret_stride = 1 \<longrightarrow>
          ret' ! (unat M * j + i) = snd (fma_acc E rnd d C A B (unat M) (unat K) i j))) \<and>
    (\<forall>x. x < C \<or> C + unat M * unat N \<le> x \<longrightarrow> d' ! x = d ! x)"
proof -
  let ?m = "unat M" and ?n = "unat N" and ?k = "unat K"
  define ps where "ps = (if strategy = 1 then ijk_order ?m ?n else jik_order ?m ?n)"
  have ps: "set ps = {0..<?m} \<times> {0..<?n}" "distinct ps" by (simp_all add: ps_def)
  let ?d = "mmm_data_after E rnd d C A B ?m ?k ps"
  let ?r = "mmm_ret_after E rnd d C A B ?m ?k (unat ret_stride) ret ps"
  from layout have L: "C + ?m * ?n \<le> length d" by (simp add: mmm_layout_def)
  have run: "mpfr_apa_mmm E C A B prec rnd M N K ret_stride strategy st =
      Some (st\<lparr>pool := (pool st)\<lparr>data := Some ?d\<rparr>, plhs0 := Some ?r\<rparr>)"
  proof (cases "strategy = 1")
    case True
    then show ?thesis
      using mmm_order_Some [OF mem layout stride ps, of E rnd]
      by (simp add: mpfr_apa_mmm_ijk ps_def)
  next
    case False
    with strategy have "strategy = 2" by simp
    then show ?thesis
      using mmm_order_Some [OF mem layout stride ps, of E rnd]
      by (simp add: mpfr_apa_mmm_jik ps_def)
  qed
  have len: "length ?d = length d" by (simp add: mmm_data_after_def)
  have cells: "?d ! (C + ?m * j + i) = fst (fma_acc E rnd d C A B ?m ?k i j) \<and>
      (ret_stride = 1 \<longrightarrow> ?r ! (?m * j + i) = snd (fma_acc E rnd d C A B ?m ?k i j))"
    if ij: "i < ?m \<and> j < ?n" for i j
  proof
    from ij have cin: "?m * j + i < ?m * ?n" by (intro mult_add_less) auto
    from ij ps have mem_ps: "(i, j) \<in> set ps" by simp
    have "fold (\<lambda>p d'. d'[C + ?m * snd p + fst p :=
        fst (fma_acc E rnd d C A B ?m ?k (fst p) (snd p))]) ps d ! (C + ?m * snd (i, j) + fst (i, j)) =
      fst (fma_acc E rnd d C A B ?m ?k (fst (i, j)) (snd (i, j)))"
      using mem_ps ps cin L by (intro fold_upd_nth) (simp_all add: mmm_cell_inj)
    then show "?d ! (C + ?m * j + i) = fst (fma_acc E rnd d C A B ?m ?k i j)"
      by (simp add: mmm_data_after_def)
    show "ret_stride = 1 \<longrightarrow> ?r ! (?m * j + i) = snd (fma_acc E rnd d C A B ?m ?k i j)"
    proof
      assume s1: "ret_stride = 1"
      with stride have rl: "?m * ?n \<le> length ret" by auto
      have "fold (\<lambda>p r. r[0 + ?m * snd p + fst p :=
          snd (fma_acc E rnd d C A B ?m ?k (fst p) (snd p))]) ps ret ! (0 + ?m * snd (i, j) + fst (i, j)) =
        snd (fma_acc E rnd d C A B ?m ?k (fst (i, j)) (snd (i, j)))"
        using mem_ps ps cin rl by (intro fold_upd_nth) (simp_all only: mmm_cell_inj, simp_all)
      with s1 show "?r ! (?m * j + i) = snd (fma_acc E rnd d C A B ?m ?k i j)"
        by (simp add: mmm_ret_after_def)
    qed
  qed
  have others: "?d ! x = d ! x" if x: "x < C \<or> C + ?m * ?n \<le> x" for x
  proof -
    have "x \<notin> (\<lambda>p. C + ?m * snd p + fst p) ` set ps"
    proof
      assume "x \<in> (\<lambda>p. C + ?m * snd p + fst p) ` set ps"
      then obtain p where p: "p \<in> set ps" "x = C + ?m * snd p + fst p" by auto
      with ps have "fst p < ?m" "snd p < ?n" by auto
      then have "?m * snd p + fst p < ?m * ?n" by (rule mult_add_less)
      with p x show False by simp
    qed
    then show ?thesis by (simp add: mmm_data_after_def fold_upd_nth_other)
  qed
  from run len cells others show ?thesis by blast
qed

theorem mmm_accumulates_onto_C_witness:
  "\<exists>d' ret'.
     mpfr_apa_mmm int_env 0 4 8 53 MPFR_RNDN 2 2 2 1 1 (state_of mmm_data (Some [0, 0, 0, 0])) =
       Some ((state_of mmm_data (Some [0, 0, 0, 0]))
         \<lparr>pool := (pool (state_of mmm_data (Some [0, 0, 0, 0])))\<lparr>data := Some d'\<rparr>,
          plhs0 := Some ret'\<rparr>) \<and>
     d' ! 0 = Some 33 \<and> d' ! 4 = Some 1"
proof -
  let ?st = "state_of mmm_data (Some [0, 0, 0, 0])"
  have s: "(1 :: 64 word) = 1 \<or> (1 :: 64 word) = 2" by simp
  have mem: "data (pool ?st) = Some mmm_data" "plhs0 ?st = Some [0, 0, 0, 0]"
    by (simp_all add: state_of_def pool_of_def)
  have layout: "mmm_layout mmm_data 0 4 8 (unat (2 :: 64 word)) (unat (2 :: 64 word))
      (unat (2 :: 64 word))"
    by (simp add: mmm_layout_def mmm_data_def)
  have stride: "(1 :: 64 word) = 1 \<and> unat (2 :: 64 word) * unat (2 :: 64 word) \<le> length [0, 0, 0, 0 :: int] \<or>
      (1 :: 64 word) = 0 \<and> 0 < length [0, 0, 0, 0 :: int]"
    by simp
  from mmm_accumulates_onto_C [OF s mem layout stride, of int_env 53 MPFR_RNDN]
  obtain d' ret' where
    run: "mpfr_apa_mmm int_env 0 4 8 53 MPFR_RNDN 2 2 2 1 1 ?st =
      Some (?st\<lparr>pool := (pool ?st)\<lparr>data := Some d'\<rparr>, plhs0 := Some ret'\<rparr>)" and
    cells: "\<forall>i j. i < unat (2 :: 64 word) \<and> j < unat (2 :: 64 word) \<longrightarrow>
      d' ! (0 + unat (2 :: 64 word) * j + i) =
        fst (fma_acc int_env MPFR_RNDN mmm_data 0 4 8 (unat (2 :: 64 word)) (unat (2 :: 64 word)) i j) \<and>
      ((1 :: 64 word) = 1 \<longrightarrow> ret' ! (unat (2 :: 64 word) * j + i) =
        snd (fma_acc int_env MPFR_RNDN mmm_data 0 4 8 (unat (2 :: 64 word)) (unat (2 :: 64 word)) i j))" and
    others: "\<forall>x. x < 0 \<or> 0 + unat (2 :: 64 word) * unat (2 :: 64 word) \<le> x \<longrightarrow> d' ! x = mmm_data ! x"
    by blast
  have acc: "fst (fma_acc int_env MPFR_RNDN mmm_data 0 4 8 2 2 0 0) = Some 33"
    by code_simp
  from cells [rule_format, of 0 0] acc have "d' ! 0 = Some 33" by simp
  moreover from others [rule_format, of 4] have "d' ! 4 = Some 1" by (simp add: mmm_data_def)
  ultimately show ?thesis using run by blast
qed




text \<open>
  C4, as the claim states it, fails. In a pool of 1000 variables, 5, 4, 11 and 1
  variables are allocated and the first and the third range are marked free: the free
  list holds \<open>[1:5]\<close> and \<open>[10:20]\<close>. The next allocation of 5 variables returns
  \<open>[1:5]\<close> and removes that entry from the free list; marking \<open>[1:5]\<close> free appends it
  after \<open>[10:20]\<close>; and the second allocation of 5 variables returns \<open>[10:14]\<close>, the
  start of the first entry with at least 5 variables.
\<close>

theorem exact_fit_reuse_returns_another_range:
  "do {
     (r1, a, s1) \<leftarrow> mex_mpfr_allocate int_env 5 \<lparr>idx_start = 0, idx_end = 0\<rparr> pool_1000;
     (r2, b, s2) \<leftarrow> mex_mpfr_allocate int_env 4 \<lparr>idx_start = 0, idx_end = 0\<rparr> s1;
     (r3, c, s3) \<leftarrow> mex_mpfr_allocate int_env 11 \<lparr>idx_start = 0, idx_end = 0\<rparr> s2;
     (r4, d, s4) \<leftarrow> mex_mpfr_allocate int_env 1 \<lparr>idx_start = 0, idx_end = 0\<rparr> s3;
     s5 \<leftarrow> mex_mpfr_mark_free int_env a s4;
     s6 \<leftarrow> mex_mpfr_mark_free int_env c s5;
     (r7, x, s7) \<leftarrow> mex_mpfr_allocate int_env 5 \<lparr>idx_start = 0, idx_end = 0\<rparr> s6;
     s8 \<leftarrow> mex_mpfr_mark_free int_env x s7;
     (r9, y, s9) \<leftarrow> mex_mpfr_allocate int_env 5 \<lparr>idx_start = 0, idx_end = 0\<rparr> s8;
     Some (s6 = pool_two_free, r7, x, entries s7, entries s8, r9, y)
   } =
   Some (True, True, \<lparr>idx_start = 1, idx_end = 5\<rparr>,
     [\<lparr>idx_start = 10, idx_end = 20\<rparr>],
     [\<lparr>idx_start = 10, idx_end = 20\<rparr>, \<lparr>idx_start = 1, idx_end = 5\<rparr>],
     True, \<lparr>idx_start = 10, idx_end = 14\<rparr>)"
  by code_simp

text \<open>
  C4, amended: in a state in which the invariant of the pool holds, when every request
  for memory is served and \<^verbatim>\<open>data_size + count + 1000\<close> and
  \<^verbatim>\<open>free_list_capacity + 1000\<close> do not exceed the range of \<^verbatim>\<open>size_t\<close>, allocating
  \<open>count\<close> variables (\<open>count\<close> is 5 in the claim), marking the returned range free and
  allocating \<open>count\<close> variables again succeeds, the second allocation returns the range
  that the first one returned, and \<^verbatim>\<open>data_capacity\<close> is after the second allocation what
  it was after the first, provided that
  \<^item> when the first allocation takes a whole entry of the free list, no later entry of
    the free list has \<open>count\<close> variables or more, and the free list is not full
    (\<^verbatim>\<open>free_list_size\<close> is not \<^verbatim>\<open>free_list_capacity\<close>);
  \<^item> otherwise, the free list is not one entry short of full.

  The conditions on a full free list keep away the read past the block of C8.
\<close>

theorem allocate_free_allocate_same_range:
  assumes "pool_inv s" and "alloc_ok E" and "count \<noteq> 0"
    and "unat (data_size s) + unat count + 1000 \<le> 2 ^ 64"
    and "unat (free_list_capacity s) + 1000 < 2 ^ 64"
    and "if exact_fit count (entries s)
         then free_list_size s \<noteq> free_list_capacity s \<and> \<not> later_fit count (entries s)
         else unat (free_list_size s) + 1 \<noteq> unat (free_list_capacity s)"
  shows "\<exists>r s1 s2 s3.
    mex_mpfr_allocate E count idx s = Some (True, r, s1) \<and>
    mex_mpfr_mark_free E r s1 = Some s2 \<and>
    mex_mpfr_allocate E count idx' s2 = Some (True, r, s3) \<and>
    data_capacity s2 = data_capacity s1 \<and> data_capacity s3 = data_capacity s1"
proof -
  let ?i = "first_fit count (entries s)"
  from assms(1) have "free_list_inv s" by (rule pool_invD)
  then have len: "length (entries s) = unat (free_list_size s)" by (rule free_list_invD)
  show ?thesis
  proof (cases "?i < unat (free_list_size s)")
    case False
    with first_fit_le [of count "entries s"] len
    have none: "?i = unat (free_list_size s)" by simp
    with len have "\<not> exact_fit count (entries s)" by (simp add: exact_fit_def)
    with assms(6) have "unat (free_list_size s) + 1 \<noteq> unat (free_list_capacity s)" by simp
    with assms(1-5) none show ?thesis by (intro case_fresh)
  next
    case True
    with len have fit: "count \<le> length_idx (entries s ! ?i)"
      by (simp add: first_fit_at)
    show ?thesis
    proof (cases "length_idx (entries s ! ?i) = count")
      case eq: True
      with True len have "exact_fit count (entries s)" by (simp add: exact_fit_def)
      with assms(6) have "free_list_size s \<noteq> free_list_capacity s"
        "\<not> later_fit count (entries s)"
        by simp_all
      with assms(1-3,5) True eq show ?thesis by (intro case_exact [OF _ _ _ _ refl])
    next
      case ne: False
      with fit have lt: "count < length_idx (entries s ! ?i)" by simp
      from ne have "\<not> exact_fit count (entries s)" by (simp add: exact_fit_def)
      with assms(6) have "unat (free_list_size s) + 1 \<noteq> unat (free_list_capacity s)" by simp
      with assms(1-3,5) True lt show ?thesis by (intro case_partial [OF _ _ _ _ refl])
    qed
  qed
qed

theorem allocate_free_allocate_same_range_witness:
  "pool_inv pool_1000 \<and> \<not> exact_fit 5 (entries pool_1000) \<and>
   (\<exists>s1 s2 s3.
      mex_mpfr_allocate int_env 5 \<lparr>idx_start = 0, idx_end = 0\<rparr> pool_1000 =
        Some (True, \<lparr>idx_start = 1, idx_end = 5\<rparr>, s1) \<and>
      mex_mpfr_mark_free int_env \<lparr>idx_start = 1, idx_end = 5\<rparr> s1 = Some s2 \<and>
      mex_mpfr_allocate int_env 5 \<lparr>idx_start = 0, idx_end = 0\<rparr> s2 =
        Some (True, \<lparr>idx_start = 1, idx_end = 5\<rparr>, s3) \<and>
      data_capacity s2 = data_capacity s1 \<and> data_capacity s3 = data_capacity s1) \<and>
   pool_inv pool_two_free \<and> exact_fit 11 (entries pool_two_free) \<and>
   \<not> later_fit 11 (entries pool_two_free) \<and>
   (\<exists>s1 s2 s3.
      mex_mpfr_allocate int_env 11 \<lparr>idx_start = 0, idx_end = 0\<rparr> pool_two_free =
        Some (True, \<lparr>idx_start = 10, idx_end = 20\<rparr>, s1) \<and>
      mex_mpfr_mark_free int_env \<lparr>idx_start = 10, idx_end = 20\<rparr> s1 = Some s2 \<and>
      mex_mpfr_allocate int_env 11 \<lparr>idx_start = 0, idx_end = 0\<rparr> s2 =
        Some (True, \<lparr>idx_start = 10, idx_end = 20\<rparr>, s3) \<and>
      data_capacity s2 = data_capacity s1 \<and> data_capacity s3 = data_capacity s1)"
proof -
  have ok: "alloc_ok int_env" by (simp add: int_env_def)
  have p1: "pool_inv pool_1000" by code_simp
  have f1: "\<not> exact_fit 5 (entries pool_1000)" by code_simp
  have n1: "unat (data_size pool_1000) + unat (5 :: 64 word) + 1000 \<le> 2 ^ 64"
    "unat (free_list_capacity pool_1000) + 1000 < 2 ^ 64"
    "unat (free_list_size pool_1000) + 1 \<noteq> unat (free_list_capacity pool_1000)"
    by (simp_all add: pool_1000_def)
  have a1: "mex_mpfr_allocate int_env 5 \<lparr>idx_start = 0, idx_end = 0\<rparr> pool_1000 =
     Some (True, \<lparr>idx_start = 1, idx_end = 5\<rparr>, pool_1000\<lparr>data_size := 5\<rparr>)"
    by code_simp
  from allocate_free_allocate_same_range [OF p1 ok, of 5 "\<lparr>idx_start = 0, idx_end = 0\<rparr>"
      "\<lparr>idx_start = 0, idx_end = 0\<rparr>"] f1 n1 a1
  have 1: "\<exists>s1 s2 s3.
      mex_mpfr_allocate int_env 5 \<lparr>idx_start = 0, idx_end = 0\<rparr> pool_1000 =
        Some (True, \<lparr>idx_start = 1, idx_end = 5\<rparr>, s1) \<and>
      mex_mpfr_mark_free int_env \<lparr>idx_start = 1, idx_end = 5\<rparr> s1 = Some s2 \<and>
      mex_mpfr_allocate int_env 5 \<lparr>idx_start = 0, idx_end = 0\<rparr> s2 =
        Some (True, \<lparr>idx_start = 1, idx_end = 5\<rparr>, s3) \<and>
      data_capacity s2 = data_capacity s1 \<and> data_capacity s3 = data_capacity s1"
    by auto
  have p2: "pool_inv pool_two_free" by code_simp
  have f2: "exact_fit 11 (entries pool_two_free)" "\<not> later_fit 11 (entries pool_two_free)"
    by code_simp+
  have n2: "unat (data_size pool_two_free) + unat (11 :: 64 word) + 1000 \<le> 2 ^ 64"
    "unat (free_list_capacity pool_two_free) + 1000 < 2 ^ 64"
    "free_list_size pool_two_free \<noteq> free_list_capacity pool_two_free"
    by (simp_all add: pool_two_free_def)
  have a2: "mex_mpfr_allocate int_env 11 \<lparr>idx_start = 0, idx_end = 0\<rparr> pool_two_free =
     Some (True, \<lparr>idx_start = 10, idx_end = 20\<rparr>,
       pool_two_free\<lparr>free_list := Some (\<lparr>idx_start = 1, idx_end = 5\<rparr> #
         replicate 999 \<lparr>idx_start = 0, idx_end = 0\<rparr>), free_list_size := 1\<rparr>)"
    by code_simp
  from allocate_free_allocate_same_range [OF p2 ok, of 11 "\<lparr>idx_start = 0, idx_end = 0\<rparr>"
      "\<lparr>idx_start = 0, idx_end = 0\<rparr>"] f2 n2 a2
  have 2: "\<exists>s1 s2 s3.
      mex_mpfr_allocate int_env 11 \<lparr>idx_start = 0, idx_end = 0\<rparr> pool_two_free =
        Some (True, \<lparr>idx_start = 10, idx_end = 20\<rparr>, s1) \<and>
      mex_mpfr_mark_free int_env \<lparr>idx_start = 10, idx_end = 20\<rparr> s1 = Some s2 \<and>
      mex_mpfr_allocate int_env 11 \<lparr>idx_start = 0, idx_end = 0\<rparr> s2 =
        Some (True, \<lparr>idx_start = 10, idx_end = 20\<rparr>, s3) \<and>
      data_capacity s2 = data_capacity s1 \<and> data_capacity s3 = data_capacity s1"
    by auto
  from p1 f1 1 p2 f2 2 show ?thesis by blast
qed

text \<open>
  C5, as the claim states it, fails: \<^verbatim>\<open>mex_mpfr_mark_free\<close> only tests the range for
  \<^verbatim>\<open>is_valid\<close>, not for being in use. After allocating 5 variables and 1 variable in
  a pool of 1000, the range \<open>[1:5]\<close> is marked free twice; the second call finds the
  invariant to hold and leaves the overlapping entries \<open>[1:5]\<close> and \<open>[1:5]\<close>.
\<close>

theorem double_free_overlapping_entries:
  "do {
     (r1, a, s1) \<leftarrow> mex_mpfr_allocate int_env 5 \<lparr>idx_start = 0, idx_end = 0\<rparr> pool_1000;
     (r2, b, s2) \<leftarrow> mex_mpfr_allocate int_env 1 \<lparr>idx_start = 0, idx_end = 0\<rparr> s1;
     s3 \<leftarrow> mex_mpfr_mark_free int_env a s2;
     s4 \<leftarrow> mex_mpfr_mark_free int_env a s3;
     Some (a, b, is_valid a s3, free_list_inv s3, entries s3, entries s4, free_list_inv s4)
   } =
   Some (\<lparr>idx_start = 1, idx_end = 5\<rparr>, \<lparr>idx_start = 6, idx_end = 6\<rparr>, True, True,
     [\<lparr>idx_start = 1, idx_end = 5\<rparr>],
     [\<lparr>idx_start = 1, idx_end = 5\<rparr>, \<lparr>idx_start = 1, idx_end = 5\<rparr>], False)"
  by code_simp

text \<open>
  C5, amended: from a state in which the invariant of the free list holds,
  \<^item> the state after \<^verbatim>\<open>mex_mpfr_allocate\<close> satisfies it, when \<^verbatim>\<open>data_size + count\<close> does
    not exceed the largest \<^verbatim>\<open>size_t\<close>;
  \<^item> the state after \<^verbatim>\<open>mex_mpfr_mark_free\<close> satisfies it, and is compacted when the
    range was valid (the compaction has run), when the range shares no variable with an
    entry of the free list and the request for memory of a free list that has to grow
    is served.

  A call with no defined result (such as the read past the block of C8) has no state
  after it.
\<close>

theorem pool_operations_preserve_free_list_inv:
  assumes "free_list_inv s"
  shows "(\<forall>b r s'. mex_mpfr_allocate E count idx s = Some (b, r, s') \<longrightarrow>
            unat (data_size s) + unat count < 2 ^ 64 \<longrightarrow> free_list_inv s') \<and>
         (\<forall>s'. mex_mpfr_mark_free E idx s = Some s' \<longrightarrow>
            (free_list_size s = free_list_capacity s \<longrightarrow> alloc_ok E) \<longrightarrow>
            list_all (\<lambda>e. disjoint_idx e idx) (entries s) \<longrightarrow>
            free_list_inv s' \<and> (is_valid idx s \<longrightarrow> compacted s'))"
proof (intro conjI allI impI)
  fix b r s'
  assume a: "mex_mpfr_allocate E count idx s = Some (b, r, s')"
    and no: "unat (data_size s) + unat count < 2 ^ 64"
  from a assms no show "free_list_inv s'" by (rule mex_mpfr_allocate_inv)
next
  fix s'
  assume r: "mex_mpfr_mark_free E idx s = Some s'"
    and ok: "free_list_size s = free_list_capacity s \<longrightarrow> alloc_ok E"
    and dis: "list_all (\<lambda>e. disjoint_idx e idx) (entries s)"
  note m = mex_mpfr_mark_free_inv [OF r assms ok dis]
  from m show "free_list_inv s'" by simp
  from m show "compacted s'" if "is_valid idx s" using that by simp
qed

theorem pool_operations_preserve_free_list_inv_witness:
  "free_list_inv pool_two_free \<and>
   mex_mpfr_allocate int_env 5 \<lparr>idx_start = 0, idx_end = 0\<rparr> pool_two_free =
     Some (True, \<lparr>idx_start = 1, idx_end = 5\<rparr>,
       pool_two_free\<lparr>free_list := Some (\<lparr>idx_start = 10, idx_end = 20\<rparr> #
         replicate 999 \<lparr>idx_start = 0, idx_end = 0\<rparr>), free_list_size := 1\<rparr>) \<and>
   free_list_inv (pool_two_free\<lparr>free_list := Some (\<lparr>idx_start = 10, idx_end = 20\<rparr> #
         replicate 999 \<lparr>idx_start = 0, idx_end = 0\<rparr>), free_list_size := 1\<rparr>) \<and>
   is_valid \<lparr>idx_start = 6, idx_end = 9\<rparr> pool_two_free \<and>
   mex_mpfr_mark_free int_env \<lparr>idx_start = 6, idx_end = 9\<rparr> pool_two_free =
     Some (pool_two_free\<lparr>free_list := Some (\<lparr>idx_start = 1, idx_end = 20\<rparr> #
         replicate 999 \<lparr>idx_start = 0, idx_end = 0\<rparr>), free_list_size := 1\<rparr>) \<and>
   free_list_inv (pool_two_free\<lparr>free_list := Some (\<lparr>idx_start = 1, idx_end = 20\<rparr> #
         replicate 999 \<lparr>idx_start = 0, idx_end = 0\<rparr>), free_list_size := 1\<rparr>) \<and>
   compacted (pool_two_free\<lparr>free_list := Some (\<lparr>idx_start = 1, idx_end = 20\<rparr> #
         replicate 999 \<lparr>idx_start = 0, idx_end = 0\<rparr>), free_list_size := 1\<rparr>)"
proof -
  have inv: "free_list_inv pool_two_free" by code_simp
  have a: "mex_mpfr_allocate int_env 5 \<lparr>idx_start = 0, idx_end = 0\<rparr> pool_two_free =
     Some (True, \<lparr>idx_start = 1, idx_end = 5\<rparr>,
       pool_two_free\<lparr>free_list := Some (\<lparr>idx_start = 10, idx_end = 20\<rparr> #
         replicate 999 \<lparr>idx_start = 0, idx_end = 0\<rparr>), free_list_size := 1\<rparr>)"
    by code_simp
  have m: "mex_mpfr_mark_free int_env \<lparr>idx_start = 6, idx_end = 9\<rparr> pool_two_free =
     Some (pool_two_free\<lparr>free_list := Some (\<lparr>idx_start = 1, idx_end = 20\<rparr> #
         replicate 999 \<lparr>idx_start = 0, idx_end = 0\<rparr>), free_list_size := 1\<rparr>)"
    by code_simp
  have pre: "unat (data_size pool_two_free) + unat (5 :: 64 word) < 2 ^ 64"
    "free_list_size pool_two_free \<noteq> free_list_capacity pool_two_free"
    "list_all (\<lambda>e. disjoint_idx e \<lparr>idx_start = 6, idx_end = 9\<rparr>) (entries pool_two_free)"
    "is_valid \<lparr>idx_start = 6, idx_end = 9\<rparr> pool_two_free"
    by (simp_all add: pool_two_free_def entries_def disjoint_idx_def is_valid_def)
  from pool_operations_preserve_free_list_inv [OF inv, of int_env 5
      "\<lparr>idx_start = 0, idx_end = 0\<rparr>"] a pre(1)
  have 1: "free_list_inv (pool_two_free\<lparr>free_list := Some (\<lparr>idx_start = 10, idx_end = 20\<rparr> #
         replicate 999 \<lparr>idx_start = 0, idx_end = 0\<rparr>), free_list_size := 1\<rparr>)"
    by blast
  from pool_operations_preserve_free_list_inv [OF inv, of int_env 5
      "\<lparr>idx_start = 6, idx_end = 9\<rparr>"] m pre(2,3,4)
  have 2: "free_list_inv (pool_two_free\<lparr>free_list := Some (\<lparr>idx_start = 1, idx_end = 20\<rparr> #
         replicate 999 \<lparr>idx_start = 0, idx_end = 0\<rparr>), free_list_size := 1\<rparr>) \<and>
   compacted (pool_two_free\<lparr>free_list := Some (\<lparr>idx_start = 1, idx_end = 20\<rparr> #
         replicate 999 \<lparr>idx_start = 0, idx_end = 0\<rparr>), free_list_size := 1\<rparr>)"
    by blast
  from inv a m pre(4) 1 2 show ?thesis by blast
qed

text \<open>
  C6: \<^verbatim>\<open>mex_mpfr_allocate\<close> returns 0 for \<open>count = 0\<close>, leaving \<^verbatim>\<open>*idx\<close> and the pool as
  they were; and whenever it returns a value other than 0, the range it stored in
  \<^verbatim>\<open>*idx\<close> is valid for the pool after the call (\<open>1 \<le> start \<le> end \<le> data_size\<close>) and its
  length \<open>end - start + 1\<close> is \<open>count\<close>, in \<^verbatim>\<open>size_t\<close> arithmetic and as natural numbers.
\<close>

theorem allocate_valid_range:
  "mex_mpfr_allocate E 0 idx s = Some (False, idx, s) \<and>
   (mex_mpfr_allocate E count idx s = Some (True, r, s') \<longrightarrow>
      is_valid r s' \<and> length_idx r = count \<and>
      unat (idx_end r) - unat (idx_start r) + 1 = unat count)"
proof (intro conjI impI)
  show "mex_mpfr_allocate E 0 idx s = Some (False, idx, s)"
    by (simp add: mex_mpfr_allocate_def)
next
  assume a: "mex_mpfr_allocate E count idx s = Some (True, r, s')"
  from mex_mpfr_allocate_range [OF a]
  have v: "is_valid r s'" and e: "idx_end r = idx_start r + count - 1" and nz: "count \<noteq> 0"
    by auto
  show "is_valid r s'" by (rule v)
  show len: "length_idx r = count" by (simp add: length_idx_def e)
  from v have le: "idx_start r \<le> idx_end r" by (simp add: is_valid_def)
  have "unat (idx_end r) - unat (idx_start r) = unat (idx_end r - idx_start r)"
    using le by (simp add: unat_sub)
  also have "\<dots> = unat (count - 1)" by (simp add: e)
  also from nz have "\<dots> = unat count - 1" by (simp add: unat_minus_one)
  finally show "unat (idx_end r) - unat (idx_start r) + 1 = unat count"
    using nz by (simp add: unat_gt_0)
qed

theorem allocate_valid_range_witness:
  "mex_mpfr_allocate int_env 5 \<lparr>idx_start = 0, idx_end = 0\<rparr> pool_1000 =
     Some (True, \<lparr>idx_start = 1, idx_end = 5\<rparr>, pool_1000\<lparr>data_size := 5\<rparr>) \<and>
   is_valid \<lparr>idx_start = 1, idx_end = 5\<rparr> (pool_1000\<lparr>data_size := 5\<rparr>) \<and>
   length_idx \<lparr>idx_start = 1, idx_end = 5\<rparr> = 5"
proof -
  have "mex_mpfr_allocate int_env 5 \<lparr>idx_start = 0, idx_end = 0\<rparr> pool_1000 =
     Some (True, \<lparr>idx_start = 1, idx_end = 5\<rparr>, pool_1000\<lparr>data_size := 5\<rparr>)"
    by (simp add: mex_mpfr_allocate_def reuse_loop.simps [of 0] pool_1000_def
        allocate_new_def is_valid_def)
  with allocate_valid_range [of int_env "\<lparr>idx_start = 0, idx_end = 0\<rparr>" pool_1000 5
      "\<lparr>idx_start = 1, idx_end = 5\<rparr>" "pool_1000\<lparr>data_size := 5\<rparr>"]
  show ?thesis by simp
qed

text \<open>
  C7: a failed growth does not leave the pool as it was. Both functions store the
  pointer that \<^verbatim>\<open>mxRealloc\<close> returns in the variable of the block
  (\<^verbatim>\<open>data = mxRealloc (data, ...)\<close>, \<^verbatim>\<open>free_list = mxRealloc (free_list, ...)\<close>) and test
  it for \<^verbatim>\<open>NULL\<close> afterwards. On a pool whose 1000 variables are all in use,
  \<^verbatim>\<open>mex_mpfr_allocate (1, &idx)\<close> with the request for memory not served returns 0 and
  leaves \<^verbatim>\<open>*idx\<close>, the sizes and the capacities as they were, but \<^verbatim>\<open>data\<close> is \<^verbatim>\<open>NULL\<close>:
  the block with the 1000 values is no longer reachable. On a pool whose free list of
  1000 entries is full, \<^verbatim>\<open>mex_mpfr_mark_free\<close> of the used range \<open>[2:2]\<close> with the
  request not served returns with \<^verbatim>\<open>free_list\<close> \<^verbatim>\<open>NULL\<close> and \<^verbatim>\<open>free_list_size\<close> still
  1000.
\<close>

theorem failed_growth_loses_the_block:
  "mex_mpfr_allocate (int_env\<lparr>alloc_ok := False\<rparr>) 1 \<lparr>idx_start = 0, idx_end = 0\<rparr> pool_all_used =
     Some (False, \<lparr>idx_start = 0, idx_end = 0\<rparr>, pool_all_used\<lparr>data := None\<rparr>) \<and>
   data pool_all_used = Some (replicate 1000 (Some 7)) \<and>
   mex_mpfr_mark_free (int_env\<lparr>alloc_ok := False\<rparr>) \<lparr>idx_start = 2, idx_end = 2\<rparr>
       pool_full_free_list =
     Some (pool_full_free_list\<lparr>free_list := None\<rparr>) \<and>
   free_list pool_full_free_list = Some full_free_list"
  by (simp add: mex_mpfr_allocate_def pool_all_used_def pool_of_def reuse_loop.simps [of 0]
      new_capacity_loop.simps [of 1001 1000] new_capacity_loop.simps [of 1001 2000]
      mxRealloc_def DATA_CHUNK_SIZE_def int_env_def mex_mpfr_mark_free_def
      pool_full_free_list_def is_valid_def)

text \<open>
  C8: for a free list of \<open>n\<close> entries in a block of at least \<open>n\<close> entries and \<open>i < n\<close>,
  \<^verbatim>\<open>free_list_remove (i)\<close> leaves as the first \<open>n - 1\<close> entries the old list without its
  entry \<open>i\<close>, but its loop also reads entry \<open>n\<close>, which is not an entry of the list:
  when the block has exactly \<open>n\<close> entries the read is outside the block and the call
  does not return, and otherwise the old content of entry \<open>n\<close> ends up in entry \<open>n - 1\<close>.
\<close>

theorem free_list_remove_reads_entry_n:
  assumes "free_list s = Some fl" and "unat (free_list_size s) = n" and "i < n"
    and "n \<le> length fl"
  shows "free_list_remove i s =
     (if n < length fl
      then Some (s\<lparr>free_list := Some (shift_down i n fl),
                   free_list_size := free_list_size s - 1\<rparr>)
      else None) \<and>
     take (n - 1) (shift_down i n fl) = take i fl @ drop (i + 1) (take n fl) \<and>
     (n < length fl \<longrightarrow> shift_down i n fl ! (n - 1) = fl ! n)"
proof (intro conjI impI)
  show "free_list_remove i s =
     (if n < length fl
      then Some (s\<lparr>free_list := Some (shift_down i n fl),
                   free_list_size := free_list_size s - 1\<rparr>)
      else None)"
  proof (cases "n < length fl")
    case True
    with assms show ?thesis
      by (simp add: free_list_remove_def free_list_remove_loop_Some)
  next
    case False
    with assms have "length fl = n" by simp
    with assms False show ?thesis
      by (simp add: free_list_remove_def free_list_remove_loop_full)
  qed
  from assms take_shift_down [of i n fl]
  show "take (n - 1) (shift_down i n fl) = take i fl @ drop (i + 1) (take n fl)"
    by simp
  assume "n < length fl"
  with assms shift_down_last [of i n fl] show "shift_down i n fl ! (n - 1) = fl ! n"
    by simp
qed

theorem free_list_remove_reads_entry_n_witness:
  "free_list_remove 0 pool_full_free_list = None"
proof -
  have "free_list pool_full_free_list = Some full_free_list"
    "unat (free_list_size pool_full_free_list) = 1000" "(0::nat) < 1000"
    "1000 \<le> length full_free_list" "\<not> 1000 < length full_free_list"
    by (simp_all add: pool_full_free_list_def full_free_list_def)
  with free_list_remove_reads_entry_n [of pool_full_free_list full_free_list 1000 0]
  show ?thesis by simp
qed

text \<open>
  C9: let \<open>op\<close> be a range of \<open>M * N\<close> variables (an \<open>M x N\<close> matrix), \<open>rop\<close> a range of the
  same length that shares no variable with \<open>op\<close>, and \<open>rop2\<close> a range of the same length
  that shares no variable with \<open>rop\<close> (it may be \<open>op\<close> itself), such that copying a
  value of \<open>op\<close> into a variable of \<open>rop\<close> or of \<open>rop2\<close> is exact, as it is for equal
  precisions. Then the call of \<^verbatim>\<open>mpfr_t.transpose\<close> from \<open>op\<close> into \<open>rop\<close> with \<open>N\<close> rows,
  followed by the call from \<open>rop\<close> into \<open>rop2\<close> with \<open>M\<close> rows, both return, raise no
  error, and leave in \<open>rop2\<close> the values \<open>op\<close> held, element by element.
\<close>

theorem transpose_round_trip:
  fixes M N :: "64 word"
  assumes mem: "data (pool st) = Some d" "unat (data_size (pool st)) \<le> length d"
    and call1: "extract_idx E 1 5 prhs1 (pool st) = Some (Some rop)"
      "extract_idx E 2 5 prhs1 (pool st) = Some (Some op)"
      "extract_rounding_mode 3 5 prhs1 = Some (Some rnd1)"
      "extract_ui 4 5 prhs1 = Some (Some N)"
    and call2: "extract_idx E 1 5 prhs2 (pool st) = Some (Some rop2)"
      "extract_idx E 2 5 prhs2 (pool st) = Some (Some rop)"
      "extract_rounding_mode 3 5 prhs2 = Some (Some rnd2)"
      "extract_ui 4 5 prhs2 = Some (Some M)"
    and shape: "unat (length_idx op) = unat M * unat N"
      "length_idx rop = length_idx op" "length_idx rop2 = length_idx op"
    and disjoint: "idx_end rop < idx_start op \<or> idx_end op < idx_start rop"
      "idx_end rop2 < idx_start rop \<or> idx_end rop < idx_start rop2"
    and exact: "\<forall>x y. x < unat (length_idx op) \<and> y < unat (length_idx op) \<longrightarrow>
      fst (mpfr_set E rnd1 (d ! (unat (idx_start rop - 1) + y)) (d ! (unat (idx_start op - 1) + x))) =
        d ! (unat (idx_start op - 1) + x) \<and>
      fst (mpfr_set E rnd2 (d ! (unat (idx_start rop2 - 1) + y)) (d ! (unat (idx_start op - 1) + x))) =
        d ! (unat (idx_start op - 1) + x)"
  shows "\<exists>st1 st2 d2.
    mex_mpfr_algorithms E nlhs1 5 prhs1 2000 st = Some st1 \<and>
    mex_mpfr_algorithms E nlhs2 5 prhs2 2000 st1 = Some st2 \<and>
    throw_error st2 = throw_error st \<and>
    data (pool st2) = Some d2 \<and>
    (\<forall>x < unat (length_idx op).
       d2 ! (unat (idx_start rop2 - 1) + x) = d ! (unat (idx_start op - 1) + x))"
proof -
  let ?m = "unat M" and ?n = "unat N"
  let ?ro = "unat (idx_start rop - 1)" and ?oo = "unat (idx_start op - 1)"
  let ?r2 = "unat (idx_start rop2 - 1)"
  let ?len = "unat (length_idx op)"
  note vr = valid_range_nat [OF extract_idx_valid [OF call1(1)]]
  note vo = valid_range_nat [OF extract_idx_valid [OF call1(2)]]
  note v2 = valid_range_nat [OF extract_idx_valid [OF call2(1)]]
  have lens: "unat (length_idx rop) = ?len" "unat (length_idx rop2) = ?len"
    using shape by simp_all
  let ?d1 = "transposed E rnd1 d ?ro ?oo ?n ?m (ijk_order ?n ?m)"
  from transpose_cmd_Some [OF call1 mem shape(2), of ?m nlhs1] disjoint(1) shape(1) lens
  obtain ret1 where st1: "transpose_cmd E nlhs1 5 prhs1 st =
      Some (st\<lparr>pool := (pool st)\<lparr>data := Some ?d1\<rparr>, plhs0 := Some ret1\<rparr>)"
    by (auto simp: mult.commute)
  let ?st1 = "st\<lparr>pool := (pool st)\<lparr>data := Some ?d1\<rparr>, plhs0 := Some ret1\<rparr>"
  let ?d2 = "transposed E rnd2 ?d1 ?r2 ?ro ?m ?n (ijk_order ?m ?n)"
  have ds: "data_size (pool ?st1) = data_size (pool st)" by simp
  have dec2: "extract_idx E 1 5 prhs2 (pool ?st1) = Some (Some rop2)"
    "extract_idx E 2 5 prhs2 (pool ?st1) = Some (Some rop)"
    using call2(1,2) by (simp_all only: extract_idx_data_size [OF ds])
  have mem1: "data (pool ?st1) = Some ?d1" "unat (data_size (pool ?st1)) \<le> length ?d1"
    using mem by simp_all
  have sh2: "length_idx rop2 = length_idx rop" "unat (length_idx rop2) = ?m * ?n"
    using shape by simp_all
  from transpose_cmd_Some [OF dec2 call2(3) call2(4) mem1 sh2 disjoint(2), of nlhs2]
  obtain ret2 where st2: "transpose_cmd E nlhs2 5 prhs2 ?st1 =
      Some (?st1\<lparr>pool := (pool ?st1)\<lparr>data := Some ?d2\<rparr>, plhs0 := Some ret2\<rparr>)"
    by auto
  let ?st2 = "?st1\<lparr>pool := (pool ?st1)\<lparr>data := Some ?d2\<rparr>, plhs0 := Some ret2\<rparr>"
  have bounds: "?ro + ?n * ?m \<le> length d" "?r2 + ?m * ?n \<le> length d"
    using vr(3,6) v2(3,6) mem(2) shape(1) lens by (simp_all add: mult.commute)
  from disjoint(2) have "unat (idx_end rop2) < unat (idx_start rop) \<or>
      unat (idx_end rop) < unat (idx_start rop2)"
    by (simp add: word_less_nat_alt)
  with vr(6,7) v2(6,7) shape(1) lens
  have dis: "?r2 + ?m * ?n \<le> ?ro \<or> ?ro + ?m * ?n \<le> ?r2" by arith
  have cell: "?d2 ! (?r2 + x) = d ! (?oo + x)" if x: "x < ?len" for x
  proof -
    from x shape(1) have mpos: "0 < ?m" by (auto intro: Nat.gr0I)
    define i j where "i = x mod ?m" and "j = x div ?m"
    have xij: "x = ?m * j + i" by (simp add: i_def j_def)
    have i: "i < ?m" using mpos by (simp add: i_def)
    have j: "j < ?n" using x shape(1) mpos by (simp add: j_def less_mult_imp_div_less mult.commute)
    have src_in: "?n * i + j < ?n * ?m" using j i by (rule mult_add_less)
    have dst_in: "?m * j + i < ?m * ?n" using i j by (rule mult_add_less)
    have first: "?d1 ! (?ro + ?n * i + j) = d ! (?oo + ?m * j + i)"
    proof -
      have "?d1 ! (?ro + ?n * i + j) =
        fst (mpfr_set E rnd1 (d ! (?ro + ?n * i + j)) (d ! (?oo + ?m * j + i)))"
        using j i bounds(1) by (rule transposed_nth)
      also have "\<dots> = d ! (?oo + ?m * j + i)"
        using exact [rule_format, of "?m * j + i" "?n * i + j"] dst_in src_in shape(1)
        by (simp add: mult.commute add.assoc)
      finally show ?thesis .
    qed
    have keep: "?d1 ! (?r2 + ?m * j + i) = d ! (?r2 + ?m * j + i)"
      using dis dst_in by (intro transposed_nth_other) (auto simp: mult.commute)
    have "?d2 ! (?r2 + ?m * j + i) =
      fst (mpfr_set E rnd2 (?d1 ! (?r2 + ?m * j + i)) (?d1 ! (?ro + ?n * i + j)))"
      using i j bounds(2) by (intro transposed_nth) simp_all
    also have "\<dots> = fst (mpfr_set E rnd2 (d ! (?r2 + ?m * j + i)) (d ! (?oo + ?m * j + i)))"
      by (simp add: first keep)
    also have "\<dots> = d ! (?oo + ?m * j + i)"
      using exact [rule_format, of "?m * j + i" "?m * j + i"] dst_in shape(1)
      by (simp add: add.assoc)
    finally show ?thesis by (simp add: xij add.assoc)
  qed
  have "mex_mpfr_algorithms E nlhs1 5 prhs1 2000 st = Some ?st1"
    using st1 by (simp add: mex_mpfr_algorithms_def)
  moreover have "mex_mpfr_algorithms E nlhs2 5 prhs2 2000 ?st1 = Some ?st2"
    using st2 by (simp add: mex_mpfr_algorithms_def)
  moreover have "throw_error ?st2 = throw_error st" by simp
  moreover have "data (pool ?st2) = Some ?d2" by simp
  ultimately show ?thesis using cell by blast
qed

theorem transpose_round_trip_witness:
  "\<exists>st1 st2 d2.
     mex_mpfr_algorithms int_env 1 5 transpose_args1 2000 (state_of transpose_data None) = Some st1 \<and>
     mex_mpfr_algorithms int_env 1 5 transpose_args2 2000 st1 = Some st2 \<and>
     data (pool st2) = Some d2 \<and> d2 ! 12 = Some 1 \<and> d2 ! 17 = Some 6"
proof -
  let ?st = "state_of transpose_data None"
  let ?rop = "\<lparr>idx_start = 7, idx_end = 12\<rparr>" and ?op = "\<lparr>idx_start = 1, idx_end = 6\<rparr>"
  let ?rop2 = "\<lparr>idx_start = 13, idx_end = 18\<rparr>"
  have mem: "data (pool ?st) = Some transpose_data"
    "unat (data_size (pool ?st)) \<le> length transpose_data"
    by (simp_all add: state_of_def pool_of_def transpose_data_def)
  have call1: "extract_idx int_env 1 5 transpose_args1 (pool ?st) = Some (Some ?rop)"
    "extract_idx int_env 2 5 transpose_args1 (pool ?st) = Some (Some ?op)"
    "extract_rounding_mode 3 5 transpose_args1 = Some (Some MPFR_RNDN)"
    "extract_ui 4 5 transpose_args1 = Some (Some 3)"
    by code_simp+
  have call2: "extract_idx int_env 1 5 transpose_args2 (pool ?st) = Some (Some ?rop2)"
    "extract_idx int_env 2 5 transpose_args2 (pool ?st) = Some (Some ?rop)"
    "extract_rounding_mode 3 5 transpose_args2 = Some (Some MPFR_RNDN)"
    "extract_ui 4 5 transpose_args2 = Some (Some 2)"
    by code_simp+
  have shape: "unat (length_idx ?op) = unat (2 :: 64 word) * unat (3 :: 64 word)"
    "length_idx ?rop = length_idx ?op" "length_idx ?rop2 = length_idx ?op"
    by (simp_all add: length_idx_def)
  have disjoint: "idx_end ?rop < idx_start ?op \<or> idx_end ?op < idx_start ?rop"
    "idx_end ?rop2 < idx_start ?rop \<or> idx_end ?rop < idx_start ?rop2"
    by simp_all
  have exact: "\<forall>x y. x < unat (length_idx ?op) \<and> y < unat (length_idx ?op) \<longrightarrow>
      fst (mpfr_set int_env MPFR_RNDN (transpose_data ! (unat (idx_start ?rop - 1) + y))
             (transpose_data ! (unat (idx_start ?op - 1) + x))) =
        transpose_data ! (unat (idx_start ?op - 1) + x) \<and>
      fst (mpfr_set int_env MPFR_RNDN (transpose_data ! (unat (idx_start ?rop2 - 1) + y))
             (transpose_data ! (unat (idx_start ?op - 1) + x))) =
        transpose_data ! (unat (idx_start ?op - 1) + x)"
    by (simp add: int_env_def)
  from transpose_round_trip [OF mem call1 call2 shape disjoint exact, of 1 1]
  obtain st1 st2 d2 where
    r: "mex_mpfr_algorithms int_env 1 5 transpose_args1 2000 ?st = Some st1"
      "mex_mpfr_algorithms int_env 1 5 transpose_args2 2000 st1 = Some st2"
      "data (pool st2) = Some d2" and
    cells: "\<forall>x < unat (length_idx ?op).
      d2 ! (unat (idx_start ?rop2 - 1) + x) = transpose_data ! (unat (idx_start ?op - 1) + x)"
    by blast
  have len: "unat (length_idx ?op) = 6" by (simp add: length_idx_def)
  from cells [rule_format, of 0] len have "d2 ! 12 = Some 1" by (simp add: transpose_data_def)
  moreover from cells [rule_format, of 5] len have "d2 ! 17 = Some 6"
    by (simp add: transpose_data_def)
  ultimately show ?thesis using r by blast
qed

text \<open>
  C10: where \<^verbatim>\<open>MPFR_PREC_MAX\<close> is below \<open>2 ^ 63\<close> (it is a value of the signed type
  \<^verbatim>\<open>mpfr_prec_t\<close>), \<^verbatim>\<open>extract_prec\<close> returns 1 and stores \<open>p\<close> exactly when the argument
  is there, is a numeric scalar, and its value is a finite whole number \<open>x\<close> with
  \<open>MPFR_PREC_MIN < x < MPFR_PREC_MAX\<close>, both strict, and \<open>p\<close> is \<open>x\<close>. For an argument
  that reads as \<^verbatim>\<open>MPFR_PREC_MIN\<close> or as \<^verbatim>\<open>MPFR_PREC_MAX\<close> itself, \<^verbatim>\<open>extract_prec\<close>
  returns 0, and the macro \<^verbatim>\<open>MEX_MPFR_PREC_T\<close> ends the call with the message that the
  precision must be between \<^verbatim>\<open>MPFR_PREC_MIN\<close> and \<^verbatim>\<open>MPFR_PREC_MAX\<close>.
\<close>

theorem extract_prec_strict_bounds:
  assumes max: "MPFR_PREC_MAX E < 2 ^ 63"
  shows "(extract_prec E idx nrhs prhs = Some (Some p) \<longleftrightarrow>
      (\<exists>x. int idx < nrhs \<and> idx < length prhs \<and>
           mxIsScalar (prhs ! idx) \<and> mxIsNumeric (prhs ! idx) \<and>
           mxGetScalar (prhs ! idx) = Some (D_fin x) \<and> of_int \<lfloor>x\<rfloor> = x \<and>
           real (unat (MPFR_PREC_MIN E)) < x \<and> x < real (unat (MPFR_PREC_MAX E)) \<and>
           p = word_of_int \<lfloor>x\<rfloor>)) \<and>
    (extract_ui idx nrhs prhs = Some (Some b) \<and> (b = MPFR_PREC_MIN E \<or> b = MPFR_PREC_MAX E) \<longrightarrow>
       extract_prec E idx nrhs prhs = Some None \<and>
       MEX_MPFR_PREC_T E cmd_code nrhs prhs idx name st k =
         Some (MEX_FCN_ERR E
           (Precision_must_be_between cmd_code name (MPFR_PREC_MIN E) (MPFR_PREC_MAX E)) st))"
proof (intro conjI impI)
  have maxn: "real (unat (MPFR_PREC_MAX E)) < 2 ^ 63"
  proof -
    from max have "unat (MPFR_PREC_MAX E) < unat (2 ^ 63 :: 64 word)"
      by (simp only: word_less_nat_alt)
    then have "unat (MPFR_PREC_MAX E) < 2 ^ 63" by simp
    then show ?thesis by (metis of_nat_less_iff of_nat_numeral of_nat_power)
  qed
  show "extract_prec E idx nrhs prhs = Some (Some p) \<longleftrightarrow>
      (\<exists>x. int idx < nrhs \<and> idx < length prhs \<and>
           mxIsScalar (prhs ! idx) \<and> mxIsNumeric (prhs ! idx) \<and>
           mxGetScalar (prhs ! idx) = Some (D_fin x) \<and> of_int \<lfloor>x\<rfloor> = x \<and>
           real (unat (MPFR_PREC_MIN E)) < x \<and> x < real (unat (MPFR_PREC_MAX E)) \<and>
           p = word_of_int \<lfloor>x\<rfloor>)" (is "?L \<longleftrightarrow> ?R")
  proof
    assume ?L
    then have ui: "extract_ui idx nrhs prhs = Some (Some p)"
      and b: "MPFR_PREC_MIN E < p" "p < MPFR_PREC_MAX E"
      by (auto simp: extract_prec_def split: Option.bind_splits option.splits if_splits)
    from ui obtain x where x: "extract_d idx nrhs prhs = Some (Some (D_fin x))"
      "of_int \<lfloor>x\<rfloor> = x" "0 \<le> x" "x < 2 ^ 63" "p = word_of_int \<lfloor>x\<rfloor>"
      by (auto simp: extract_ui_Some)
    from b x have "real (unat (MPFR_PREC_MIN E)) < x" "x < real (unat (MPFR_PREC_MAX E))"
      by (simp_all add: less_word_of_int_floor)
    with x show ?R by (auto simp: extract_d_Some)
  next
    assume ?R
    then obtain x where x: "extract_d idx nrhs prhs = Some (Some (D_fin x))"
      "of_int \<lfloor>x\<rfloor> = x" "real (unat (MPFR_PREC_MIN E)) < x" "x < real (unat (MPFR_PREC_MAX E))"
      "p = word_of_int \<lfloor>x\<rfloor>"
      by (auto simp: extract_d_Some)
    from x(3) have x0: "0 \<le> x"
      by (metis less_eq_real_def of_nat_0_le_iff order_trans)
    from x(4) maxn have x63: "x < 2 ^ 63" by simp
    from x x0 x63 have "extract_ui idx nrhs prhs = Some (Some p)"
      by (auto simp: extract_ui_Some)
    moreover from x x0 x63 have "MPFR_PREC_MIN E < p" "p < MPFR_PREC_MAX E"
      by (simp_all add: less_word_of_int_floor)
    ultimately show ?L by (simp add: extract_prec_def)
  qed
next
  assume a: "extract_ui idx nrhs prhs = Some (Some b) \<and> (b = MPFR_PREC_MIN E \<or> b = MPFR_PREC_MAX E)"
  then show none: "extract_prec E idx nrhs prhs = Some None"
    by (auto simp: extract_prec_def)
  then show "MEX_MPFR_PREC_T E cmd_code nrhs prhs idx name st k =
         Some (MEX_FCN_ERR E
           (Precision_must_be_between cmd_code name (MPFR_PREC_MIN E) (MPFR_PREC_MAX E)) st)"
    by (simp add: MEX_MPFR_PREC_T_def MEX_ARG_def)
qed

theorem extract_prec_strict_bounds_witness:
  "extract_prec int_env 1 2 [mx_scalar 2000, mx_scalar 53] = Some (Some 53) \<and>
   extract_prec int_env 1 2 [mx_scalar 2000, mx_scalar 1] = Some None \<and>
   extract_prec int_env 1 2 [mx_scalar 2000, mx_scalar 9223372036854775551] = Some None"
proof -
  have max: "MPFR_PREC_MAX int_env < 2 ^ 63" by (simp add: int_env_def)
  have ui: "extract_ui 1 2 [mx_scalar 2000, mx_scalar 1] = Some (Some 1) \<and>
      (1 = MPFR_PREC_MIN int_env \<or> 1 = MPFR_PREC_MAX int_env)"
    "extract_ui 1 2 [mx_scalar 2000, mx_scalar 9223372036854775551] = Some (Some 9223372036854775551) \<and>
      (9223372036854775551 = MPFR_PREC_MIN int_env \<or> 9223372036854775551 = MPFR_PREC_MAX int_env)"
    by code_simp+
  have r: "\<exists>x. int 1 < 2 \<and> 1 < length [mx_scalar 2000, mx_scalar 53] \<and>
      mxIsScalar ([mx_scalar 2000, mx_scalar 53] ! 1) \<and> mxIsNumeric ([mx_scalar 2000, mx_scalar 53] ! 1) \<and>
      mxGetScalar ([mx_scalar 2000, mx_scalar 53] ! 1) = Some (D_fin x) \<and> of_int \<lfloor>x\<rfloor> = x \<and>
      real (unat (MPFR_PREC_MIN int_env)) < x \<and> x < real (unat (MPFR_PREC_MAX int_env)) \<and>
      (53 :: 64 word) = word_of_int \<lfloor>x\<rfloor>"
    by (rule exI [of _ 53]) (simp add: mx_scalar_def mxIsScalar_def mxGetScalar_def int_env_def)
  from extract_prec_strict_bounds [OF max, of 1 2 "[mx_scalar 2000, mx_scalar 53]" 53] r
  have "extract_prec int_env 1 2 [mx_scalar 2000, mx_scalar 53] = Some (Some 53)" by blast
  moreover from extract_prec_strict_bounds [OF max, of 1 2 "[mx_scalar 2000, mx_scalar 1]" _ 1] ui(1)
  have "extract_prec int_env 1 2 [mx_scalar 2000, mx_scalar 1] = Some None" by blast
  moreover from extract_prec_strict_bounds [OF max, of 1 2
      "[mx_scalar 2000, mx_scalar 9223372036854775551]" _ 9223372036854775551] ui(2)
  have "extract_prec int_env 1 2 [mx_scalar 2000, mx_scalar 9223372036854775551] = Some None"
    by blast
  ultimately show ?thesis by simp
qed

end
